(* ===== verification/Prelude.thy ===== *)
theory Prelude
  imports Main "HOL-Library.Word" "HOL-Library.Monad_Syntax"
begin

text \<open>
  What every theory of the development shares: the machine types of the target, array
  access with the bounds written out, the "first maximum" scan that the scheduler and the
  wait queues both run, and the arithmetic facts on 8-bit and 32-bit counters.

  A C expression whose evaluation is undefined (a NULL or uninitialised object
  dereferenced, an array read or written out of bounds, a division by zero) has the value
  \<^term>\<open>None\<close>; everything that is defined is \<^term>\<open>Some\<close> of its result. Safety of an
  operation is therefore the statement that it returns \<^term>\<open>Some\<close>.
\<close>

unbundle bit_operations_syntax

type_synonym u8 = "8 word"
type_synonym u16 = "16 word"
type_synonym u32 = "32 word"

named_theorems model_defs \<open>definitions of the model that proofs unfold freely\<close>

subsection \<open>Arrays with bounds\<close>

definition rd :: "'a list \<Rightarrow> nat \<Rightarrow> 'a option" where
  "rd xs i = (if i < length xs then Some (xs ! i) else None)"

definition wr :: "'a list \<Rightarrow> nat \<Rightarrow> 'a \<Rightarrow> 'a list option" where
  "wr xs i v = (if i < length xs then Some (xs[i := v]) else None)"

lemma rd_in [simp]: "i < length xs \<Longrightarrow> rd xs i = Some (xs ! i)"
  by (simp add: rd_def)

lemma rd_out [simp]: "length xs \<le> i \<Longrightarrow> rd xs i = None"
  by (simp add: rd_def)

lemma rd_Some_iff: "rd xs i = Some v \<longleftrightarrow> i < length xs \<and> xs ! i = v"
  by (auto simp: rd_def)

lemma wr_in [simp]: "i < length xs \<Longrightarrow> wr xs i v = Some (xs[i := v])"
  by (simp add: wr_def)

lemma wr_out [simp]: "length xs \<le> i \<Longrightarrow> wr xs i v = None"
  by (simp add: wr_def)

lemma wr_Some_iff: "wr xs i v = Some ys \<longleftrightarrow> i < length xs \<and> ys = xs[i := v]"
  by (auto simp: wr_def)

lemma take_Suc_update:
  "n < length xs \<Longrightarrow> take (Suc n) (xs[n := v]) = take n xs @ [v]"
  by (simp add: take_Suc_conv_app_nth)

lemma remove1_at:
  assumes "\<forall>j<i. xs ! j \<noteq> v" "i < length xs" "xs ! i = v"
  shows "remove1 v xs = take i xs @ drop (Suc i) xs"
proof -
  have "v \<notin> set (take i xs)"
    using assms by (auto simp: in_set_conv_nth)
  moreover have "xs = take i xs @ v # drop (Suc i) xs"
    using id_take_nth_drop [OF assms(2)] assms(3) by simp
  ultimately show ?thesis
    by (metis remove1_append remove1.simps(2))
qed

subsection \<open>Small counters\<close>

lemma unat_u8_less [simp]: "unat (x :: u8) < 256"
  using unsigned_less [of x] by simp

lemma unat_u32_less: "unat (x :: u32) < 4294967296"
  using unsigned_less [of x] by simp

lemma unat_inc: "Suc (unat x) < 2 ^ LENGTH('a) \<Longrightarrow> unat (x + 1) = Suc (unat x)"
  for x :: "'a :: len word"
  by (simp add: unat_word_ariths)

lemma unat_dec: "x \<noteq> 0 \<Longrightarrow> unat (x - 1) = unat x - 1"
  for x :: "'a :: len word"
  by (rule unat_minus_one)

lemma unat_u8_inc: "unat x < 255 \<Longrightarrow> unat (x + 1) = Suc (unat x)" for x :: u8
  by (rule unat_inc) simp

lemma and_not_and: "x AND NOT (x AND y) = x AND NOT y" for x y :: "'a :: len word"
  by (rule bit_eqI) (auto simp: bit_and_iff bit_or_iff bit_not_iff)

subsection \<open>The first maximum of a list\<close>

text \<open>
  Both \<^verbatim>\<open>os_scheduler\<close> and \<^verbatim>\<open>pick_waiter\<close> scan a sequence and replace the best
  candidate only by a strictly better one. This is that scan as a function of a list and a
  key; the characterisation below is what "highest priority, first in scan order among
  equals" means.
\<close>

fun first_max :: "('a \<Rightarrow> 'b :: linorder) \<Rightarrow> 'a option \<Rightarrow> 'a list \<Rightarrow> 'a option" where
  "first_max f best [] = best"
| "first_max f best (x # xs) =
     first_max f (case best of None \<Rightarrow> Some x
                  | Some b \<Rightarrow> if f b < f x then Some x else Some b) xs"

lemma first_max_append: "first_max f best (xs @ ys) = first_max f (first_max f best xs) ys"
  by (induction xs arbitrary: best) auto

lemma first_max_stays: "\<forall>x\<in>set xs. f x \<le> f b \<Longrightarrow> first_max f (Some b) xs = Some b"
  by (induction xs) (auto simp: not_less)

lemma first_max_None_iff [simp]: "first_max f best xs = None \<longleftrightarrow> best = None \<and> xs = []"
  by (induction xs arbitrary: best) (auto split: option.splits)

lemma first_max_mem: "first_max f best xs = Some r \<Longrightarrow> best = Some r \<or> r \<in> set xs"
  by (induction xs arbitrary: best) (auto split: option.splits if_splits)

lemma first_max_split:
  "first_max f None xs = Some r \<Longrightarrow>
     \<exists>ys zs. xs = ys @ r # zs \<and> (\<forall>y\<in>set ys. f y < f r) \<and> (\<forall>z\<in>set zs. f z \<le> f r)"
proof (induction xs arbitrary: r rule: rev_induct)
  case (snoc x xs)
  show ?case
  proof (cases "first_max f None xs")
    case None
    with snoc.prems have "xs = []" "r = x" by (simp_all add: first_max_append)
    then show ?thesis by (intro exI [of _ "[]"]) simp
  next
    case (Some b)
    from snoc.IH [OF Some] obtain ys zs where xs: "xs = ys @ b # zs"
      and lt: "\<forall>y\<in>set ys. f y < f b" and le: "\<forall>z\<in>set zs. f z \<le> f b" by blast
    show ?thesis
    proof (cases "f b < f x")
      case True
      with snoc.prems Some have r: "r = x" by (simp add: first_max_append)
      have "\<forall>y\<in>set xs. f y < f x" using xs lt le True by (auto intro: less_trans le_less_trans)
      with r show ?thesis by (intro exI [of _ xs] exI [of _ "[]"]) simp
    next
      case False
      with snoc.prems Some have r: "r = b" by (simp add: first_max_append)
      with xs lt le False show ?thesis
        by (intro exI [of _ ys] exI [of _ "zs @ [x]"]) (simp add: not_less)
    qed
  qed
qed simp

theorem first_max_iff:
  "first_max f None xs = Some r \<longleftrightarrow>
     (\<exists>ys zs. xs = ys @ r # zs \<and> (\<forall>y\<in>set ys. f y < f r) \<and> (\<forall>z\<in>set zs. f z \<le> f r))"
    (is "?l \<longleftrightarrow> ?r")
proof
  show "?l \<Longrightarrow> ?r" by (rule first_max_split)
next
  assume ?r
  then obtain ys zs where xs: "xs = ys @ r # zs"
    and lt: "\<forall>y\<in>set ys. f y < f r" and le: "\<forall>z\<in>set zs. f z \<le> f r" by blast
  have "first_max f (first_max f None ys) (r # zs) = Some r"
    using lt le first_max_mem [of f None ys]
    by (cases "first_max f None ys") (auto simp: first_max_stays)
  with xs show ?l by (simp only: first_max_append)
qed

lemma first_max_in: "first_max f None xs = Some r \<Longrightarrow> r \<in> set xs"
  by (auto simp: first_max_iff)

lemma first_max_ge: "first_max f None xs = Some r \<Longrightarrow> x \<in> set xs \<Longrightarrow> f x \<le> f r"
  by (fastforce simp: first_max_iff)

lemma first_max_cong_acc:
  "(\<And>x. x \<in> set xs \<Longrightarrow> f x = g x) \<Longrightarrow> (\<And>b. best = Some b \<Longrightarrow> f b = g b) \<Longrightarrow>
   first_max f best xs = first_max g best xs"
proof (induction xs arbitrary: best)
  case (Cons x xs)
  let ?best = "case best of None \<Rightarrow> Some x | Some b \<Rightarrow> if f b < f x then Some x else Some b"
  have "first_max f ?best xs = first_max g ?best xs"
    using Cons.prems by (intro Cons.IH) (auto split: option.splits if_splits)
  with Cons.prems show ?case by (auto split: option.splits)
qed simp

lemma first_max_cong:
  "(\<And>x. x \<in> set xs \<Longrightarrow> f x = g x) \<Longrightarrow> first_max f None xs = first_max g None xs"
  by (rule first_max_cong_acc) auto

end
