(* ===== verification/Kernel_Types.thy ===== *)
theory Kernel_Types
  imports Prelude
begin

text \<open>
  The data of \<^verbatim>\<open>Inc/os_task.h\<close>, \<^verbatim>\<open>Inc/os_kernel.h\<close> and the globals of
  \<^verbatim>\<open>Kernel/os_kernel.c\<close>, with the accessors that stand for the C dereferences.

  A \<^verbatim>\<open>TCB_t*\<close> only ever points into \<^verbatim>\<open>os_tasks\<close>, so it is the index of the TCB
  (\<open>tid\<close>) and NULL is \<^term>\<open>None\<close>. Mutexes and semaphores are objects with addresses;
  the three that \<^verbatim>\<open>os_message_queue_t\<close> embeds have the addresses
  \<open>Queue_Lock q\<close>, \<open>Queue_Empty q\<close> and \<open>Queue_Filled q\<close> of the queue at \<open>q\<close>. The
  pointers \<^verbatim>\<open>task->wait_queue\<close> and \<^verbatim>\<open>task->wait_count\<close> lead into such an object:
  a \<open>wref\<close> says which one.
\<close>

subsection \<open>Configuration constants (\<^verbatim>\<open>Inc/os_kernel.h\<close>)\<close>

definition MAX_TASKS :: nat where [model_defs]: "MAX_TASKS = 6"
definition MAX_WAITING_TASKS :: nat where [model_defs]: "MAX_WAITING_TASKS = 5"
definition STACK_SIZE :: u32 where [model_defs]: "STACK_SIZE = 256"
definition SYSTICK_FREQ :: u32 where [model_defs]: "SYSTICK_FREQ = 1000"
definition SYS_CLK_HZ :: u32 where [model_defs]: "SYS_CLK_HZ = 16000000"
definition STACK_CANARY :: u32 where [model_defs]: "STACK_CANARY = 0xC0FFEE"
definition WAIT_FOREVER :: u32 where [model_defs]: "WAIT_FOREVER = 0xFFFFFFFF"

definition OS_SUCCESS :: u8 where [model_defs]: "OS_SUCCESS = 0"
definition OS_TIMEOUT :: u8 where [model_defs]: "OS_TIMEOUT = 1"
definition OS_FAIL :: u8 where [model_defs]: "OS_FAIL = 2"

lemma result_codes_distinct [simp]:
  "OS_SUCCESS \<noteq> OS_TIMEOUT" "OS_TIMEOUT \<noteq> OS_SUCCESS" "OS_SUCCESS \<noteq> OS_FAIL"
  "OS_FAIL \<noteq> OS_SUCCESS" "OS_TIMEOUT \<noteq> OS_FAIL" "OS_FAIL \<noteq> OS_TIMEOUT"
  by (simp_all add: model_defs)

subsection \<open>Addresses\<close>

type_synonym tid = nat

datatype maddr = Mutex_At nat | Queue_Lock nat
datatype saddr = Sem_At nat | Queue_Empty nat | Queue_Filled nat
datatype wref = MutexQ maddr | SemQ saddr

subsection \<open>Task control blocks (\<^verbatim>\<open>Inc/os_task.h\<close>)\<close>

datatype task_state = READY | RUNNING | BLOCKED | SUSPENDED

record tcb =
  stackPtr :: u32
  state :: task_state
  base_priority :: u8
  current_priority :: u8
  stackBase :: u32
  stackSize :: u32
  sleep_time :: u32
  wait_queue :: "wref option"
  wait_count :: "wref option"
  wait_result :: u8

text \<open>A TCB of the zero-initialised array \<^verbatim>\<open>os_tasks\<close>.\<close>

definition tcb_zero :: tcb where
  "tcb_zero = \<lparr>stackPtr = 0, state = READY, base_priority = 0, current_priority = 0,
     stackBase = 0, stackSize = 0, sleep_time = 0, wait_queue = None, wait_count = None,
     wait_result = 0\<rparr>"

subsection \<open>Synchronisation objects\<close>

record os_mutex =
  lock :: u32
  owner :: "tid option"
  m_wait_queue :: "tid option list"
  m_wait_count :: u8

record os_semaphore =
  sem_count :: u32
  sem_max_count :: u32
  s_wait_queue :: "tid option list"
  s_wait_count :: u8

text \<open>
  \<^verbatim>\<open>os_message_queue_t\<close> without the three objects it embeds, which are found at
  \<open>Queue_Lock q\<close>, \<open>Queue_Empty q\<close> and \<open>Queue_Filled q\<close>.
\<close>

record os_message_queue =
  q_buffer :: u32
  q_capacity :: u32
  q_head :: u32
  q_tail :: u32

subsection \<open>Kernel state\<close>

text \<open>
  The globals of \<^verbatim>\<open>os_kernel.c\<close>, memory as 32-bit words by byte address (the stacks and
  the message buffers live there), the initialised synchronisation objects, and the core
  registers the kernel drives: PRIMASK, the PendSV pending bit of \<^verbatim>\<open>SCB->ICSR\<close>, the
  SysTick registers, \<^verbatim>\<open>DBGMCU->CR\<close> and the two exception priorities. \<open>halted_in\<close> is set
  when \<^verbatim>\<open>os_stack_overflow_hook\<close> has been entered for a task: the hook never returns.
\<close>

record kernel =
  os_tasks :: "tcb list"
  task_count :: u8
  current_tcb :: "tid option"
  os_ticks :: u32
  kernel_running :: bool
  mutexes :: "maddr \<Rightarrow> os_mutex option"
  sems :: "saddr \<Rightarrow> os_semaphore option"
  queues :: "nat \<Rightarrow> os_message_queue option"
  mem :: "u32 \<Rightarrow> u32"
  primask :: u32
  pendsv :: bool
  systick_load :: u32
  systick_val :: u32
  systick_ctrl :: u32
  dbgmcu_cr :: u32
  pendsv_prio :: u32
  systick_prio :: u32
  halted_in :: "tid option"

subsection \<open>Dereferencing\<close>

definition get_tcb :: "kernel \<Rightarrow> tid \<Rightarrow> tcb option" where
  "get_tcb s t = rd (os_tasks s) t"

definition upd_tcb :: "tid \<Rightarrow> (tcb \<Rightarrow> tcb) \<Rightarrow> kernel \<Rightarrow> kernel option" where
  "upd_tcb t f s = do {
     x \<leftarrow> rd (os_tasks s) t;
     Some (s\<lparr>os_tasks := (os_tasks s)[t := f x]\<rparr>) }"

definition upd_mutex :: "maddr \<Rightarrow> (os_mutex \<Rightarrow> os_mutex) \<Rightarrow> kernel \<Rightarrow> kernel option" where
  "upd_mutex m f s = do {
     x \<leftarrow> mutexes s m;
     Some (s\<lparr>mutexes := (mutexes s)(m \<mapsto> f x)\<rparr>) }"

definition upd_sem :: "saddr \<Rightarrow> (os_semaphore \<Rightarrow> os_semaphore) \<Rightarrow> kernel \<Rightarrow> kernel option" where
  "upd_sem a f s = do {
     x \<leftarrow> sems s a;
     Some (s\<lparr>sems := (sems s)(a \<mapsto> f x)\<rparr>) }"

text \<open>The array and the counter behind a \<open>wref\<close>, read and written separately.\<close>

fun get_wait_array :: "kernel \<Rightarrow> wref \<Rightarrow> tid option list option" where
  "get_wait_array s (MutexQ m) = map_option m_wait_queue (mutexes s m)"
| "get_wait_array s (SemQ a) = map_option s_wait_queue (sems s a)"

fun get_wait_count :: "kernel \<Rightarrow> wref \<Rightarrow> u8 option" where
  "get_wait_count s (MutexQ m) = map_option m_wait_count (mutexes s m)"
| "get_wait_count s (SemQ a) = map_option s_wait_count (sems s a)"

fun put_wait_array :: "wref \<Rightarrow> tid option list \<Rightarrow> kernel \<Rightarrow> kernel" where
  "put_wait_array (MutexQ m) a s =
     s\<lparr>mutexes := (mutexes s)(m := map_option (m_wait_queue_update (\<lambda>_. a)) (mutexes s m))\<rparr>"
| "put_wait_array (SemQ b) a s =
     s\<lparr>sems := (sems s)(b := map_option (s_wait_queue_update (\<lambda>_. a)) (sems s b))\<rparr>"

fun put_wait_count :: "wref \<Rightarrow> u8 \<Rightarrow> kernel \<Rightarrow> kernel" where
  "put_wait_count (MutexQ m) c s =
     s\<lparr>mutexes := (mutexes s)(m := map_option (m_wait_count_update (\<lambda>_. c)) (mutexes s m))\<rparr>"
| "put_wait_count (SemQ b) c s =
     s\<lparr>sems := (sems s)(b := map_option (s_wait_count_update (\<lambda>_. c)) (sems s b))\<rparr>"

subsection \<open>Critical sections and the context-switch request\<close>

text \<open>
  \<^verbatim>\<open>os_enter_critical\<close> returns the PRIMASK it found; \<^verbatim>\<open>os_exit_critical\<close> puts it back.
  \<^verbatim>\<open>os_yield\<close> sets PENDSVSET; the barriers have no effect on the state.
\<close>

definition os_enter_critical :: "kernel \<Rightarrow> u32 \<times> kernel" where
  "os_enter_critical s = (primask s, s\<lparr>primask := 1\<rparr>)"

definition os_exit_critical :: "u32 \<Rightarrow> kernel \<Rightarrow> kernel" where
  "os_exit_critical p s = s\<lparr>primask := p\<rparr>"

definition os_yield :: "kernel \<Rightarrow> kernel" where
  "os_yield s = s\<lparr>pendsv := True\<rparr>"

subsection \<open>The waiting tasks of an object\<close>

text \<open>
  The first \<open>wait_count\<close> entries of the array: the part of the object that means
  anything. An address where no object has been initialised has no waiters.
\<close>

definition waiters :: "kernel \<Rightarrow> wref \<Rightarrow> tid option list" where
  "waiters s r = (case (get_wait_array s r, get_wait_count s r) of
     (Some a, Some c) \<Rightarrow> take (unat c) a | _ \<Rightarrow> [])"

fun wait_capacity :: "wref \<Rightarrow> nat" where
  "wait_capacity (MutexQ _) = MAX_WAITING_TASKS"
| "wait_capacity (SemQ _) = MAX_TASKS"

subsection \<open>Frame lemmas\<close>

lemma put_wait_array_frame [simp]:
  "os_tasks (put_wait_array r a s) = os_tasks s"
  "task_count (put_wait_array r a s) = task_count s"
  "current_tcb (put_wait_array r a s) = current_tcb s"
  "kernel_running (put_wait_array r a s) = kernel_running s"
  "primask (put_wait_array r a s) = primask s"
  "pendsv (put_wait_array r a s) = pendsv s"
  "mem (put_wait_array r a s) = mem s"
  "queues (put_wait_array r a s) = queues s"
  "os_ticks (put_wait_array r a s) = os_ticks s"
  "halted_in (put_wait_array r a s) = halted_in s"
  by (cases r; simp)+

lemma put_wait_count_frame [simp]:
  "os_tasks (put_wait_count r c s) = os_tasks s"
  "task_count (put_wait_count r c s) = task_count s"
  "current_tcb (put_wait_count r c s) = current_tcb s"
  "kernel_running (put_wait_count r c s) = kernel_running s"
  "primask (put_wait_count r c s) = primask s"
  "pendsv (put_wait_count r c s) = pendsv s"
  "mem (put_wait_count r c s) = mem s"
  "queues (put_wait_count r c s) = queues s"
  "os_ticks (put_wait_count r c s) = os_ticks s"
  "halted_in (put_wait_count r c s) = halted_in s"
  by (cases r; simp)+

lemma get_put_wait [simp]:
  "get_wait_array (put_wait_count r c s) r' = get_wait_array s r'"
  "get_wait_count (put_wait_array r a s) r' = get_wait_count s r'"
  "get_wait_array (put_wait_array r a s) r' =
     (if r = r' then map_option (\<lambda>_. a) (get_wait_array s r') else get_wait_array s r')"
  "get_wait_count (put_wait_count r c s) r' =
     (if r = r' then map_option (\<lambda>_. c) (get_wait_count s r') else get_wait_count s r')"
  by (cases r; cases r'; auto simp: option.map_comp o_def)+

lemma get_wait_tasks_update [simp]:
  "get_wait_array (s\<lparr>os_tasks := ts\<rparr>) r = get_wait_array s r"
  "get_wait_count (s\<lparr>os_tasks := ts\<rparr>) r = get_wait_count s r"
  "get_wait_array (s\<lparr>primask := p\<rparr>) r = get_wait_array s r"
  "get_wait_count (s\<lparr>primask := p\<rparr>) r = get_wait_count s r"
  "get_wait_array (s\<lparr>pendsv := b\<rparr>) r = get_wait_array s r"
  "get_wait_count (s\<lparr>pendsv := b\<rparr>) r = get_wait_count s r"
  "get_wait_array (s\<lparr>os_ticks := n\<rparr>) r = get_wait_array s r"
  "get_wait_count (s\<lparr>os_ticks := n\<rparr>) r = get_wait_count s r"
  "get_wait_array (s\<lparr>current_tcb := c\<rparr>) r = get_wait_array s r"
  "get_wait_count (s\<lparr>current_tcb := c\<rparr>) r = get_wait_count s r"
  "get_wait_array (s\<lparr>queues := qs\<rparr>) r = get_wait_array s r"
  "get_wait_count (s\<lparr>queues := qs\<rparr>) r = get_wait_count s r"
  "get_wait_array (s\<lparr>mem := h\<rparr>) r = get_wait_array s r"
  "get_wait_count (s\<lparr>mem := h\<rparr>) r = get_wait_count s r"
  by (cases r; simp)+

lemma waiters_tasks_update [simp]:
  "waiters (s\<lparr>os_tasks := ts\<rparr>) r = waiters s r"
  "waiters (s\<lparr>primask := p\<rparr>) r = waiters s r"
  "waiters (s\<lparr>pendsv := b\<rparr>) r = waiters s r"
  "waiters (s\<lparr>os_ticks := n\<rparr>) r = waiters s r"
  "waiters (s\<lparr>current_tcb := c\<rparr>) r = waiters s r"
  "waiters (s\<lparr>queues := qs\<rparr>) r = waiters s r"
  "waiters (s\<lparr>mem := h\<rparr>) r = waiters s r"
  by (simp_all add: waiters_def)

lemma get_wait_both:
  "get_wait_array s r = None \<longleftrightarrow> get_wait_count s r = None"
  by (cases r) auto

end
