(* ===== verification/Wait_Queue.thy ===== *)
theory Wait_Queue
  imports Kernel_Types
begin

text \<open>
  The wait queues of \<^verbatim>\<open>Kernel/os_kernel.c\<close>: \<^verbatim>\<open>wait_queue_remove\<close>,
  \<^verbatim>\<open>block_current\<close>, \<^verbatim>\<open>wake_task\<close> and \<^verbatim>\<open>pick_waiter\<close>, loops included. The lemmas
  relate the loops on the C array and counter to the list of waiters: the shifting loop
  deletes one entry, the scan returns the first waiter of the highest priority.
\<close>

subsection \<open>Removal: the shifting loop\<close>

text \<open>\<^verbatim>\<open>for (j = i; j + 1 < n; j++) q[j] = q[j + 1];\<close>\<close>

function shift_down :: "nat \<Rightarrow> nat \<Rightarrow> tid option list \<Rightarrow> tid option list option" where
  "shift_down j n a =
     (if j + 1 < n then do {
        v \<leftarrow> rd a (j + 1);
        a' \<leftarrow> wr a j v;
        shift_down (j + 1) n a' }
      else Some a)"
  by pat_completeness auto
termination by (relation "measure (\<lambda>(j, n, a). n - j)") auto

declare shift_down.simps [simp del]

text \<open>The search for the task and the decrement of the counter.\<close>

function remove_scan ::
  "tid \<Rightarrow> nat \<Rightarrow> tid option list \<Rightarrow> u8 \<Rightarrow> (tid option list \<times> u8) option" where
  "remove_scan t i a c =
     (if i < unat c then do {
        x \<leftarrow> rd a i;
        if x = Some t then do {
          a' \<leftarrow> shift_down i (unat c) a;
          Some (a', c - 1) }
        else remove_scan t (i + 1) a c }
      else Some (a, c))"
  by pat_completeness auto
termination by (relation "measure (\<lambda>(t, i, a, c). unat c - i)") auto

declare remove_scan.simps [simp del]

definition wait_queue_remove :: "tid \<Rightarrow> kernel \<Rightarrow> kernel option" where
  "wait_queue_remove t s = do {
     x \<leftarrow> get_tcb s t;
     case (wait_queue x, wait_count x) of
       (Some q, Some k) \<Rightarrow> do {
         a \<leftarrow> get_wait_array s q;
         c \<leftarrow> get_wait_count s k;
         (a', c') \<leftarrow> remove_scan t 0 a c;
         upd_tcb t (\<lambda>x. x\<lparr>wait_queue := None, wait_count := None\<rparr>)
           (put_wait_count k c' (put_wait_array q a' s)) }
     | _ \<Rightarrow> Some s }"

subsection \<open>Blocking and waking\<close>

definition block_current ::
  "wref \<Rightarrow> wref \<Rightarrow> nat \<Rightarrow> u32 \<Rightarrow> kernel \<Rightarrow> (bool \<times> kernel) option" where
  "block_current q k limit timeout s = do {
     c \<leftarrow> get_wait_count s k;
     if limit \<le> unat c then Some (False, s)
     else do {
       a \<leftarrow> get_wait_array s q;
       a' \<leftarrow> wr a (unat c) (current_tcb s);
       t \<leftarrow> current_tcb s;
       s' \<leftarrow> upd_tcb t (\<lambda>x. x\<lparr>wait_queue := Some q, wait_count := Some k,
               wait_result := OS_SUCCESS,
               sleep_time := (if timeout = WAIT_FOREVER then 0 else timeout),
               state := BLOCKED\<rparr>)
             (put_wait_count k (c + 1) (put_wait_array q a' s));
       Some (True, s') } }"

definition wake_task :: "tid \<Rightarrow> kernel \<Rightarrow> kernel option" where
  "wake_task t s = do {
     s1 \<leftarrow> wait_queue_remove t s;
     upd_tcb t (\<lambda>x. x\<lparr>sleep_time := 0, wait_result := OS_SUCCESS, state := READY\<rparr>) s1 }"

subsection \<open>Choosing a waiter\<close>

text \<open>
  \<^verbatim>\<open>best == NULL || queue[i]->current_priority > best->current_priority\<close>: while there is
  no candidate the entry is taken without being dereferenced.
\<close>

fun pick_scan ::
  "kernel \<Rightarrow> tid option list \<Rightarrow> nat list \<Rightarrow> tid option \<Rightarrow> tid option option" where
  "pick_scan s a [] best = Some best"
| "pick_scan s a (i # is) best = do {
     p \<leftarrow> rd a i;
     (case best of
        None \<Rightarrow> pick_scan s a is p
      | Some b \<Rightarrow> do {
          t \<leftarrow> p;
          x \<leftarrow> get_tcb s t;
          y \<leftarrow> get_tcb s b;
          pick_scan s a is
            (if current_priority y < current_priority x then p else best) }) }"

definition pick_waiter :: "wref \<Rightarrow> kernel \<Rightarrow> tid option option" where
  "pick_waiter q s = do {
     a \<leftarrow> get_wait_array s q;
     c \<leftarrow> get_wait_count s q;
     pick_scan s a [0..<unat c] None }"

subsection \<open>The shifting loop deletes one entry\<close>

lemma shift_down_eq:
  "i < n \<Longrightarrow> n \<le> length a \<Longrightarrow>
   shift_down i n a = Some (take i a @ take (n - 1 - i) (drop (Suc i) a) @ drop (n - 1) a)"
proof (induction i n a rule: shift_down.induct)
  case (1 j n a)
  show ?case
  proof (cases "j + 1 < n")
    case True
    let ?a' = "a[j := a ! (j + 1)]"
    have "shift_down j n a = shift_down (j + 1) n ?a'"
      using True 1 by (subst shift_down.simps) simp
    also have "\<dots> = Some (take (Suc j) ?a' @ take (n - 2 - j) (drop (Suc (Suc j)) ?a')
                        @ drop (n - 1) ?a')"
      using 1 True by (simp add: Let_def)
    also have "take (Suc j) ?a' = take j a @ [a ! Suc j]"
      using True 1 by (simp add: take_Suc_update)
    also have "drop (Suc (Suc j)) ?a' = drop (Suc (Suc j)) a" by simp
    also have "drop (n - 1) ?a' = drop (n - 1) a" using True by simp
    finally have eq: "shift_down j n a =
      Some ((take j a @ [a ! Suc j]) @ take (n - 2 - j) (drop (Suc (Suc j)) a) @ drop (n - 1) a)" .
    have "take (n - 1 - j) (drop (Suc j) a) = a ! Suc j # take (n - 2 - j) (drop (Suc (Suc j)) a)"
    proof -
      have "n - 1 - j = Suc (n - 2 - j)" using True by simp
      moreover have "drop (Suc j) a = a ! Suc j # drop (Suc (Suc j)) a"
        using True 1 by (simp add: Cons_nth_drop_Suc)
      ultimately show ?thesis by simp
    qed
    with eq show ?thesis by simp
  next
    case False
    with 1 have "n = Suc j" by simp
    with 1 show ?thesis by (subst shift_down.simps) simp
  qed
qed

lemma remove_scan_eq:
  "unat c \<le> length a \<Longrightarrow> i \<le> unat c \<Longrightarrow> \<forall>j<i. a ! j \<noteq> Some t \<Longrightarrow>
   \<exists>a' c'. remove_scan t i a c = Some (a', c') \<and> length a' = length a \<and>
     unat c' \<le> unat c \<and> take (unat c') a' = remove1 (Some t) (take (unat c) a)"
proof (induction t i a c rule: remove_scan.induct)
  case (1 t i a c)
  let ?xs = "take (unat c) a"
  show ?case
  proof (cases "i < unat c")
    case in_range: True
    show ?thesis
    proof (cases "a ! i = Some t")
      case True
      let ?a' = "take i a @ take (unat c - 1 - i) (drop (Suc i) a) @ drop (unat c - 1) a"
      have scan: "remove_scan t i a c = Some (?a', c - 1)"
        using True in_range "1.prems" by (subst remove_scan.simps) (simp add: shift_down_eq)
      have c': "unat (c - 1) = unat c - 1" using in_range by (intro unat_dec) auto
      have "remove1 (Some t) ?xs = take i ?xs @ drop (Suc i) ?xs"
        using True in_range "1.prems" by (intro remove1_at) auto
      also have "\<dots> = take i a @ take (unat c - Suc i) (drop (Suc i) a)"
        using in_range by (simp add: drop_take)
      also have "\<dots> = take (unat c - 1) ?a'"
        using in_range "1.prems" by simp
      finally have rm: "take (unat c - 1) ?a' = remove1 (Some t) ?xs" by simp
      have "length ?a' = length a" using in_range "1.prems" by simp
      with scan c' rm show ?thesis
        by (intro exI [of _ ?a'] exI [of _ "c - 1"]) (simp only: c' rm, simp)
    next
      case False
      have "remove_scan t i a c = remove_scan t (i + 1) a c"
        using False in_range "1.prems" by (subst remove_scan.simps) simp
      moreover have "\<forall>j<i + 1. a ! j \<noteq> Some t"
        using False "1.prems"(3) less_Suc_eq by auto
      ultimately show ?thesis
        using "1.IH" [OF in_range _ False] False in_range "1.prems" by simp
    qed
  next
    case False
    with "1.prems" have i: "i = unat c" by simp
    then have "Some t \<notin> set ?xs" using "1.prems" by (auto simp: in_set_conv_nth)
    then have "remove1 (Some t) ?xs = ?xs" by (rule remove1_idem)
    moreover have "remove_scan t i a c = Some (a, c)" using False by (subst remove_scan.simps) simp
    ultimately show ?thesis by simp
  qed
qed

lemma remove_scan_Some:
  assumes "unat c \<le> length a"
  obtains a' c' where "remove_scan t 0 a c = Some (a', c')" "length a' = length a"
    "unat c' \<le> unat c" "take (unat c') a' = remove1 (Some t) (take (unat c) a)"
  using remove_scan_eq [of c a 0 t] assms by auto

subsection \<open>The scan picks the first waiter of the highest priority\<close>

definition prio :: "kernel \<Rightarrow> tid \<Rightarrow> u8" where
  "prio s t = current_priority (os_tasks s ! t)"

lemma pick_scan_eq:
  assumes "\<forall>i\<in>set is. i < length a \<and> (\<exists>t<length (os_tasks s). a ! i = Some t)"
    and "\<forall>b. best = Some b \<longrightarrow> b < length (os_tasks s)"
  shows "pick_scan s a is best = Some (first_max (prio s) best (map (\<lambda>i. the (a ! i)) is))"
  using assms
proof (induction "is" arbitrary: best)
  case (Cons i "is")
  then obtain t where t: "t < length (os_tasks s)" "a ! i = Some t" "i < length a" by auto
  with Cons show ?case
    by (cases best) (auto simp: get_tcb_def prio_def)
qed simp

lemma map_nth_take: "n \<le> length a \<Longrightarrow> map (\<lambda>i. f (a ! i)) [0..<n] = map f (take n a)"
  by (rule nth_equalityI) auto

lemma pick_waiter_eq:
  assumes "get_wait_array s q = Some a" "get_wait_count s q = Some c" "unat c \<le> length a"
    and "\<forall>p\<in>set (waiters s q). \<exists>t<length (os_tasks s). p = Some t"
  shows "pick_waiter q s = Some (first_max (prio s) None (map the (waiters s q)))"
proof -
  have w: "waiters s q = take (unat c) a" using assms(1,2) by (simp add: waiters_def)
  have "\<forall>i\<in>set [0..<unat c]. i < length a \<and> (\<exists>t<length (os_tasks s). a ! i = Some t)"
  proof
    fix i assume "i \<in> set [0..<unat c]"
    then have "i < unat c" by simp
    then have "a ! i \<in> set (waiters s q)" using w assms(3)
      by (metis in_set_conv_nth length_take min.absorb2 nth_take)
    with assms(3,4) \<open>i < unat c\<close> show "i < length a \<and> (\<exists>t<length (os_tasks s). a ! i = Some t)"
      by auto
  qed
  then show ?thesis
    using pick_scan_eq [of "[0..<unat c]" a s None] assms(1-3)
    by (simp add: pick_waiter_def w map_nth_take)
qed

end
