(* ===== verification/Kernel_Inv.thy ===== *)
theory Kernel_Inv
  imports Wait_Queue
begin

text \<open>
  The invariant of the kernel's data structures and what the wait-queue operations do to
  it. \<open>waits_ok\<close> ties the three representations of "task \<open>t\<close> waits for object \<open>r\<close>"
  together: the entry in the object's array, the task's \<^verbatim>\<open>wait_queue\<close> pointer and its
  BLOCKED state. \<open>objs_ok\<close> is the part about mutexes and semaphores.
\<close>

subsection \<open>The invariant\<close>

abbreviation tc :: "kernel \<Rightarrow> nat" where
  "tc s \<equiv> unat (task_count s)"

definition task_ok :: "tcb \<Rightarrow> bool" where
  "task_ok x \<longleftrightarrow> wait_count x = wait_queue x \<and>
     (wait_queue x \<noteq> None \<longrightarrow> state x = BLOCKED) \<and>
     (sleep_time x \<noteq> 0 \<longrightarrow> state x = BLOCKED)"

definition wait_shape :: "kernel \<Rightarrow> wref \<Rightarrow> bool" where
  "wait_shape s r \<longleftrightarrow> (\<forall>a c. get_wait_array s r = Some a \<longrightarrow> get_wait_count s r = Some c \<longrightarrow>
     length a = wait_capacity r \<and> unat c \<le> wait_capacity r)"

definition waits_ok :: "kernel \<Rightarrow> bool" where
  "waits_ok s \<longleftrightarrow>
     length (os_tasks s) = MAX_TASKS \<and> tc s \<le> MAX_TASKS \<and>
     (\<forall>t<tc s. task_ok (os_tasks s ! t)) \<and>
     (\<forall>r. wait_shape s r \<and> distinct (waiters s r) \<and>
        (\<forall>p\<in>set (waiters s r). \<exists>t<tc s. p = Some t)) \<and>
     (\<forall>t<tc s. \<forall>r. Some t \<in> set (waiters s r) \<longleftrightarrow> wait_queue (os_tasks s ! t) = Some r)"

definition mutex_ok :: "kernel \<Rightarrow> maddr \<Rightarrow> os_mutex \<Rightarrow> bool" where
  "mutex_ok s m x \<longleftrightarrow>
     lock x = 0 \<and> owner x = None \<and> waiters s (MutexQ m) = [] \<or>
     lock x = 1 \<and> (\<exists>o'<tc s. owner x = Some o' \<and> Some o' \<notin> set (waiters s (MutexQ m)))"

definition sem_ok :: "kernel \<Rightarrow> saddr \<Rightarrow> os_semaphore \<Rightarrow> bool" where
  "sem_ok s a x \<longleftrightarrow> sem_count x \<le> sem_max_count x \<and>
     (sem_count x \<noteq> 0 \<longrightarrow> waiters s (SemQ a) = [])"

definition objs_ok :: "kernel \<Rightarrow> bool" where
  "objs_ok s \<longleftrightarrow> (\<forall>m x. mutexes s m = Some x \<longrightarrow> mutex_ok s m x) \<and>
     (\<forall>a x. sems s a = Some x \<longrightarrow> sem_ok s a x)"

definition current_ok :: "kernel \<Rightarrow> bool" where
  "current_ok s \<longleftrightarrow> (\<forall>t. current_tcb s = Some t \<longrightarrow> t < tc s)"

definition kinv :: "kernel \<Rightarrow> bool" where
  "kinv s \<longleftrightarrow> waits_ok s \<and> objs_ok s \<and> current_ok s"

subsection \<open>Reading the invariant\<close>

lemma waits_okD:
  assumes "waits_ok s"
  shows "length (os_tasks s) = MAX_TASKS" "tc s \<le> MAX_TASKS"
    and "t < tc s \<Longrightarrow> t < length (os_tasks s)"
    and "t < tc s \<Longrightarrow> task_ok (os_tasks s ! t)"
    and "wait_shape s r" "distinct (waiters s r)"
    and "p \<in> set (waiters s r) \<Longrightarrow> \<exists>t<tc s. p = Some t"
    and "t < tc s \<Longrightarrow> Some t \<in> set (waiters s r) \<longleftrightarrow> wait_queue (os_tasks s ! t) = Some r"
  using assms by (auto simp: waits_ok_def)

lemma kinvD [dest]:
  assumes "kinv s"
  shows "waits_ok s" "objs_ok s" "current_ok s"
  using assms by (simp_all add: kinv_def)

lemma waiters_live:
  "p \<in> set (waiters s r) \<Longrightarrow> \<exists>a c. get_wait_array s r = Some a \<and> get_wait_count s r = Some c"
  by (cases "get_wait_array s r"; cases "get_wait_count s r") (auto simp: waiters_def)

lemma waiters_take:
  assumes "waits_ok s" "get_wait_array s r = Some a" "get_wait_count s r = Some c"
  shows "waiters s r = take (unat c) a" "length a = wait_capacity r"
    "unat c \<le> wait_capacity r" "length (waiters s r) = unat c"
  using waits_okD(5) [OF assms(1), of r] assms(2,3) by (auto simp: wait_shape_def waiters_def)

text \<open>A pigeonhole bound: tasks known not to wait for \<open>r\<close> leave room in its array.\<close>

lemma waiters_room:
  assumes ok: "waits_ok s" and "A \<subseteq> {..<tc s}" and "\<forall>t\<in>A. Some t \<notin> set (waiters s r)"
  shows "length (waiters s r) \<le> tc s - card A"
proof -
  have "set (waiters s r) \<subseteq> Some ` ({..<tc s} - A)"
    using waits_okD(7) [OF ok] assms(3) by fastforce
  then have "card (set (waiters s r)) \<le> card (Some ` ({..<tc s} - A))"
    by (intro card_mono) auto
  also have "\<dots> \<le> card ({..<tc s} - A)" by (rule card_image_le) simp
  also have "\<dots> = tc s - card A"
    using assms(2) by (subst card_Diff_subset) (auto intro: finite_subset)
  finally show ?thesis
    using waits_okD(6) [OF ok, of r] by (simp add: distinct_card)
qed

subsection \<open>What the wait-queue operations leave alone\<close>

definition obj_cores :: "kernel \<Rightarrow> (maddr \<Rightarrow> (u32 \<times> tid option) option) \<times>
    (saddr \<Rightarrow> (u32 \<times> u32) option)" where
  "obj_cores s = ((\<lambda>m. map_option (\<lambda>x. (lock x, owner x)) (mutexes s m)),
     (\<lambda>a. map_option (\<lambda>x. (sem_count x, sem_max_count x)) (sems s a)))"

definition wq_frame :: "kernel \<Rightarrow> kernel \<Rightarrow> bool" where
  "wq_frame s s' \<longleftrightarrow>
     s' = s\<lparr>os_tasks := os_tasks s', mutexes := mutexes s', sems := sems s'\<rparr> \<and>
     obj_cores s' = obj_cores s"

lemma wq_frame_refl [simp]: "wq_frame s s"
  by (simp add: wq_frame_def)

lemma wq_frame_fields:
  assumes "wq_frame s s'"
  shows "task_count s' = task_count s" "current_tcb s' = current_tcb s"
    "kernel_running s' = kernel_running s" "primask s' = primask s" "pendsv s' = pendsv s"
    "mem s' = mem s" "os_ticks s' = os_ticks s" "halted_in s' = halted_in s"
    "queues s' = queues s" "obj_cores s' = obj_cores s"
proof -
  from assms have eq: "s' = s\<lparr>os_tasks := os_tasks s', mutexes := mutexes s', sems := sems s'\<rparr>"
    and "obj_cores s' = obj_cores s" by (simp_all add: wq_frame_def)
  then show "obj_cores s' = obj_cores s" by simp
  show "task_count s' = task_count s" by (subst eq) simp
  show "current_tcb s' = current_tcb s" by (subst eq) simp
  show "kernel_running s' = kernel_running s" by (subst eq) simp
  show "primask s' = primask s" by (subst eq) simp
  show "pendsv s' = pendsv s" by (subst eq) simp
  show "mem s' = mem s" by (subst eq) simp
  show "os_ticks s' = os_ticks s" by (subst eq) simp
  show "queues s' = queues s" by (subst eq) simp
  show "halted_in s' = halted_in s" by (subst eq) simp
qed

lemma wq_frame_trans: "wq_frame s s' \<Longrightarrow> wq_frame s' s'' \<Longrightarrow> wq_frame s s''"
  by (cases s; cases s'; cases s'') (auto simp: wq_frame_def)

lemma wq_frame_tasks: "wq_frame s (s\<lparr>os_tasks := ts\<rparr>)"
  by (simp add: wq_frame_def obj_cores_def)

lemma wq_frame_put [simp]:
  "wq_frame s (put_wait_array r a s)" "wq_frame s (put_wait_count r c s)"
  by (cases r; auto simp: wq_frame_def obj_cores_def fun_eq_iff option.map_comp o_def)+

lemma mutex_core:
  "obj_cores s' = obj_cores s \<Longrightarrow> mutexes s' m = Some x' \<Longrightarrow>
   \<exists>x. mutexes s m = Some x \<and> lock x = lock x' \<and> owner x = owner x'"
  by (auto simp: obj_cores_def fun_eq_iff dest!: spec [of _ m]) (cases "mutexes s m"; auto)

lemma sem_core:
  "obj_cores s' = obj_cores s \<Longrightarrow> sems s' a = Some x' \<Longrightarrow>
   \<exists>x. sems s a = Some x \<and> sem_count x = sem_count x' \<and> sem_max_count x = sem_max_count x'"
  by (auto simp: obj_cores_def fun_eq_iff dest!: spec [of _ a]) (cases "sems s a"; auto)

end
