(* ===== verification/Task_Create.thy ===== *)
theory Task_Create
  imports Kernel_Inv
begin

text \<open>
  \<^verbatim>\<open>os_kernel_init\<close>, \<^verbatim>\<open>os_task_init_stack\<close> and \<^verbatim>\<open>os_task_create\<close>: building the
  first exception frame of a task in memory and registering its TCB. The lemmas give the
  layout of the frame word by word, show that it stays above the canary, and that creation
  keeps the invariant.
\<close>

subsection \<open>The model\<close>

text \<open>\<^verbatim>\<open>*(--stk) = v\<close> on a \<^verbatim>\<open>uint32_t*\<close>.\<close>

definition push :: "u32 \<Rightarrow> u32 \<times> (u32 \<Rightarrow> u32) \<Rightarrow> u32 \<times> (u32 \<Rightarrow> u32)" where
  "push v = (\<lambda>(stk, h). (stk - 4, h(stk - 4 := v)))"

text \<open>xPSR, PC, LR, R12, R3, R2, R1, R0 in the order they are pushed, then R4 - R11.\<close>

definition hw_frame :: "u32 \<Rightarrow> u32 list" where
  "hw_frame taskptr = [0x01000000, taskptr, 0xFFFFFFFF, 0x12121212, 0x03030303, 0x02020202,
     0x01010101, 0x00000000]"

definition os_task_init_stack ::
  "u32 \<Rightarrow> u32 \<Rightarrow> (u32 \<Rightarrow> u32) \<Rightarrow> u32 \<times> (u32 \<Rightarrow> u32)" where
  "os_task_init_stack taskptr stackTop h =
     fold push (hw_frame taskptr @ replicate 8 0) (stackTop, h)"

definition stack_top :: "u32 \<Rightarrow> u32 \<Rightarrow> u32" where
  "stack_top base stk_words = (base + 4 * stk_words) AND NOT 7"

definition os_task_create ::
  "u32 \<Rightarrow> u32 \<Rightarrow> u32 \<Rightarrow> u8 \<Rightarrow> kernel \<Rightarrow> (bool \<times> kernel) option" where
  "os_task_create taskptr base stk_words priority s =
     (if MAX_TASKS \<le> tc s \<or> taskptr = 0 \<or> stk_words < 64 then Some (False, s)
      else do {
        let new = tc s;
        s1 \<leftarrow> upd_tcb new (\<lambda>x. x\<lparr>base_priority := priority, current_priority := priority,
                state := READY, stackBase := base, stackSize := stk_words, sleep_time := 0,
                wait_queue := None, wait_count := None, wait_result := OS_SUCCESS\<rparr>) s;
        let s2 = s1\<lparr>mem := (mem s1)(base := STACK_CANARY)\<rparr>;
        let (sp, h) = os_task_init_stack taskptr (stack_top base stk_words) (mem s2);
        s3 \<leftarrow> upd_tcb new (\<lambda>x. x\<lparr>stackPtr := sp\<rparr>) (s2\<lparr>mem := h\<rparr>);
        let s4 = (if current_tcb s3 = None then s3\<lparr>current_tcb := Some new\<rparr> else s3);
        Some (True, s4\<lparr>task_count := task_count s4 + 1\<rparr>) })"

text \<open>\<^verbatim>\<open>DBGMCU->CR |= SLEEP | STOP | STANDBY\<close>: bits 0, 1 and 2.\<close>

definition os_kernel_init :: "kernel \<Rightarrow> kernel" where
  "os_kernel_init s = s\<lparr>primask := 1, dbgmcu_cr := dbgmcu_cr s OR 7, task_count := 0,
     current_tcb := None, os_ticks := 0, kernel_running := False\<rparr>"

text \<open>
  The machine as \<^verbatim>\<open>Reset_Handler\<close> leaves it for the kernel: zeroed globals, no
  synchronisation object initialised. The rest of memory and the device registers are
  arbitrary.
\<close>

definition reset_state :: "(u32 \<Rightarrow> u32) \<Rightarrow> u32 \<Rightarrow> kernel" where
  "reset_state h cr = \<lparr>os_tasks = replicate MAX_TASKS tcb_zero, task_count = 0, current_tcb = None,
     os_ticks = 0, kernel_running = False, mutexes = (\<lambda>_. None), sems = (\<lambda>_. None), queues = (\<lambda>_. None), mem = h,
     primask = 0, pendsv = False, systick_load = 0, systick_val = 0, systick_ctrl = 0,
     dbgmcu_cr = cr, pendsv_prio = 0, systick_prio = 0, halted_in = None\<rparr>"

subsection \<open>The frame\<close>

lemma push_simp: "push v (stk, h) = (stk - 4, h(stk - 4 := v))"
  by (simp add: push_def)

lemma fold_push_sp: "fst (fold push vs (stk, h)) = stk - 4 * of_nat (length vs)"
proof (induction vs arbitrary: stk h)
  case (Cons v vs)
  have "fst (fold push (v # vs) (stk, h)) = (stk - 4) - 4 * of_nat (length vs)"
    using Cons.IH by (simp add: push_simp)
  then show ?case by (simp add: algebra_simps)
qed simp

lemma init_stack_sp: "fst (os_task_init_stack taskptr stk0 h) = stk0 - 64"
  unfolding os_task_init_stack_def fold_push_sp by (simp add: hw_frame_def)

lemma init_stack_mem:
  "snd (os_task_init_stack taskptr stk0 h) =
     h(stk0 - 4 := 0x01000000, stk0 - 8 := taskptr, stk0 - 12 := 0xFFFFFFFF, stk0 - 16 := 0x12121212,
       stk0 - 20 := 0x03030303, stk0 - 24 := 0x02020202, stk0 - 28 := 0x01010101, stk0 - 32 := 0,
       stk0 - 36 := 0, stk0 - 40 := 0, stk0 - 44 := 0, stk0 - 48 := 0, stk0 - 52 := 0, stk0 - 56 := 0,
       stk0 - 60 := 0, stk0 - 64 := 0)"
  by (simp add: os_task_init_stack_def hw_frame_def push_simp numeral_eq_Suc diff_diff_eq)

subsection \<open>The invariant\<close>

lemma kinv_reset: "kinv (reset_state h cr)"
proof -
  have "waiters (reset_state h cr) r = []" "get_wait_array (reset_state h cr) r = None" for r
    by (cases r; simp add: waiters_def reset_state_def)+
  then show ?thesis
    by (simp add: kinv_def waits_ok_def objs_ok_def current_ok_def wait_shape_def)
       (simp add: reset_state_def model_defs)
qed

lemma kernel_init_frame [simp]:
  "os_tasks (os_kernel_init s) = os_tasks s" "mutexes (os_kernel_init s) = mutexes s"
  "sems (os_kernel_init s) = sems s" "task_count (os_kernel_init s) = 0"
  "current_tcb (os_kernel_init s) = None" "kernel_running (os_kernel_init s) = False"
  by (simp_all add: os_kernel_init_def)

text \<open>The TCB that \<^verbatim>\<open>os_task_create\<close> fills in, and its result in one update.\<close>

definition created :: "u32 \<Rightarrow> u32 \<Rightarrow> u8 \<Rightarrow> tcb \<Rightarrow> tcb" where
  "created base stk_words priority x = x\<lparr>base_priority := priority, current_priority := priority,
     state := READY, stackBase := base, stackSize := stk_words, sleep_time := 0,
     wait_queue := None, wait_count := None, wait_result := OS_SUCCESS,
     stackPtr := stack_top base stk_words - 64\<rparr>"

lemma os_task_create_eq:
  assumes "length (os_tasks s) = MAX_TASKS" "tc s < MAX_TASKS" "taskptr \<noteq> 0" "64 \<le> stk_words"
  shows "os_task_create taskptr base stk_words priority s = Some (True,
    s\<lparr>os_tasks := (os_tasks s)[tc s := created base stk_words priority (os_tasks s ! tc s)],
      mem := snd (os_task_init_stack taskptr (stack_top base stk_words)
                    ((mem s)(base := STACK_CANARY))),
      current_tcb := (case current_tcb s of None \<Rightarrow> Some (tc s) | Some c \<Rightarrow> Some c),
      task_count := task_count s + 1\<rparr>)"
proof -
  obtain sp h where st: "os_task_init_stack taskptr (stack_top base stk_words)
      ((mem s)(base := STACK_CANARY)) = (sp, h)" by (metis surj_pair)
  have "sp = stack_top base stk_words - 64"
    using init_stack_sp [of taskptr "stack_top base stk_words" "(mem s)(base := STACK_CANARY)"] st
    by simp
  with st assms show ?thesis
    by (auto simp: os_task_create_def upd_tcb_def created_def Let_def not_le not_less
        split: option.splits)
qed

lemma os_task_create_rejected:
  assumes "MAX_TASKS \<le> tc s \<or> taskptr = 0 \<or> stk_words < 64"
  shows "os_task_create taskptr base stk_words priority s = Some (False, s)"
  using assms by (simp add: os_task_create_def)

lemma created_simps [simp]:
  "wait_queue (created b w p x) = None" "task_ok (created b w p x)"
  "state (created b w p x) = READY" "current_priority (created b w p x) = p"
  "base_priority (created b w p x) = p" "stackBase (created b w p x) = b"
  "stackPtr (created b w p x) = stack_top b w - 64"
  by (simp_all add: created_def task_ok_def)

lemma kinv_task_create:
  assumes inv: "kinv s" and create: "os_task_create taskptr base stk_words priority s = Some (ok, s')"
  shows "kinv s'"
proof (cases "MAX_TASKS \<le> tc s \<or> taskptr = 0 \<or> stk_words < 64")
  case True
  with create inv show ?thesis by (simp add: os_task_create_rejected)
next
  case False
  note ok = kinvD(1) [OF inv] and D = waits_okD [OF kinvD(1) [OF inv]]
  let ?ts = "(os_tasks s)[tc s := created base stk_words priority (os_tasks s ! tc s)]"
  have s': "s' = s\<lparr>os_tasks := ?ts,
      mem := snd (os_task_init_stack taskptr (stack_top base stk_words)
                    ((mem s)(base := STACK_CANARY))),
      current_tcb := (case current_tcb s of None \<Rightarrow> Some (tc s) | Some c \<Rightarrow> Some c),
      task_count := task_count s + 1\<rparr>" (is "_ = ?s'")
    using os_task_create_eq [OF D(1), of taskptr stk_words base priority] create False
    by (simp add: not_le not_less)
  have inc: "unat (task_count s + 1) = Suc (tc s)"
    using False by (intro unat_u8_inc) (simp add: model_defs)
  have n: "tc s' = Suc (tc s)" using inc by (simp add: s')
  have objs: "get_wait_array s' r = get_wait_array s r" "get_wait_count s' r = get_wait_count s r" for r
    by (cases r; simp add: s')+
  have w: "waiters s' r = waiters s r" for r using objs by (simp add: waiters_def)
  have tasks: "os_tasks s' = ?ts" by (simp add: s')
  have fresh: "Some (tc s) \<notin> set (waiters s r)" for r using D(7) [of "Some (tc s)" r] by auto
  have "waits_ok s'"
  proof -
    have "task_ok (?ts ! t)" if "t < Suc (tc s)" for t
      using D(1,4) that False by (cases "t = tc s") auto
    moreover have "\<exists>t<Suc (tc s). p = Some t" if "p \<in> set (waiters s r)" for p r
      using D(7) [OF that] less_Suc_eq by auto
    moreover have "Some t \<in> set (waiters s r) \<longleftrightarrow> wait_queue (?ts ! t) = Some r"
      if "t < Suc (tc s)" for t r
      using D(1,8) that False fresh by (cases "t = tc s") auto
    ultimately show ?thesis
      using D(1,5,6) False by (simp add: waits_ok_def n w tasks wait_shape_def objs)
  qed
  moreover have "objs_ok s'"
    using kinvD(2) [OF inv] less_SucI unfolding objs_ok_def mutex_ok_def sem_ok_def n w
    by (simp add: s') (meson less_SucI)
  moreover have "current_ok s'"
    using kinvD(3) [OF inv] n by (auto simp: current_ok_def s' less_SucI split: option.splits)
  ultimately show ?thesis by (simp add: kinv_def)
qed

subsection \<open>The frame stays above the canary\<close>

lemma unat_align8: "unat (x AND NOT 7) = unat x - unat x mod 8" for x :: u32
proof -
  have "x AND 7 = take_bit 3 x" using take_bit_eq_mask [of 3 x] by (simp add: mask_eq_exp_minus_1)
  moreover have "unat (take_bit 3 x) = unat x mod 8"
    by (subst unsigned_take_bit_eq) (simp add: take_bit_eq_mod)
  ultimately have low: "unat (x AND 7) = unat x mod 8" by (simp only:)
  have "x - (x AND 7) = x AND NOT (x AND 7)"
    by (rule disjunctive_diff) (simp add: bit_and_iff)
  also have "\<dots> = x AND NOT 7"
    by (rule and_not_and)
  finally have "x AND NOT 7 = x - (x AND 7)" by (rule sym)
  moreover have "x AND 7 \<le> x" by (rule word_and_le2)
  ultimately show ?thesis using low by (simp add: unat_sub)
qed

lemma stack_top_unat:
  assumes "unat base + 4 * unat stk_words < 2 ^ 32"
  shows "unat (stack_top base stk_words) + 7 \<ge> unat base + 4 * unat stk_words"
    and "unat (stack_top base stk_words) \<le> unat base + 4 * unat stk_words"
    and "8 dvd unat (stack_top base stk_words)"
proof -
  have "unat (4 * stk_words) = 4 * unat stk_words"
    using assms by (subst unat_mult_lem [THEN iffD1]) auto
  moreover have "unat (base + 4 * stk_words) = unat base + unat (4 * stk_words)"
    using assms calculation by (subst unat_add_lem [THEN iffD1]) auto
  ultimately have x: "unat (base + 4 * stk_words) = unat base + 4 * unat stk_words" by simp
  let ?x = "unat base + 4 * unat stk_words"
  have stk0: "unat (stack_top base stk_words) = ?x - ?x mod 8"
    unfolding stack_top_def unat_align8 x by (rule refl)
  have "?x mod 8 \<le> 7" by (simp add: less_Suc_eq_le [symmetric])
  with stk0 show "unat (stack_top base stk_words) + 7 \<ge> ?x" by linarith
  show "unat (stack_top base stk_words) \<le> ?x" using stk0 by simp
  show "8 dvd unat (stack_top base stk_words)" using stk0 by (simp add: dvd_minus_mod)
qed

lemma frame_addr_above:
  assumes "unat base + 4 * unat stk_words < 2 ^ 32" "64 \<le> stk_words"
    and "0 < unat k" "unat k \<le> 64"
  shows "unat base < unat (stack_top base stk_words - k)"
    and "unat (stack_top base stk_words - k) < unat base + 4 * unat stk_words"
proof -
  have "64 \<le> unat stk_words" using assms(2) by (simp add: word_le_nat_alt)
  moreover have "k \<le> stack_top base stk_words"
    using stack_top_unat(1) [OF assms(1)] assms(4) calculation by (simp add: word_le_nat_alt)
  then have "unat (stack_top base stk_words - k) = unat (stack_top base stk_words) - unat k"
    by (rule unat_sub)
  ultimately show "unat base < unat (stack_top base stk_words - k)"
    and "unat (stack_top base stk_words - k) < unat base + 4 * unat stk_words"
    using stack_top_unat [OF assms(1)] assms(3,4) by linarith+
qed

end
