(* ===== verification/Context_Switch.thy ===== *)
theory Context_Switch
  imports Scheduler Task_Create
begin

text \<open>
  \<^verbatim>\<open>Kernel/os_kernel_asm.s\<close> and \<^verbatim>\<open>os_kernel_launch\<close>: the context switch in
  \<^verbatim>\<open>PendSV_Handler\<close>, the jump into the first task, and the exception entry and return of
  the core around them. The lemmas show that a task gets its registers back exactly as it
  left them, and where a new task starts.
\<close>

subsection \<open>The core\<close>

text \<open>The registers of a thread; \<open>hi\<close> is R4 - R11.\<close>

record cpu =
  r0 :: u32
  r1 :: u32
  r2 :: u32
  r3 :: u32
  r12 :: u32
  lr :: u32
  pc :: u32
  xpsr :: u32
  hi :: "u32 list"
  psp :: u32
  control :: u32

text \<open>\<^verbatim>\<open>STMDB\<close> stores a register list upwards from the lowered address, \<^verbatim>\<open>LDMIA\<close> loads it.\<close>

fun store_words :: "u32 \<Rightarrow> u32 list \<Rightarrow> (u32 \<Rightarrow> u32) \<Rightarrow> u32 \<Rightarrow> u32" where
  "store_words a [] h = h"
| "store_words a (w # ws) h = store_words (a + 4) ws (h(a := w))"

definition load_words :: "(u32 \<Rightarrow> u32) \<Rightarrow> u32 \<Rightarrow> nat \<Rightarrow> u32 list" where
  "load_words h a n = map (\<lambda>i. h (a + 4 * of_nat i)) [0..<n]"

text \<open>
  Exception entry from a thread on PSP: eight words are stacked on a boundary of eight, and
  bit 9 of the stacked xPSR says whether the pointer was moved for that. Exception return
  undoes it.
\<close>

definition exception_entry :: "cpu \<Rightarrow> (u32 \<Rightarrow> u32) \<Rightarrow> cpu \<times> (u32 \<Rightarrow> u32)" where
  "exception_entry c h =
     (let moved = bit (psp c) 2;
          frame = (psp c - 32) AND NOT 4;
          x = (if moved then set_bit 9 (xpsr c) else unset_bit 9 (xpsr c))
      in (c\<lparr>psp := frame\<rparr>,
          store_words frame [r0 c, r1 c, r2 c, r3 c, r12 c, lr c, pc c, x] h))"

definition exception_return :: "cpu \<Rightarrow> (u32 \<Rightarrow> u32) \<Rightarrow> cpu" where
  "exception_return c h =
     (let f = psp c; x = h (f + 28)
      in c\<lparr>r0 := h f, r1 := h (f + 4), r2 := h (f + 8), r3 := h (f + 12), r12 := h (f + 16),
           lr := h (f + 20), pc := h (f + 24), xpsr := unset_bit 9 x,
           psp := f + 32 + (if bit x 9 then 4 else 0)\<rparr>)"

subsection \<open>The handler\<close>

text \<open>
  \<^verbatim>\<open>PendSV_Handler\<close> from its first instruction to \<^verbatim>\<open>BX LR\<close>. Entering it clears the
  pending bit. R0 - R3, R12 and the flags hold nothing across it: the exception return
  reloads them. If the overflow hook was entered, the handler does not get past
  \<^verbatim>\<open>BL os_scheduler\<close>.
\<close>

definition save_context :: "cpu \<Rightarrow> kernel \<Rightarrow> kernel option" where
  "save_context c s = do {
     cur \<leftarrow> current_tcb s;
     upd_tcb cur (\<lambda>x. x\<lparr>stackPtr := psp c - 32\<rparr>)
       (s\<lparr>pendsv := False, mem := store_words (psp c - 32) (hi c) (mem s)\<rparr>) }"

definition load_context :: "cpu \<Rightarrow> kernel \<Rightarrow> cpu option" where
  "load_context c s = do {
     cur \<leftarrow> current_tcb s;
     x \<leftarrow> get_tcb s cur;
     Some (c\<lparr>hi := load_words (mem s) (stackPtr x) 8, psp := stackPtr x + 32\<rparr>) }"

definition PendSV_Handler :: "cpu \<Rightarrow> kernel \<Rightarrow> (cpu \<times> kernel) option" where
  "PendSV_Handler c s = do {
     s1 \<leftarrow> save_context c s;
     s2 \<leftarrow> os_scheduler s1;
     if halted_in s2 \<noteq> None then Some (c, s2)
     else do { c' \<leftarrow> load_context c s2; Some (c', s2) } }"

text \<open>The whole switch, from the interrupted thread to the thread it returns to.\<close>

definition context_switch :: "cpu \<Rightarrow> kernel \<Rightarrow> (cpu \<times> kernel) option" where
  "context_switch c s = (let (c1, h) = exception_entry c (mem s) in do {
     (c2, s2) \<leftarrow> PendSV_Handler c1 (s\<lparr>mem := h\<rparr>);
     Some (if halted_in s2 \<noteq> None then (c2, s2) else (exception_return c2 (mem s2), s2)) })"

text \<open>
  \<^verbatim>\<open>os_start_first_task\<close>: PSP past the initial frame, threads on PSP, interrupts on,
  branch to the PC slot. \<^verbatim>\<open>os_kernel_launch\<close> programs SysTick and the two exception
  priorities (the arguments of \<^verbatim>\<open>NVIC_SetPriority\<close> are recorded), schedules and starts.
\<close>

definition os_start_first_task :: "cpu \<Rightarrow> kernel \<Rightarrow> (cpu \<times> kernel) option" where
  "os_start_first_task c s = do {
     cur \<leftarrow> current_tcb s;
     x \<leftarrow> get_tcb s cur;
     Some (c\<lparr>r0 := stackPtr x + 64, r1 := mem s (stackPtr x + 56), r2 := 2,
             psp := stackPtr x + 64, control := 2, pc := mem s (stackPtr x + 56)\<rparr>,
           s\<lparr>primask := 0\<rparr>) }"

definition os_kernel_launch :: "cpu \<Rightarrow> kernel \<Rightarrow> (cpu \<times> kernel) option" where
  "os_kernel_launch c s = do {
     s1 \<leftarrow> os_scheduler (s\<lparr>systick_load := SYS_CLK_HZ div SYSTICK_FREQ - 1, systick_val := 0,
            systick_ctrl := 4 OR 2 OR 1, pendsv_prio := 0xFF, systick_prio := 0xFE\<rparr>);
     if halted_in s1 \<noteq> None then Some (c, s1)
     else os_start_first_task c (s1\<lparr>kernel_running := True\<rparr>) }"

subsection \<open>Blocks of words\<close>

lemma length_load_words [simp]: "length (load_words h a n) = n"
  by (simp add: load_words_def)

lemma store_words_outside:
  "(\<And>i. i < length ws \<Longrightarrow> b \<noteq> a + 4 * of_nat i) \<Longrightarrow> store_words a ws h b = h b"
proof (induction ws arbitrary: a h)
  case (Cons w ws)
  have "b \<noteq> a + 4 + 4 * of_nat i" if "i < length ws" for i
    using Cons.prems [of "Suc i"] that by (simp add: algebra_simps)
  moreover have "b \<noteq> a" using Cons.prems [of 0] by simp
  ultimately show ?case by (simp add: Cons.IH)
qed simp

lemma word_offset_inj:
  assumes "i < 1073741824" "j < 1073741824" "(a :: u32) + 4 * of_nat i = a + 4 * of_nat j"
  shows "i = j"
proof -
  have u: "unat (4 * of_nat k :: u32) = 4 * k" if "k < 1073741824" for k
    using that by (simp add: unat_word_ariths(2) unsigned_of_nat take_bit_nat_eq_self)
  from assms(3) have "4 * of_nat i = (4 * of_nat j :: u32)" by simp
  then have "4 * i = 4 * j" using u [OF assms(1)] u [OF assms(2)] by (simp only:)
  then show ?thesis by simp
qed

lemma store_words_at:
  "i < length ws \<Longrightarrow> length ws \<le> 1073741824 \<Longrightarrow> store_words a ws h (a + 4 * of_nat i) = ws ! i"
proof (induction ws arbitrary: a h i)
  case (Cons w ws)
  show ?case
  proof (cases i)
    case 0
    have "store_words (a + 4) ws (h(a := w)) a = (h(a := w)) a"
    proof (rule store_words_outside)
      fix j assume "j < length ws"
      then show "a \<noteq> a + 4 + 4 * of_nat j"
        using word_offset_inj [of 0 "Suc j" a] Cons.prems(2) by (auto simp: algebra_simps)
    qed
    with 0 show ?thesis by simp
  next
    case (Suc j)
    have "store_words (a + 4) ws (h(a := w)) (a + 4 + 4 * of_nat j) = ws ! j"
      using Suc Cons.prems by (intro Cons.IH) simp_all
    with Suc show ?thesis by (simp add: algebra_simps)
  qed
qed simp

lemma load_store_words:
  "length ws \<le> 1073741824 \<Longrightarrow> load_words (store_words a ws h) a (length ws) = ws"
  by (intro nth_equalityI) (simp_all add: load_words_def store_words_at)

subsection \<open>The saved context\<close>

definition hw_words :: "cpu \<Rightarrow> u32 list" where
  "hw_words c = [r0 c, r1 c, r2 c, r3 c, r12 c, lr c, pc c,
     if bit (psp c) 2 then set_bit 9 (xpsr c) else unset_bit 9 (xpsr c)]"

definition saved_sp :: "cpu \<Rightarrow> u32" where
  "saved_sp c = ((psp c - 32) AND NOT 4) - 32"

lemma exception_entry_eq:
  "exception_entry c h = (c\<lparr>psp := saved_sp c + 32\<rparr>, store_words (saved_sp c + 32) (hw_words c) h)"
  by (simp add: exception_entry_def Let_def hw_words_def saved_sp_def)

definition context_mem :: "cpu \<Rightarrow> (u32 \<Rightarrow> u32) \<Rightarrow> u32 \<Rightarrow> u32" where
  "context_mem c h = store_words (saved_sp c) (hi c) (store_words (saved_sp c + 32) (hw_words c) h)"

lemma load_words_nth: "i < n \<Longrightarrow> load_words h a n ! i = h (a + 4 * of_nat i)"
  by (simp add: load_words_def)

lemma context_mem_frame:
  assumes "length (hi c) = 8"
  shows "load_words (context_mem c h) (saved_sp c) 16 = hi c @ hw_words c"
proof (rule nth_equalityI)
  show "length (load_words (context_mem c h) (saved_sp c) 16) = length (hi c @ hw_words c)"
    using assms by (simp add: hw_words_def)
  fix i assume "i < length (load_words (context_mem c h) (saved_sp c) 16)"
  then have i: "i < 16" by simp
  let ?a = "saved_sp c" and ?h' = "store_words (saved_sp c + 32) (hw_words c) h"
  show "load_words (context_mem c h) ?a 16 ! i = (hi c @ hw_words c) ! i"
  proof (cases "i < 8")
    case True
    then show ?thesis
      using i assms by (simp add: load_words_nth context_mem_def store_words_at nth_append)
  next
    case False
    define j where "j = i - 8"
    have ij: "i = 8 + j" and j: "j < 8" using False i by (simp_all add: j_def)
    have at: "?a + 4 * of_nat i = ?a + 32 + 4 * of_nat j" by (simp add: ij algebra_simps)
    have "store_words ?a (hi c) ?h' (?a + 4 * of_nat i) = ?h' (?a + 4 * of_nat i)"
    proof (rule store_words_outside)
      fix k assume "k < length (hi c)"
      with word_offset_inj [of i k ?a] i assms False
      show "?a + 4 * of_nat i \<noteq> ?a + 4 * of_nat k" by auto
    qed
    also have "\<dots> = hw_words c ! j"
      unfolding at using j by (intro store_words_at) (simp_all add: hw_words_def)
    finally show ?thesis
      using i assms False by (simp add: load_words_nth context_mem_def nth_append ij)
  qed
qed

text \<open>The scheduler writes neither memory nor a stack pointer.\<close>

definition same_stacks :: "kernel \<Rightarrow> kernel \<Rightarrow> bool" where
  "same_stacks s s' \<longleftrightarrow> mem s' = mem s \<and> map stackPtr (os_tasks s') = map stackPtr (os_tasks s)"

lemma same_stacks_upd:
  assumes "upd_tcb t f s = Some s'" "\<And>x. stackPtr (f x) = stackPtr x"
  shows "same_stacks s s'"
proof -
  from assms(1) have t: "t < length (os_tasks s)"
    and s': "s' = s\<lparr>os_tasks := (os_tasks s)[t := f (os_tasks s ! t)]\<rparr>"
    by (auto simp: upd_tcb_def rd_Some_iff Option.bind_eq_Some_conv)
  have "(map stackPtr (os_tasks s))[t := stackPtr (os_tasks s ! t)] = map stackPtr (os_tasks s)"
    using t by (metis length_map list_update_id nth_map)
  with s' assms(2) show ?thesis by (simp add: same_stacks_def map_update)
qed

lemma same_stacks_demote:
  assumes d: "demote_current b s = Some s'"
  shows "same_stacks s s'"
proof (cases "s' = s")
  case False
  then obtain c where c: "current_tcb s = Some c" "c \<noteq> b"
    using d by (cases "current_tcb s") (auto simp: demote_current_def split: if_splits)
  then obtain x where "get_tcb s c = Some x" using d by (cases "get_tcb s c") (simp_all add: demote_current_def)
  with c d False have "upd_tcb c (\<lambda>x. x\<lparr>state := READY\<rparr>) s = Some s'"
    by (cases "state x = RUNNING") (simp_all add: demote_current_def)
  then show ?thesis by (rule same_stacks_upd) simp
qed (simp add: same_stacks_def)

lemma os_scheduler_frame:
  assumes run: "os_scheduler s = Some s'"
  shows "same_stacks s s'"
proof -
  consider "s' = s" | t where "s' = os_stack_overflow_hook t s"
    | b s1 s2 where "demote_current b s = Some s1"
        "upd_tcb b (\<lambda>x. x\<lparr>state := RUNNING\<rparr>) s1 = Some s2" "s' = s2\<lparr>current_tcb := Some b\<rparr>"
    using run
    by (auto simp: os_scheduler_def Option.bind_eq_Some_conv split: if_splits option.splits)
  then show ?thesis
  proof cases
    case (3 b s1 s2)
    then show ?thesis
      using same_stacks_demote [OF 3(1)] same_stacks_upd [OF 3(2)] by (simp add: same_stacks_def)
  qed (simp_all add: same_stacks_def os_stack_overflow_hook_def)
qed

subsection \<open>Getting the registers back\<close>

lemma context_switch_saves:
  assumes sw: "context_switch c s = Some (c', s')" and cur: "current_tcb s = Some a"
  shows "mem s' = context_mem c (mem s)" "a < length (os_tasks s')"
    "stackPtr (os_tasks s' ! a) = saved_sp c"
proof -
  from sw obtain c2 where pend: "PendSV_Handler (c\<lparr>psp := saved_sp c + 32\<rparr>)
      (s\<lparr>mem := store_words (saved_sp c + 32) (hw_words c) (mem s)\<rparr>) = Some (c2, s')"
    by (auto simp: context_switch_def exception_entry_eq Option.bind_eq_Some_conv split: if_splits)
  then obtain s1 where s1: "save_context (c\<lparr>psp := saved_sp c + 32\<rparr>)
      (s\<lparr>mem := store_words (saved_sp c + 32) (hw_words c) (mem s)\<rparr>) = Some s1"
    and sched: "os_scheduler s1 = Some s'"
    by (auto simp: PendSV_Handler_def Option.bind_eq_Some_conv split: if_splits)
  from s1 cur have a: "a < length (os_tasks s)"
    and s1': "mem s1 = context_mem c (mem s)"
      "os_tasks s1 = (os_tasks s)[a := (os_tasks s ! a)\<lparr>stackPtr := saved_sp c\<rparr>]"
    by (auto simp: save_context_def upd_tcb_def rd_Some_iff context_mem_def Option.bind_eq_Some_conv)
  from os_scheduler_frame [OF sched] have same: "mem s' = mem s1"
    "map stackPtr (os_tasks s') = map stackPtr (os_tasks s1)" by (simp_all add: same_stacks_def)
  have len: "length (os_tasks s') = length (os_tasks s)"
    using map_eq_imp_length_eq [OF same(2)] s1'(2) by simp
  show "mem s' = context_mem c (mem s)" using same(1) s1'(1) by simp
  show "a < length (os_tasks s')" using a len by simp
  have "stackPtr (os_tasks s' ! a) = map stackPtr (os_tasks s') ! a" using a len by simp
  also have "\<dots> = saved_sp c" using same(2) s1'(2) a by simp
  finally show "stackPtr (os_tasks s' ! a) = saved_sp c" .
qed

lemma context_switch_loads:
  assumes sw: "context_switch d s = Some (d', s')" and live: "halted_in s' = None"
    and cur: "current_tcb s' = Some a" and sp: "stackPtr (os_tasks s' ! a) = b"
  shows "hi d' = load_words (mem s') b 8"
    "[r0 d', r1 d', r2 d', r3 d', r12 d', lr d', pc d'] = map (\<lambda>i. mem s' (b + 4 * of_nat i)) [8..<15]"
    "xpsr d' = unset_bit 9 (mem s' (b + 60))"
    "psp d' = b + 64 + (if bit (mem s' (b + 60)) 9 then 4 else 0)" "control d' = control d"
proof -
  from sw live obtain c1 c2 h where c2: "load_context c1 s' = Some c2" "control c1 = control d"
    "d' = exception_return c2 (mem s')"
    by (auto simp: context_switch_def exception_entry_eq PendSV_Handler_def
        Option.bind_eq_Some_conv split: if_splits)
  then have d': "hi c2 = load_words (mem s') b 8" "psp c2 = b + 32" "control c2 = control d"
    using cur sp by (auto simp: load_context_def get_tcb_def rd_Some_iff Option.bind_eq_Some_conv)
  have "[8..<15] = [8, 9, 10, 11, 12, 13, 14 :: nat]" by (simp add: upt_rec)
  with c2(3) d' show "hi d' = load_words (mem s') b 8"
    "[r0 d', r1 d', r2 d', r3 d', r12 d', lr d', pc d'] = map (\<lambda>i. mem s' (b + 4 * of_nat i)) [8..<15]"
    "xpsr d' = unset_bit 9 (mem s' (b + 60))"
    "psp d' = b + 64 + (if bit (mem s' (b + 60)) 9 then 4 else 0)" "control d' = control d"
    by (simp_all add: exception_return_def Let_def algebra_simps)
qed

lemma word_split_bit: "(w AND NOT 4) + (if bit w 2 then 4 else 0) = (w :: u32)"
proof -
  have "w - (w AND 4) = w AND NOT (w AND 4)"
    by (rule disjunctive_diff) (simp add: bit_and_iff)
  also have "\<dots> = w AND NOT 4" by (rule and_not_and)
  finally have "w = (w AND NOT 4) + (w AND 4)" by (simp add: algebra_simps)
  moreover have "w AND 4 = (if bit w 2 then 4 else 0)"
  proof (rule bit_word_eqI)
    fix n :: nat assume n: "n < LENGTH(32)"
    have four: "bit (4 :: u32) n \<longleftrightarrow> n = 2"
      using bit_exp_iff [of 2 n, where 'a = u32] n by auto
    then show "bit (w AND 4) n \<longleftrightarrow> bit (if bit w 2 then 4 else (0 :: u32)) n"
      by (auto simp: bit_and_iff)
  qed
  ultimately show ?thesis by simp
qed

lemma bit_minus_32: "bit (x - 32) 2 = bit (x :: u32) 2"
proof -
  have low: "take_bit 5 (uint x - 32) = take_bit 5 (uint x)"
    using take_bit_diff [of 5 "uint x" 32] by simp
  have "uint (x - 32) = take_bit 32 (uint x - 32)" by (simp add: uint_word_arith_bintrs)
  then have "bit (x - 32) 2 = bit (uint x - 32) 2"
    using bit_uint_iff [of "x - 32" 2] by (simp add: bit_take_bit_iff)
  also have "\<dots> = bit (take_bit 5 (uint x - 32)) 2" by (simp add: bit_take_bit_iff)
  also have "\<dots> = bit (uint x) 2" unfolding low by (simp add: bit_take_bit_iff)
  also have "\<dots> = bit x 2" by (simp add: bit_uint_iff)
  finally show ?thesis .
qed

lemma saved_sp_back: "saved_sp c + 64 + (if bit (psp c) 2 then 4 else 0) = psp c"
proof -
  have "saved_sp c + 64 + (if bit (psp c) 2 then 4 else 0) =
      ((psp c - 32) AND NOT 4) + (if bit (psp c - 32) 2 then 4 else 0) + 32"
    by (simp add: saved_sp_def bit_minus_32)
  also have "\<dots> = psp c" by (simp only: word_split_bit) simp
  finally show ?thesis .
qed

lemma context_preserved:
  assumes out: "context_switch c s = Some (c1, s1)" "current_tcb s = Some a"
    and regs: "length (hi c) = 8" "\<not> bit (xpsr c) 9"
    and ret: "context_switch d t = Some (d', t')" "halted_in t' = None" "current_tcb t' = Some a"
    and kept: "stackPtr (os_tasks t' ! a) = stackPtr (os_tasks s1 ! a)"
      "load_words (mem t') (stackPtr (os_tasks s1 ! a)) 16 =
       load_words (mem s1) (stackPtr (os_tasks s1 ! a)) 16"
  shows "d' = c\<lparr>control := control d\<rparr>"
proof -
  note S = context_switch_saves [OF out]
  let ?b = "saved_sp c"
  have frame: "load_words (mem t') ?b 16 = hi c @ hw_words c"
    using kept(2) context_mem_frame [OF regs(1)] by (simp add: S)
  have word: "mem t' (?b + 4 * of_nat i) = (hi c @ hw_words c) ! i" if "i < 16" for i
    using frame load_words_nth [OF that, of "mem t'" ?b] by simp
  have x: "mem t' (?b + 60) = (if bit (psp c) 2 then set_bit 9 (xpsr c) else unset_bit 9 (xpsr c))"
    using word [of 15] regs(1) by (simp add: nth_append hw_words_def)
  have sp: "stackPtr (os_tasks t' ! a) = ?b" using kept(1) S(3) by simp
  note L = context_switch_loads [OF ret sp]
  have "hi d' = hi c"
  proof (rule nth_equalityI)
    show "length (hi d') = length (hi c)" using L(1) regs(1) by simp
    fix i assume "i < length (hi d')"
    then have "i < 8" using L(1) by simp
    then show "hi d' ! i = hi c ! i"
      using L(1) word [of i] regs(1) by (simp add: load_words_nth nth_append)
  qed
  moreover have "[r0 d', r1 d', r2 d', r3 d', r12 d', lr d', pc d'] =
      [r0 c, r1 c, r2 c, r3 c, r12 c, lr c, pc c]"
  proof -
    have "[8..<15] = [8, 9, 10, 11, 12, 13, 14 :: nat]" by (simp add: upt_rec)
    moreover have "mem t' (?b + 4 * of_nat i) = hw_words c ! (i - 8)" if "i \<in> {8..<15}" for i
      using word [of i] regs(1) that by (simp add: nth_append)
    note this [of 8] this [of 9] this [of 10] this [of 11] this [of 12] this [of 13] this [of 14]
    ultimately show ?thesis using L(2) by (simp add: hw_words_def)
  qed
  moreover have "xpsr d' = xpsr c"
  proof -
    have "unset_bit 9 (set_bit 9 (xpsr c)) = xpsr c" "unset_bit 9 (unset_bit 9 (xpsr c)) = xpsr c"
      using regs(2) by (auto intro!: bit_word_eqI simp: bit_unset_bit_iff bit_set_bit_iff)
    then show ?thesis using L(3) x by simp
  qed
  moreover have "psp d' = psp c"
  proof -
    have "bit (mem t' (?b + 60)) 9 = bit (psp c) 2" by (simp add: x bit_simps)
    then show ?thesis using L(4) saved_sp_back [of c] by simp
  qed
  ultimately show ?thesis using L(5) by simp
qed

subsection \<open>The first task\<close>

lemma start_first_task_eq:
  assumes "current_tcb s = Some a" "a < length (os_tasks s)"
    "stackPtr (os_tasks s ! a) = stk - 64" "mem s (stk - 8) = entry"
  shows "os_start_first_task c s = Some (c\<lparr>r0 := stk, r1 := entry, r2 := 2, psp := stk,
    control := 2, pc := entry\<rparr>, s\<lparr>primask := 0\<rparr>)"
  using assms by (simp add: os_start_first_task_def get_tcb_def)

end
