(* ===== verification/Wait_Effects.thy ===== *)
theory Wait_Effects
  imports Kernel_Inv
begin

text \<open>
  The effect of \<^verbatim>\<open>wait_queue_remove\<close>, \<^verbatim>\<open>wake_task\<close>, \<^verbatim>\<open>block_current\<close> and
  \<^verbatim>\<open>pick_waiter\<close> in a state that satisfies the invariant, in terms of the lists of
  waiters and of the TCB that changes: none of them touches an object out of bounds or
  through NULL, and the invariant is kept. The locale at the end is the contract the
  mutexes and the semaphores rely on.
\<close>

subsection \<open>The TCB updates\<close>

definition unparked :: "tcb \<Rightarrow> tcb" where
  "unparked x = x\<lparr>wait_queue := None, wait_count := None\<rparr>"

definition woken :: "tcb \<Rightarrow> tcb" where
  "woken x = (unparked x)\<lparr>sleep_time := 0, wait_result := OS_SUCCESS, state := READY\<rparr>"

definition parked :: "wref \<Rightarrow> u32 \<Rightarrow> tcb \<Rightarrow> tcb" where
  "parked r timeout x = x\<lparr>wait_queue := Some r, wait_count := Some r, wait_result := OS_SUCCESS,
     sleep_time := (if timeout = WAIT_FOREVER then 0 else timeout), state := BLOCKED\<rparr>"

lemma unparked_simps [simp]:
  "wait_queue (unparked x) = None" "wait_count (unparked x) = None"
  "current_priority (unparked x) = current_priority x" "base_priority (unparked x) = base_priority x"
  "state (unparked x) = state x" "sleep_time (unparked x) = sleep_time x"
  by (simp_all add: unparked_def)

lemma woken_simps [simp]:
  "wait_queue (woken x) = None" "wait_count (woken x) = None" "state (woken x) = READY"
  "sleep_time (woken x) = 0" "wait_result (woken x) = OS_SUCCESS"
  "current_priority (woken x) = current_priority x" "base_priority (woken x) = base_priority x"
  by (simp_all add: woken_def)

lemma parked_simps [simp]:
  "wait_queue (parked r n x) = Some r" "wait_count (parked r n x) = Some r"
  "state (parked r n x) = BLOCKED" "wait_result (parked r n x) = OS_SUCCESS"
  "sleep_time (parked r n x) = (if n = WAIT_FOREVER then 0 else n)"
  "current_priority (parked r n x) = current_priority x"
  "base_priority (parked r n x) = base_priority x"
  by (simp_all add: parked_def)

lemma unparked_idle: "task_ok x \<Longrightarrow> wait_queue x = None \<Longrightarrow> unparked x = x"
  by (cases x) (simp add: unparked_def task_ok_def)

lemma task_ok_woken [simp]: "task_ok (woken x)"
  by (simp add: task_ok_def)

lemma task_ok_parked [simp]: "task_ok (parked r n x)"
  by (simp add: task_ok_def)

subsection \<open>Writing an array and its counter\<close>

lemma waiters_put:
  assumes "get_wait_array s r = Some a" "get_wait_count s r = Some c"
  shows "waiters (put_wait_count r c' (put_wait_array r a' s)) r' =
    (if r' = r then take (unat c') a' else waiters s r')"
  using assms by (auto simp: waiters_def split: option.splits)

lemma wait_shape_put:
  assumes "length a' = wait_capacity r" "unat c' \<le> wait_capacity r" "wait_shape s r'"
  shows "wait_shape (put_wait_count r c' (put_wait_array r a' s)) r'"
  using assms by (auto simp: wait_shape_def split: if_splits)

lemma wait_shape_tasks [simp]: "wait_shape (s\<lparr>os_tasks := ts\<rparr>) r = wait_shape s r"
  by (simp add: wait_shape_def)

lemma wq_frame_put_tasks:
  "wq_frame s ((put_wait_count r c (put_wait_array r a s))\<lparr>os_tasks := ts\<rparr>)"
  by (rule wq_frame_trans [OF wq_frame_trans [OF wq_frame_put(1) wq_frame_put(2)] wq_frame_tasks])

subsection \<open>Removing a task\<close>

lemma remove1_not_waiting:
  assumes "waits_ok s" "t < tc s" "wait_queue (os_tasks s ! t) \<noteq> Some r"
  shows "remove1 (Some t) (waiters s r) = waiters s r"
  using waits_okD(8) [OF assms(1,2)] assms(3) by (simp add: remove1_idem)

lemma wait_queue_remove_effect:
  assumes ok: "waits_ok s" and t: "t < tc s"
  obtains s' where "wait_queue_remove t s = Some s'"
    "os_tasks s' = (os_tasks s)[t := unparked (os_tasks s ! t)]"
    "\<forall>r. waiters s' r = remove1 (Some t) (waiters s r)"
    "\<forall>r. wait_shape s' r" "wq_frame s s'"
proof (cases "wait_queue (os_tasks s ! t)")
  case None
  have x: "task_ok (os_tasks s ! t)" "t < length (os_tasks s)" using waits_okD [OF ok] t by auto
  have "wait_queue_remove t s = Some s"
    using None x by (simp add: wait_queue_remove_def get_tcb_def)
  moreover have "os_tasks s = (os_tasks s)[t := unparked (os_tasks s ! t)]"
    using None x by (simp add: unparked_idle)
  moreover have "\<forall>r. waiters s r = remove1 (Some t) (waiters s r)"
    using remove1_not_waiting [OF ok t] None by simp
  ultimately show ?thesis using that [of s] waits_okD(5) [OF ok] by simp
next
  case (Some r)
  let ?x = "os_tasks s ! t"
  have x: "task_ok ?x" "t < length (os_tasks s)" using waits_okD [OF ok] t by auto
  have "Some t \<in> set (waiters s r)" using waits_okD(8) [OF ok t] Some by simp
  then obtain a c where ac: "get_wait_array s r = Some a" "get_wait_count s r = Some c"
    using waiters_live by blast
  note take = waiters_take [OF ok ac]
  from take have "unat c \<le> length a" by simp
  then obtain a' c' where scan: "remove_scan t 0 a c = Some (a', c')" and len: "length a' = length a"
    and c': "unat c' \<le> unat c" and rm: "take (unat c') a' = remove1 (Some t) (take (unat c) a)"
    by (rule remove_scan_Some)
  let ?s1 = "put_wait_count r c' (put_wait_array r a' s)"
  let ?s' = "?s1\<lparr>os_tasks := (os_tasks s)[t := unparked ?x]\<rparr>"
  have "wait_count ?x = Some r" using x(1) Some by (simp add: task_ok_def)
  then have "wait_queue_remove t s = Some ?s'"
    using Some x(2) ac scan
    by (simp add: wait_queue_remove_def get_tcb_def upd_tcb_def unparked_def)
  moreover have "waiters ?s' r' = remove1 (Some t) (waiters s r')" for r'
    using waiters_put [OF ac, of c' a' r'] rm take(1) remove1_not_waiting [OF ok t, of r'] Some
    by auto
  moreover have "wait_shape ?s' r'" for r'
    using wait_shape_put [of a' r c' s r'] len c' take waits_okD(5) [OF ok] by simp
  moreover have "wq_frame s ?s'" by (rule wq_frame_put_tasks)
  ultimately show ?thesis using that [of ?s'] by simp
qed

text \<open>\<open>set_unwaiting\<close> is what the invariant needs of any update that takes a task out of
  its queue: the new TCB does not wait and is itself consistent.\<close>

lemma waits_ok_unwait:
  assumes ok: "waits_ok s" and t: "t < tc s"
    and tasks: "os_tasks s' = (os_tasks s)[t := y]" and y: "task_ok y" "wait_queue y = None"
    and w: "\<forall>r. waiters s' r = remove1 (Some t) (waiters s r)"
    and sh: "\<forall>r. wait_shape s' r" and n: "task_count s' = task_count s"
  shows "waits_ok s'"
proof -
  note D = waits_okD [OF ok]
  have "task_ok (os_tasks s' ! u)" if "u < tc s" for u
    using D(4) [OF that] y that t D(3) by (cases "u = t") (simp_all add: tasks)
  moreover have "distinct (waiters s' r)" for r using w D(6) by simp
  moreover have "\<exists>u<tc s. p = Some u" if "p \<in> set (waiters s' r)" for p r
    using D(7) that w notin_set_remove1 by metis
  moreover have "Some u \<in> set (waiters s' r) \<longleftrightarrow> wait_queue (os_tasks s' ! u) = Some r"
    if "u < tc s" for u r
    using D(8) [OF that, of r] D(6) [of r] D(3) [OF t] y(2) w by (cases "u = t") (auto simp: tasks)
  ultimately show ?thesis
    using D(1,2) sh by (simp add: waits_ok_def n tasks)
qed

lemma waits_ok_upd_same:
  assumes ok: "waits_ok s" and t: "t < tc s"
    and y: "task_ok y" "wait_queue y = wait_queue (os_tasks s ! t)"
  shows "waits_ok (s\<lparr>os_tasks := (os_tasks s)[t := y]\<rparr>)"
proof -
  note D = waits_okD [OF ok]
  have "task_ok ((os_tasks s)[t := y] ! u)" if "u < tc s" for u
    using D(3,4) that t y by (cases "u = t") simp_all
  moreover have "wait_queue ((os_tasks s)[t := y] ! u) = wait_queue (os_tasks s ! u)"
    if "u < tc s" for u
    using D(3) that t y by (cases "u = t") simp_all
  ultimately show ?thesis using ok by (simp add: waits_ok_def)
qed

lemma objs_ok_remove:
  assumes "objs_ok s" and w: "\<forall>r. waiters s' r = remove1 (Some t) (waiters s r)"
    and core: "obj_cores s' = obj_cores s" and n: "task_count s' = task_count s"
  shows "objs_ok s'"
  unfolding objs_ok_def
proof (intro conjI allI impI)
  fix m x' assume "mutexes s' m = Some x'"
  then obtain x where "mutexes s m = Some x" "lock x = lock x'" "owner x = owner x'"
    using mutex_core [OF core] by blast
  moreover have "mutex_ok s m x" using assms(1) calculation(1) by (auto simp: objs_ok_def)
  ultimately show "mutex_ok s' m x'"
    using w n by (auto simp: mutex_ok_def dest: in_set_remove1 notin_set_remove1)
next
  fix a x' assume "sems s' a = Some x'"
  then obtain x where "sems s a = Some x" "sem_count x = sem_count x'"
    "sem_max_count x = sem_max_count x'"
    using sem_core [OF core] by blast
  moreover have "sem_ok s a x" using assms(1) calculation(1) by (auto simp: objs_ok_def)
  ultimately show "sem_ok s' a x'" using w by (auto simp: sem_ok_def)
qed

subsection \<open>Waking a task\<close>

lemma wake_task_effect:
  assumes ok: "waits_ok s" and t: "t < tc s"
  obtains s' where "wake_task t s = Some s'"
    "os_tasks s' = (os_tasks s)[t := woken (os_tasks s ! t)]"
    "\<forall>r. waiters s' r = remove1 (Some t) (waiters s r)"
    "waits_ok s'" "wq_frame s s'"
proof -
  obtain s1 where s1: "wait_queue_remove t s = Some s1"
    "os_tasks s1 = (os_tasks s)[t := unparked (os_tasks s ! t)]"
    "\<forall>r. waiters s1 r = remove1 (Some t) (waiters s r)" "\<forall>r. wait_shape s1 r" "wq_frame s s1"
    by (rule wait_queue_remove_effect [OF ok t])
  let ?s' = "s1\<lparr>os_tasks := (os_tasks s)[t := woken (os_tasks s ! t)]\<rparr>"
  have len: "t < length (os_tasks s)" using waits_okD(3) [OF ok t] .
  have "wake_task t s = Some ?s'"
    using s1(1,2) len by (simp add: wake_task_def upd_tcb_def woken_def)
  moreover have "waits_ok ?s'"
    using s1 wq_frame_fields(1) [OF s1(5)]
    by (intro waits_ok_unwait [OF ok t, of _ "woken (os_tasks s ! t)"]) simp_all
  moreover have "wq_frame s ?s'" using s1(5) wq_frame_tasks wq_frame_trans by blast
  ultimately show ?thesis using that [of ?s'] s1(3) by simp
qed

subsection \<open>Parking the running task\<close>

lemma block_current_full:
  assumes "waits_ok s" "get_wait_count s r = Some c" "length (waiters s r) = wait_capacity r"
  shows "block_current r r (wait_capacity r) n s = Some (False, s)"
proof -
  obtain a where "get_wait_array s r = Some a" using get_wait_both [of s r] assms(2) by auto
  with assms waiters_take(4) [of s r a c] show ?thesis by (simp add: block_current_def)
qed

lemma block_current_effect:
  assumes ok: "waits_ok s" and live: "get_wait_count s r = Some c"
    and room: "length (waiters s r) < wait_capacity r"
    and cur: "current_tcb s = Some t" and t: "t < tc s"
    and free: "wait_queue (os_tasks s ! t) = None"
  obtains s' where "block_current r r (wait_capacity r) n s = Some (True, s')"
    "os_tasks s' = (os_tasks s)[t := parked r n (os_tasks s ! t)]"
    "\<forall>r'. waiters s' r' = (if r' = r then waiters s r @ [Some t] else waiters s r')"
    "waits_ok s'" "wq_frame s s'"
proof -
  note D = waits_okD [OF ok]
  let ?x = "os_tasks s ! t"
  obtain a where a: "get_wait_array s r = Some a" using get_wait_both [of s r] live by auto
  note take = waiters_take [OF ok a live]
  have cap: "wait_capacity r \<le> 6" by (cases r) (simp_all add: model_defs)
  have c: "unat c < wait_capacity r" using room take by simp
  have inc: "unat (c + 1) = Suc (unat c)" using c cap by (intro unat_u8_inc) simp
  let ?a' = "a[unat c := Some t]"
  let ?s' = "(put_wait_count r (c + 1) (put_wait_array r ?a' s))
     \<lparr>os_tasks := (os_tasks s)[t := parked r n ?x]\<rparr>"
  have run: "block_current r r (wait_capacity r) n s = Some (True, ?s')"
    using live a c cur D(3) [OF t] take(2)
    by (simp add: block_current_def upd_tcb_def parked_def)
  have w: "waiters ?s' r' = (if r' = r then waiters s r @ [Some t] else waiters s r')" for r'
    using waiters_put [OF a live, of "c + 1" ?a' r'] inc take c by (simp add: take_Suc_update)
  have sh: "wait_shape ?s' r'" for r'
    using wait_shape_put [of ?a' r "c + 1" s r'] take c inc D(5) by simp
  have fr: "wq_frame s ?s'" by (rule wq_frame_put_tasks)
  have notin: "Some t \<notin> set (waiters s r')" for r' using D(8) [OF t, of r'] free by simp
  have "waits_ok ?s'"
  proof -
    have "task_ok (os_tasks ?s' ! u)" if "u < tc s" for u
      using D(4) [OF that] that t D(3) by (cases "u = t") simp_all
    moreover have "distinct (waiters ?s' r')" for r' using w notin D(6) by simp
    moreover have "\<exists>u<tc s. p = Some u" if "p \<in> set (waiters ?s' r')" for p r'
      using D(7) that w t by (auto split: if_splits)
    moreover have "Some u \<in> set (waiters ?s' r') \<longleftrightarrow> wait_queue (os_tasks ?s' ! u) = Some r'"
      if "u < tc s" for u r'
      using D(8) [OF that, of r'] D(3) [OF t] w notin free by (cases "u = t") (auto split: if_splits)
    ultimately show ?thesis using D(1,2) sh by (simp add: waits_ok_def)
  qed
  with run w fr show ?thesis using that [of ?s'] by simp
qed

subsection \<open>Choosing a waiter\<close>

lemma pick_waiter_effect:
  assumes ok: "waits_ok s" and live: "get_wait_count s r = Some c"
  shows "pick_waiter r s = Some (first_max (prio s) None (map the (waiters s r)))"
proof -
  obtain a where a: "get_wait_array s r = Some a" using get_wait_both [of s r] live by auto
  have "unat c \<le> length a" using waiters_take [OF ok a live] by simp
  moreover have "\<forall>p\<in>set (waiters s r). \<exists>t<length (os_tasks s). p = Some t"
    using waits_okD(3,7) [OF ok] by blast
  ultimately show ?thesis using pick_waiter_eq [OF a live] by blast
qed

lemma picked_waits:
  assumes ok: "waits_ok s" and "first_max (prio s) None (map the (waiters s r)) = Some t"
  shows "t < tc s" "Some t \<in> set (waiters s r)" "wait_queue (os_tasks s ! t) = Some r"
proof -
  from first_max_in [OF assms(2)] obtain p where p: "p \<in> set (waiters s r)" "t = the p" by auto
  with waits_okD(7) [OF ok p(1)] show "t < tc s" "Some t \<in> set (waiters s r)" by auto
  with waits_okD(8) [OF ok, of t r] show "wait_queue (os_tasks s ! t) = Some r" by simp
qed

lemma no_waiter_iff:
  "first_max f None (map the (waiters s r)) = None \<longleftrightarrow> waiters s r = []"
  by simp

end
