(* ===== verification/Mutex.thy ===== *)
theory Mutex
  imports Wait_Effects
begin

text \<open>
  The mutex of \<^verbatim>\<open>Kernel/os_kernel.c\<close>: \<^verbatim>\<open>os_mutex_init\<close>, \<^verbatim>\<open>os_mutex_acquire\<close> and
  \<^verbatim>\<open>os_mutex_release\<close>, with priority inheritance and direct handoff.

  A blocking call does not return where it blocks: it requests a context switch, and the
  value it returns is \<^verbatim>\<open>current_tcb->wait_result\<close> once the task runs again. The model
  splits the call there: the part up to the switch yields \<open>Parked\<close>, and
  \<open>os_resume_result\<close> is the expression the task evaluates when it resumes.
\<close>

subsection \<open>The model\<close>

datatype outcome = Returned u8 | Parked

definition os_resume_result :: "kernel \<Rightarrow> u8 option" where
  "os_resume_result s = do { t \<leftarrow> current_tcb s; x \<leftarrow> get_tcb s t; Some (wait_result x) }"

definition os_mutex_init :: "maddr \<Rightarrow> kernel \<Rightarrow> kernel" where
  "os_mutex_init m s = s\<lparr>mutexes := (mutexes s)(m \<mapsto> (case mutexes s m of
       Some x \<Rightarrow> x\<lparr>lock := 0, owner := None, m_wait_count := 0\<rparr>
     | None \<Rightarrow> \<lparr>lock = 0, owner = None, m_wait_queue = replicate MAX_WAITING_TASKS None,
                m_wait_count = 0\<rparr>))\<rparr>"

text \<open>
  The donation \<^verbatim>\<open>if (current_tcb->current_priority > mutex->owner->current_priority) ...\<close>
\<close>

definition donate_priority :: "tid option \<Rightarrow> kernel \<Rightarrow> kernel option" where
  "donate_priority own s = do {
     c \<leftarrow> current_tcb s;
     cx \<leftarrow> get_tcb s c;
     o' \<leftarrow> own;
     ox \<leftarrow> get_tcb s o';
     if current_priority ox < current_priority cx
     then upd_tcb o' (\<lambda>y. y\<lparr>current_priority := current_priority cx\<rparr>) s
     else Some s }"

definition os_mutex_acquire :: "maddr \<Rightarrow> u32 \<Rightarrow> kernel \<Rightarrow> (outcome \<times> kernel) option" where
  "os_mutex_acquire m timeout s = (let (p, s1) = os_enter_critical s in do {
     x \<leftarrow> mutexes s1 m;
     if lock x = 0 then do {
       s2 \<leftarrow> upd_mutex m (\<lambda>x. x\<lparr>lock := 1, owner := current_tcb s1\<rparr>) s1;
       Some (Returned OS_SUCCESS, os_exit_critical p s2) }
     else if owner x = current_tcb s1 then Some (Returned OS_FAIL, os_exit_critical p s1)
     else if timeout = 0 \<or> \<not> kernel_running s1
     then Some (Returned OS_TIMEOUT, os_exit_critical p s1)
     else do {
       s2 \<leftarrow> donate_priority (owner x) s1;
       (ok, s3) \<leftarrow> block_current (MutexQ m) (MutexQ m) MAX_WAITING_TASKS timeout s2;
       if \<not> ok then Some (Returned OS_FAIL, os_exit_critical p s3)
       else Some (Parked, os_yield (os_exit_critical p s3)) } })"

definition drop_donation :: "tid option \<Rightarrow> kernel \<Rightarrow> kernel option" where
  "drop_donation own s = (case own of
     None \<Rightarrow> Some s
   | Some o' \<Rightarrow> upd_tcb o' (\<lambda>y. y\<lparr>current_priority := base_priority y\<rparr>) s)"

definition os_mutex_release :: "maddr \<Rightarrow> kernel \<Rightarrow> kernel option" where
  "os_mutex_release m s = (let (p, s1) = os_enter_critical s in do {
     x \<leftarrow> mutexes s1 m;
     s2 \<leftarrow> drop_donation (owner x) s1;
     next \<leftarrow> pick_waiter (MutexQ m) s2;
     (case next of
        Some n \<Rightarrow> do {
          s3 \<leftarrow> upd_mutex m (\<lambda>x. x\<lparr>owner := Some n\<rparr>) s2;
          s4 \<leftarrow> wake_task n s3;
          Some (os_yield (os_exit_critical p s4)) }
      | None \<Rightarrow> do {
          s3 \<leftarrow> upd_mutex m (\<lambda>x. x\<lparr>lock := 0, owner := None\<rparr>) s2;
          Some (os_exit_critical p s3) }) })"

subsection \<open>Changing lock and owner\<close>

text \<open>What a mutex operation does to the object outside its wait queue.\<close>

definition set_lock :: "maddr \<Rightarrow> u32 \<Rightarrow> tid option \<Rightarrow> kernel \<Rightarrow> kernel" where
  "set_lock m l w s =
     s\<lparr>mutexes := (mutexes s)(m := map_option (\<lambda>x. x\<lparr>lock := l, owner := w\<rparr>) (mutexes s m))\<rparr>"

lemma set_lock_frame [simp]:
  "os_tasks (set_lock m l w s) = os_tasks s" "task_count (set_lock m l w s) = task_count s"
  "current_tcb (set_lock m l w s) = current_tcb s" "sems (set_lock m l w s) = sems s"
  "kernel_running (set_lock m l w s) = kernel_running s" "primask (set_lock m l w s) = primask s"
  "pendsv (set_lock m l w s) = pendsv s" "mem (set_lock m l w s) = mem s"
  "queues (set_lock m l w s) = queues s"
  "halted_in (set_lock m l w s) = halted_in s" "os_ticks (set_lock m l w s) = os_ticks s"
  by (simp_all add: set_lock_def)

lemma set_lock_waits [simp]:
  "get_wait_array (set_lock m l w s) r = get_wait_array s r"
  "get_wait_count (set_lock m l w s) r = get_wait_count s r"
  "waiters (set_lock m l w s) r = waiters s r"
  "wait_shape (set_lock m l w s) r = wait_shape s r"
proof -
  show eq: "get_wait_array (set_lock m l w s) r = get_wait_array s r"
    "get_wait_count (set_lock m l w s) r = get_wait_count s r"
    by (cases r; simp add: set_lock_def option.map_comp o_def)+
  show "waiters (set_lock m l w s) r = waiters s r" "wait_shape (set_lock m l w s) r = wait_shape s r"
    by (simp_all only: waiters_def wait_shape_def eq)
qed

lemma waits_ok_set_lock [simp]: "waits_ok (set_lock m l w s) = waits_ok s"
  by (simp add: waits_ok_def)

lemma set_lock_mutexes:
  "mutexes (set_lock m l w s) m' =
     (if m' = m then map_option (\<lambda>x. x\<lparr>lock := l, owner := w\<rparr>) (mutexes s m) else mutexes s m')"
  by (simp add: set_lock_def)

lemma upd_mutex_set_lock:
  "mutexes s m = Some x \<Longrightarrow> upd_mutex m (\<lambda>x. x\<lparr>lock := l, owner := w\<rparr>) s = Some (set_lock m l w s)"
  "mutexes s m = Some x \<Longrightarrow> upd_mutex m (\<lambda>x. x\<lparr>owner := w\<rparr>) s = Some (set_lock m (lock x) w s)"
  by (simp_all add: upd_mutex_def set_lock_def)

lemma objs_ok_set_lock:
  assumes "objs_ok s" and "\<And>x. mutexes s m = Some x \<Longrightarrow> mutex_ok s m (x\<lparr>lock := l, owner := w\<rparr>)"
  shows "objs_ok (set_lock m l w s)"
  using assms by (auto simp: objs_ok_def set_lock_mutexes mutex_ok_def sem_ok_def)

subsection \<open>The running task\<close>

definition running :: "kernel \<Rightarrow> tid \<Rightarrow> bool" where
  "running s t \<longleftrightarrow> current_tcb s = Some t \<and> t < tc s \<and> state (os_tasks s ! t) = RUNNING"

lemma running_free:
  "waits_ok s \<Longrightarrow> running s t \<Longrightarrow> wait_queue (os_tasks s ! t) = None"
  using waits_okD(4) [of s t] by (auto simp: running_def task_ok_def)

lemma running_not_waiting:
  "waits_ok s \<Longrightarrow> running s t \<Longrightarrow> Some t \<notin> set (waiters s r)"
  using waits_okD(8) [of s t r] running_free by (auto simp: running_def)

subsection \<open>Acquiring\<close>

lemma kinv_set_lock:
  assumes "kinv s" and "\<And>x. mutexes s m = Some x \<Longrightarrow> mutex_ok s m (x\<lparr>lock := l, owner := w\<rparr>)"
  shows "kinv (set_lock m l w s)"
  using objs_ok_set_lock [OF kinvD(2) [OF assms(1)] assms(2)] kinvD(1,3) [OF assms(1)]
  by (simp add: kinv_def current_ok_def)

lemma critical_noop [simp]: "os_exit_critical (primask s) (s\<lparr>primask := n\<rparr>) = s"
  by (simp add: os_exit_critical_def)

lemma mutex_acquire_free:
  assumes "mutexes s m = Some x" "lock x = 0"
  shows "os_mutex_acquire m timeout s =
    Some (Returned OS_SUCCESS, set_lock m 1 (current_tcb s) s)"
  using assms
  by (simp add: os_mutex_acquire_def os_enter_critical_def os_exit_critical_def upd_mutex_def
      set_lock_def)

lemma mutex_acquire_own:
  assumes "mutexes s m = Some x" "lock x \<noteq> 0" "owner x = current_tcb s"
  shows "os_mutex_acquire m timeout s = Some (Returned OS_FAIL, s)"
  using assms by (simp add: os_mutex_acquire_def os_enter_critical_def)

lemma mutex_acquire_poll:
  assumes "mutexes s m = Some x" "lock x \<noteq> 0" "owner x \<noteq> current_tcb s"
    "timeout = 0 \<or> \<not> kernel_running s"
  shows "os_mutex_acquire m timeout s = Some (Returned OS_TIMEOUT, s)"
  using assms by (simp add: os_mutex_acquire_def os_enter_critical_def)

text \<open>The TCB array after the donation.\<close>

definition donated :: "tid \<Rightarrow> tid \<Rightarrow> tcb list \<Rightarrow> tcb list" where
  "donated c o' ts = ts[o' := (ts ! o')\<lparr>current_priority :=
     max (current_priority (ts ! o')) (current_priority (ts ! c))\<rparr>]"

lemma donate_priority_eq:
  assumes "current_tcb s = Some c" "c < length (os_tasks s)" "o' < length (os_tasks s)"
  shows "donate_priority (Some o') s = Some (s\<lparr>os_tasks := donated c o' (os_tasks s)\<rparr>)"
proof -
  have "max a b = (if a < b then b else a)" for a b :: u8 by auto
  with assms show ?thesis
    by (auto simp: donate_priority_def get_tcb_def upd_tcb_def donated_def)
qed

lemma waits_ok_donated:
  assumes "waits_ok s" "o' < tc s"
  shows "waits_ok (s\<lparr>os_tasks := donated c o' (os_tasks s)\<rparr>)"
  unfolding donated_def using waits_okD(4) [OF assms]
  by (intro waits_ok_upd_same [OF assms]) (auto simp: task_ok_def)

lemma mutex_room:
  assumes "waits_ok s" "running s c" "o' < tc s" "o' \<noteq> c" "Some o' \<notin> set (waiters s r)"
  shows "length (waiters s r) < MAX_WAITING_TASKS"
proof -
  have "{c, o'} \<subseteq> {..<tc s}" using assms(2,3) by (auto simp: running_def)
  then have "length (waiters s r) \<le> tc s - card {c, o'}"
    using running_not_waiting [OF assms(1,2)] assms(5) by (intro waiters_room [OF assms(1)]) auto
  with assms(4) waits_okD(2) [OF assms(1)] show ?thesis by (auto simp: model_defs)
qed

lemma mutex_acquire_block:
  assumes inv: "kinv s" and run: "running s c" and x: "mutexes s m = Some x" "lock x \<noteq> 0"
    and not_own: "owner x \<noteq> Some c" and n: "timeout \<noteq> 0" "kernel_running s"
  obtains o' s' where "owner x = Some o'" "o' < tc s" "o' \<noteq> c"
    "os_mutex_acquire m timeout s = Some (Parked, s')" "kinv s'" "pendsv s'"
    "os_tasks s' = (donated c o' (os_tasks s))[c := parked (MutexQ m) timeout (os_tasks s ! c)]"
    "\<forall>r. waiters s' r = (if r = MutexQ m then waiters s r @ [Some c] else waiters s r)"
    "obj_cores s' = obj_cores s" "primask s' = primask s" "current_tcb s' = current_tcb s"
    "task_count s' = task_count s" "mem s' = mem s" "kernel_running s'" "halted_in s' = halted_in s"
proof -
  note ok = kinvD(1) [OF inv] and D = waits_okD [OF kinvD(1) [OF inv]]
  have mok: "mutex_ok s m x" using kinvD(2) [OF inv] x(1) by (auto simp: objs_ok_def)
  then obtain o' where o': "owner x = Some o'" "o' < tc s" "Some o' \<notin> set (waiters s (MutexQ m))"
    using x(2) by (auto simp: mutex_ok_def)
  have oc: "o' \<noteq> c" using not_own o'(1) by auto
  have c: "current_tcb s = Some c" "c < tc s" using run by (simp_all add: running_def)
  let ?s1 = "s\<lparr>primask := 1\<rparr>"
  let ?s2 = "?s1\<lparr>os_tasks := donated c o' (os_tasks s)\<rparr>"
  have ok1: "waits_ok ?s1" using ok by (simp add: waits_ok_def wait_shape_def)
  have don: "donate_priority (owner x) ?s1 = Some ?s2"
    using donate_priority_eq [of ?s1 c o'] c o' D(3) by simp
  have ok2: "waits_ok ?s2" using waits_ok_donated [OF ok1, of o' c] o'(2) by simp
  have same_c: "os_tasks ?s2 ! c = os_tasks s ! c" using oc by (simp add: donated_def)
  have room: "length (waiters ?s2 (MutexQ m)) < wait_capacity (MutexQ m)"
    using mutex_room [OF ok run o'(2) oc o'(3)] by simp
  have live: "get_wait_count ?s2 (MutexQ m) = Some (m_wait_count x)" using x(1) by simp
  have free: "wait_queue (os_tasks ?s2 ! c) = None"
    using running_free [OF ok run] same_c by simp
  obtain s3 where s3: "block_current (MutexQ m) (MutexQ m) (wait_capacity (MutexQ m)) timeout ?s2 = Some (True, s3)"
    "os_tasks s3 = (os_tasks ?s2)[c := parked (MutexQ m) timeout (os_tasks ?s2 ! c)]"
    "\<forall>r'. waiters s3 r' = (if r' = MutexQ m then waiters ?s2 (MutexQ m) @ [Some c] else waiters ?s2 r')"
    "waits_ok s3" "wq_frame ?s2 s3"
    using block_current_effect [OF ok2 live room, of c] c free by auto
  note fr = wq_frame_fields [OF s3(5), simplified]
  let ?s' = "os_yield (os_exit_critical (primask s) s3)"
  have run': "os_mutex_acquire m timeout s = Some (Parked, ?s')"
    using x n not_own c don s3(1)
    by (simp add: os_mutex_acquire_def os_enter_critical_def)
  have core: "obj_cores s3 = obj_cores s" using fr by (simp add: obj_cores_def)
  have "objs_ok s3"
    unfolding objs_ok_def
  proof (intro conjI allI impI)
    fix m' x' assume "mutexes s3 m' = Some x'"
    then obtain y where y: "mutexes s m' = Some y" "lock y = lock x'" "owner y = owner x'"
      using mutex_core [OF core] by blast
    then have "mutex_ok s m' y" using kinvD(2) [OF inv] by (auto simp: objs_ok_def)
    then show "mutex_ok s3 m' x'"
      using y x not_own s3(3) fr by (auto simp: mutex_ok_def split: if_splits)
  next
    fix a x' assume "sems s3 a = Some x'"
    then obtain y where y: "sems s a = Some y" "sem_count y = sem_count x'"
      "sem_max_count y = sem_max_count x'" using sem_core [OF core] by blast
    then have "sem_ok s a y" using kinvD(2) [OF inv] by (auto simp: objs_ok_def)
    then show "sem_ok s3 a x'" using y s3(3) by (auto simp: sem_ok_def)
  qed
  moreover have "current_ok s3" using kinvD(3) [OF inv] fr by (simp add: current_ok_def)
  ultimately have "kinv s3" using s3(4) by (simp add: kinv_def)
  then have "kinv ?s'"
    by (simp add: os_yield_def os_exit_critical_def kinv_def waits_ok_def objs_ok_def mutex_ok_def
        sem_ok_def current_ok_def wait_shape_def)
  moreover have "waiters ?s' r = waiters s3 r" "obj_cores ?s' = obj_cores s3" for r
    by (simp_all add: os_yield_def os_exit_critical_def obj_cores_def)
  ultimately show ?thesis
    using that [of o' ?s'] o' oc run' s3(2,3) same_c core fr n(2)
    by (simp add: os_yield_def os_exit_critical_def)
qed

lemma mutex_acquire_cases:
  assumes "mutexes s m = Some x"
  obtains "lock x = 0" | "lock x \<noteq> 0" "owner x = current_tcb s"
    | "lock x \<noteq> 0" "owner x \<noteq> current_tcb s" "timeout = 0 \<or> \<not> kernel_running s"
    | "lock x \<noteq> 0" "owner x \<noteq> current_tcb s" "timeout \<noteq> 0" "kernel_running s"
  by blast

subsection \<open>Releasing\<close>

definition undonated :: "tid option \<Rightarrow> tcb list \<Rightarrow> tcb list" where
  "undonated own ts = (case own of None \<Rightarrow> ts
     | Some o' \<Rightarrow> ts[o' := (ts ! o')\<lparr>current_priority := base_priority (ts ! o')\<rparr>])"

lemma undonated_nth:
  "undonated own ts ! t =
     (if own = Some t \<and> t < length ts
      then (ts ! t)\<lparr>current_priority := base_priority (ts ! t)\<rparr> else ts ! t)"
proof (cases own)
  case (Some o')
  then show ?thesis
    by (cases "o' = t") (auto simp: undonated_def nth_list_update list_update_beyond)
qed (simp add: undonated_def)

lemma length_undonated [simp]: "length (undonated own ts) = length ts"
  by (simp add: undonated_def split: option.splits)

lemma drop_donation_eq:
  "\<forall>o'. own = Some o' \<longrightarrow> o' < length (os_tasks s) \<Longrightarrow>
   drop_donation own s = Some (s\<lparr>os_tasks := undonated own (os_tasks s)\<rparr>)"
  by (auto simp: drop_donation_def upd_tcb_def undonated_def split: option.splits)

lemma waits_ok_undonated:
  assumes "waits_ok s" "\<forall>o'. own = Some o' \<longrightarrow> o' < tc s"
  shows "waits_ok (s\<lparr>os_tasks := undonated own (os_tasks s)\<rparr>)"
proof (cases own)
  case None
  with assms(1) show ?thesis by (simp add: undonated_def)
next
  case (Some o')
  then have "o' < tc s" using assms(2) by simp
  from waits_ok_upd_same [OF assms(1) this] waits_okD(4) [OF assms(1) this] Some
  show ?thesis by (simp add: undonated_def task_ok_def)
qed

lemma mutex_ok_owner:
  assumes "kinv s" "mutexes s m = Some x"
  shows "\<forall>o'. owner x = Some o' \<longrightarrow> o' < tc s \<and> Some o' \<notin> set (waiters s (MutexQ m))"
    and "lock x = 0 \<Longrightarrow> owner x = None" and "lock x \<noteq> 0 \<Longrightarrow> lock x = 1 \<and> owner x \<noteq> None"
    and "lock x = 0 \<Longrightarrow> waiters s (MutexQ m) = []"
proof -
  have "mutex_ok s m x" using kinvD(2) [OF assms(1)] assms(2) by (auto simp: objs_ok_def)
  then show "\<forall>o'. owner x = Some o' \<longrightarrow> o' < tc s \<and> Some o' \<notin> set (waiters s (MutexQ m))"
    "lock x = 0 \<Longrightarrow> owner x = None" "lock x \<noteq> 0 \<Longrightarrow> lock x = 1 \<and> owner x \<noteq> None"
    "lock x = 0 \<Longrightarrow> waiters s (MutexQ m) = []"
    by (auto simp: mutex_ok_def)
qed

text \<open>The waiter that a release chooses; the donation dropped first is not a waiter's.\<close>

definition next_owner :: "maddr \<Rightarrow> kernel \<Rightarrow> tid option" where
  "next_owner m s = first_max (prio s) None (map the (waiters s (MutexQ m)))"

lemma release_picks:
  assumes inv: "kinv s" and x: "mutexes s m = Some x"
  shows "pick_waiter (MutexQ m) (s\<lparr>primask := 1, os_tasks := undonated (owner x) (os_tasks s)\<rparr>) =
    Some (next_owner m s)"
proof -
  note own = mutex_ok_owner(1) [OF inv x]
  let ?s2 = "s\<lparr>primask := 1, os_tasks := undonated (owner x) (os_tasks s)\<rparr>"
  have "waits_ok (s\<lparr>primask := 1\<rparr>)" using kinvD(1) [OF inv] by (simp add: waits_ok_def wait_shape_def)
  then have "waits_ok ?s2" using waits_ok_undonated [of "s\<lparr>primask := 1\<rparr>" "owner x"] own by simp
  moreover have "get_wait_count ?s2 (MutexQ m) = Some (m_wait_count x)" using x by simp
  ultimately have "pick_waiter (MutexQ m) ?s2 =
      Some (first_max (prio ?s2) None (map the (waiters ?s2 (MutexQ m))))"
    by (rule pick_waiter_effect)
  also have "first_max (prio ?s2) None (map the (waiters ?s2 (MutexQ m))) = next_owner m s"
    unfolding next_owner_def
  proof (simp, rule first_max_cong)
    fix t assume "t \<in> set (map the (waiters s (MutexQ m)))"
    then obtain p where p: "p \<in> set (waiters s (MutexQ m))" "t = the p" by auto
    with waits_okD(7) [OF kinvD(1) [OF inv] p(1)] have "Some t \<in> set (waiters s (MutexQ m))" by auto
    then have "owner x \<noteq> Some t" using own by auto
    then show "prio ?s2 t = prio s t" by (simp add: prio_def undonated_nth)
  qed
  finally show ?thesis .
qed

lemma mutex_release_last:
  assumes inv: "kinv s" and x: "mutexes s m = Some x" and none: "waiters s (MutexQ m) = []"
  shows "os_mutex_release m s =
      Some (set_lock m 0 None (s\<lparr>os_tasks := undonated (owner x) (os_tasks s)\<rparr>))" (is "_ = Some ?s'")
    and "kinv (set_lock m 0 None (s\<lparr>os_tasks := undonated (owner x) (os_tasks s)\<rparr>))"
proof -
  note own = mutex_ok_owner(1) [OF inv x]
  have "\<forall>o'. owner x = Some o' \<longrightarrow> o' < length (os_tasks s)"
    using own waits_okD(3) [OF kinvD(1) [OF inv]] by blast
  then have drop: "drop_donation (owner x) (s\<lparr>primask := 1\<rparr>) =
      Some (s\<lparr>primask := 1, os_tasks := undonated (owner x) (os_tasks s)\<rparr>)"
    using drop_donation_eq [of "owner x" "s\<lparr>primask := 1\<rparr>"] by simp
  have "next_owner m s = None" using none by (simp add: next_owner_def)
  with release_picks [OF inv x] drop x show "os_mutex_release m s = Some ?s'"
    by (simp add: os_mutex_release_def os_enter_critical_def os_exit_critical_def upd_mutex_def
        set_lock_def)
  have "waits_ok (s\<lparr>os_tasks := undonated (owner x) (os_tasks s)\<rparr>)"
    using waits_ok_undonated [OF kinvD(1) [OF inv]] own by blast
  moreover have "objs_ok (s\<lparr>os_tasks := undonated (owner x) (os_tasks s)\<rparr>)"
    using kinvD(2) [OF inv] by (simp add: objs_ok_def mutex_ok_def sem_ok_def)
  ultimately have "kinv (s\<lparr>os_tasks := undonated (owner x) (os_tasks s)\<rparr>)"
    using kinvD(3) [OF inv] by (simp add: kinv_def current_ok_def)
  then show "kinv ?s'" by (rule kinv_set_lock) (simp add: none mutex_ok_def)
qed

text \<open>With nobody waiting, a release needs nothing but a valid owner.\<close>

lemma mutex_release_uncontended:
  assumes "mutexes s m = Some x" "m_wait_count x = 0"
    and "\<forall>o'. owner x = Some o' \<longrightarrow> o' < length (os_tasks s)"
  shows "os_mutex_release m s =
    Some (set_lock m 0 None (s\<lparr>os_tasks := undonated (owner x) (os_tasks s)\<rparr>))"
  using assms drop_donation_eq [of "owner x" "s\<lparr>primask := 1\<rparr>"]
  by (simp add: os_mutex_release_def os_enter_critical_def os_exit_critical_def upd_mutex_def
      set_lock_def pick_waiter_def)

lemma mutex_release_handoff:
  assumes inv: "kinv s" and x: "mutexes s m = Some x" and n: "next_owner m s = Some n"
  obtains s' where "os_mutex_release m s = Some s'" "kinv s'" "pendsv s'"
    "os_tasks s' = (undonated (owner x) (os_tasks s))[n := woken (os_tasks s ! n)]"
    "\<forall>r. waiters s' r = remove1 (Some n) (waiters s r)"
    "\<exists>x'. mutexes s' m = Some x' \<and> lock x' = 1 \<and> owner x' = Some n"
    "obj_cores s' = obj_cores (set_lock m 1 (Some n) s)"
    "primask s' = primask s" "current_tcb s' = current_tcb s" "task_count s' = task_count s"
    "mem s' = mem s" "kernel_running s' = kernel_running s" "halted_in s' = halted_in s"
proof -
  note ok = kinvD(1) [OF inv] and D = waits_okD [OF kinvD(1) [OF inv]]
  note own = mutex_ok_owner [OF inv x]
  have picked: "n < tc s" "Some n \<in> set (waiters s (MutexQ m))"
    using picked_waits [OF ok n [unfolded next_owner_def]] by simp_all
  have locked: "lock x = 1" using own(3,4) picked(2) by force
  have n_own: "owner x \<noteq> Some n" using own(1) picked(2) by blast
  let ?ts = "undonated (owner x) (os_tasks s)"
  let ?s2 = "s\<lparr>primask := 1, os_tasks := ?ts\<rparr>"
  let ?s3 = "set_lock m 1 (Some n) ?s2"
  have "\<forall>o'. owner x = Some o' \<longrightarrow> o' < length (os_tasks s)" using own(1) D(3) by blast
  then have drop: "drop_donation (owner x) (s\<lparr>primask := 1\<rparr>) = Some ?s2"
    using drop_donation_eq [of "owner x" "s\<lparr>primask := 1\<rparr>"] by simp
  have "waits_ok (s\<lparr>primask := 1\<rparr>)" using ok by (simp add: waits_ok_def wait_shape_def)
  then have "waits_ok ?s2" using waits_ok_undonated [of "s\<lparr>primask := 1\<rparr>" "owner x"] own(1) by simp
  then have ok3: "waits_ok ?s3" by simp
  have n3: "n < tc ?s3" using picked(1) by simp
  obtain s4 where s4: "wake_task n ?s3 = Some s4"
    "os_tasks s4 = (os_tasks ?s3)[n := woken (os_tasks ?s3 ! n)]"
    "\<forall>r. waiters s4 r = remove1 (Some n) (waiters ?s3 r)" "waits_ok s4" "wq_frame ?s3 s4"
    by (rule wake_task_effect [OF ok3 n3])
  note fr = wq_frame_fields [OF s4(5), simplified]
  let ?s' = "os_yield (os_exit_critical (primask s) s4)"
  have rel: "os_mutex_release m s = Some ?s'"
    using x drop release_picks [OF inv x] n s4(1) locked
      upd_mutex_set_lock(2) [of ?s2 m x "Some n"]
    by (simp add: os_mutex_release_def os_enter_critical_def)
  have tasks: "os_tasks s4 = ?ts[n := woken (os_tasks s ! n)]"
    using s4(2) n_own by (simp add: undonated_nth)
  have w: "waiters s4 r = remove1 (Some n) (waiters s r)" for r using s4(3) by simp
  have core: "obj_cores s4 = obj_cores (set_lock m 1 (Some n) s)"
    using fr by (simp add: obj_cores_def set_lock_def)
  obtain x' where x': "mutexes s4 m = Some x'" "lock x' = 1" "owner x' = Some n"
  proof -
    have "map_option (\<lambda>x. (lock x, owner x)) (mutexes s4 m) = Some (1, Some n)"
      using fun_cong [OF arg_cong [OF core, of fst], of m] x
      by (simp add: obj_cores_def set_lock_def)
    then show ?thesis using that by auto
  qed
  have "objs_ok s4"
    unfolding objs_ok_def
  proof (intro conjI allI impI)
    fix m' y' assume y': "mutexes s4 m' = Some y'"
    show "mutex_ok s4 m' y'"
    proof (cases "m' = m")
      case True
      with y' x' w D(6) picked(1) fr show ?thesis by (auto simp: mutex_ok_def)
    next
      case False
      obtain y where y: "mutexes s m' = Some y" "lock y = lock y'" "owner y = owner y'"
        using mutex_core [OF core y'] False by (auto simp: set_lock_mutexes)
      then have "mutex_ok s m' y" using kinvD(2) [OF inv] by (auto simp: objs_ok_def)
      with y w fr show ?thesis by (auto simp: mutex_ok_def dest: notin_set_remove1)
    qed
  next
    fix a y' assume "sems s4 a = Some y'"
    then obtain y where y: "sems s a = Some y" "sem_count y = sem_count y'"
      "sem_max_count y = sem_max_count y'" using sem_core [OF core] by fastforce
    then have "sem_ok s a y" using kinvD(2) [OF inv] by (auto simp: objs_ok_def)
    with y w show "sem_ok s4 a y'" by (auto simp: sem_ok_def)
  qed
  moreover have "current_ok s4" using kinvD(3) [OF inv] fr by (simp add: current_ok_def)
  ultimately have "kinv s4" using s4(4) by (simp add: kinv_def)
  then have "kinv ?s'"
    by (simp add: os_yield_def os_exit_critical_def kinv_def waits_ok_def objs_ok_def mutex_ok_def
        sem_ok_def current_ok_def wait_shape_def)
  moreover have "waiters ?s' r = waiters s4 r" "obj_cores ?s' = obj_cores s4" for r
    by (simp_all add: os_yield_def os_exit_critical_def obj_cores_def)
  ultimately show ?thesis
    using that [of ?s'] rel tasks w x' core fr
    by (simp add: os_yield_def os_exit_critical_def)
qed

end
