(* ===== verification/Semaphore.thy ===== *)
theory Semaphore
  imports Mutex
begin

text \<open>
  The counting semaphore of \<^verbatim>\<open>Kernel/os_kernel.c\<close>: \<^verbatim>\<open>os_semaphore_init\<close>,
  \<^verbatim>\<open>os_semaphore_acquire\<close> and \<^verbatim>\<open>os_semaphore_release\<close>. A release with waiters hands
  the token over; without, it adds one up to the maximum.
\<close>

subsection \<open>The model\<close>

definition os_semaphore_init :: "saddr \<Rightarrow> u32 \<Rightarrow> u32 \<Rightarrow> kernel \<Rightarrow> kernel" where
  "os_semaphore_init a initial max_count s = s\<lparr>sems := (sems s)(a \<mapsto> (case sems s a of
       Some x \<Rightarrow> x\<lparr>sem_count := initial, sem_max_count := max_count, s_wait_count := 0\<rparr>
     | None \<Rightarrow> \<lparr>sem_count = initial, sem_max_count = max_count,
                s_wait_queue = replicate MAX_TASKS None, s_wait_count = 0\<rparr>))\<rparr>"

definition os_semaphore_acquire :: "saddr \<Rightarrow> u32 \<Rightarrow> kernel \<Rightarrow> (outcome \<times> kernel) option" where
  "os_semaphore_acquire a timeout s = (let (p, s1) = os_enter_critical s in do {
     x \<leftarrow> sems s1 a;
     if 0 < sem_count x then do {
       s2 \<leftarrow> upd_sem a (\<lambda>x. x\<lparr>sem_count := sem_count x - 1\<rparr>) s1;
       Some (Returned OS_SUCCESS, os_exit_critical p s2) }
     else if timeout = 0 \<or> \<not> kernel_running s1
     then Some (Returned OS_TIMEOUT, os_exit_critical p s1)
     else do {
       (ok, s2) \<leftarrow> block_current (SemQ a) (SemQ a) MAX_TASKS timeout s1;
       if \<not> ok then Some (Returned OS_FAIL, os_exit_critical p s2)
       else Some (Parked, os_yield (os_exit_critical p s2)) } })"

definition os_semaphore_release :: "saddr \<Rightarrow> kernel \<Rightarrow> kernel option" where
  "os_semaphore_release a s = (let (p, s1) = os_enter_critical s in do {
     next \<leftarrow> pick_waiter (SemQ a) s1;
     (case next of
        Some n \<Rightarrow> do {
          s2 \<leftarrow> wake_task n s1;
          Some (os_yield (os_exit_critical p s2)) }
      | None \<Rightarrow> do {
          x \<leftarrow> sems s1 a;
          s2 \<leftarrow> (if sem_count x < sem_max_count x
                 then upd_sem a (\<lambda>x. x\<lparr>sem_count := sem_count x + 1\<rparr>) s1 else Some s1);
          Some (os_exit_critical p s2) }) })"

subsection \<open>Changing the token count\<close>

definition set_tokens :: "saddr \<Rightarrow> u32 \<Rightarrow> kernel \<Rightarrow> kernel" where
  "set_tokens a c s =
     s\<lparr>sems := (sems s)(a := map_option (\<lambda>x. x\<lparr>sem_count := c\<rparr>) (sems s a))\<rparr>"

lemma set_tokens_frame [simp]:
  "os_tasks (set_tokens a c s) = os_tasks s" "task_count (set_tokens a c s) = task_count s"
  "current_tcb (set_tokens a c s) = current_tcb s" "mutexes (set_tokens a c s) = mutexes s"
  "kernel_running (set_tokens a c s) = kernel_running s" "primask (set_tokens a c s) = primask s"
  "pendsv (set_tokens a c s) = pendsv s" "mem (set_tokens a c s) = mem s"
  "queues (set_tokens a c s) = queues s"
  "halted_in (set_tokens a c s) = halted_in s" "os_ticks (set_tokens a c s) = os_ticks s"
  by (simp_all add: set_tokens_def)

lemma set_tokens_waits [simp]:
  "waiters (set_tokens a c s) r = waiters s r" "wait_shape (set_tokens a c s) r = wait_shape s r"
proof -
  have eq: "get_wait_array (set_tokens a c s) r = get_wait_array s r"
    "get_wait_count (set_tokens a c s) r = get_wait_count s r"
    by (cases r; simp add: set_tokens_def option.map_comp o_def)+
  show "waiters (set_tokens a c s) r = waiters s r" "wait_shape (set_tokens a c s) r = wait_shape s r"
    by (simp_all only: waiters_def wait_shape_def eq)
qed

lemma set_tokens_sems:
  "sems (set_tokens a c s) a' =
     (if a' = a then map_option (\<lambda>x. x\<lparr>sem_count := c\<rparr>) (sems s a) else sems s a')"
  by (simp add: set_tokens_def)

lemma kinv_set_tokens:
  assumes "kinv s" and "\<And>x. sems s a = Some x \<Longrightarrow> sem_ok s a (x\<lparr>sem_count := c\<rparr>)"
  shows "kinv (set_tokens a c s)"
  using assms kinvD [OF assms(1)]
  by (auto simp: kinv_def waits_ok_def objs_ok_def set_tokens_sems mutex_ok_def sem_ok_def
      current_ok_def)

subsection \<open>Acquiring\<close>

lemma sem_acquire_token:
  assumes "sems s a = Some x" "sem_count x \<noteq> 0"
  shows "os_semaphore_acquire a timeout s =
    Some (Returned OS_SUCCESS, set_tokens a (sem_count x - 1) s)"
  using assms
  by (simp add: os_semaphore_acquire_def os_enter_critical_def os_exit_critical_def upd_sem_def
      set_tokens_def word_neq_0_conv)

lemma kinv_sem_acquire_token:
  assumes inv: "kinv s" and x: "sems s a = Some x" "sem_count x \<noteq> 0"
  shows "kinv (set_tokens a (sem_count x - 1) s)"
proof (rule kinv_set_tokens [OF inv])
  fix y assume "sems s a = Some y"
  with x have y: "y = x" by simp
  have ok: "sem_ok s a x" using kinvD(2) [OF inv] x(1) by (auto simp: objs_ok_def)
  have "sem_count x - 1 \<le> sem_count x"
    using x(2) by (simp add: word_le_nat_alt unat_dec)
  with ok x(2) y show "sem_ok s a (y\<lparr>sem_count := sem_count x - 1\<rparr>)"
    by (auto simp: sem_ok_def intro: order_trans)
qed

lemma sem_acquire_poll:
  assumes "sems s a = Some x" "sem_count x = 0" "timeout = 0 \<or> \<not> kernel_running s"
  shows "os_semaphore_acquire a timeout s = Some (Returned OS_TIMEOUT, s)"
  using assms by (simp add: os_semaphore_acquire_def os_enter_critical_def)

lemma sem_room:
  assumes "waits_ok s" "running s c"
  shows "length (waiters s r) < MAX_TASKS"
proof -
  have "{c} \<subseteq> {..<tc s}" using assms(2) by (auto simp: running_def)
  then have "length (waiters s r) \<le> tc s - card {c}"
    using running_not_waiting [OF assms] by (intro waiters_room [OF assms(1)]) auto
  with waits_okD(2) [OF assms(1)] assms(2) show ?thesis by (auto simp: running_def)
qed

lemma objs_ok_core:
  assumes inv: "objs_ok s" and core: "obj_cores s' = obj_cores s" and n: "task_count s' = task_count s"
    and m: "\<And>m x. mutexes s m = Some x \<Longrightarrow> mutex_ok s m x \<Longrightarrow> mutex_ok s' m x"
    and a: "\<And>a x. sems s a = Some x \<Longrightarrow> sem_ok s a x \<Longrightarrow> sem_ok s' a x"
  shows "objs_ok s'"
  unfolding objs_ok_def
proof (intro conjI allI impI)
  fix b x' assume "mutexes s' b = Some x'"
  then obtain y where y: "mutexes s b = Some y" "lock y = lock x'" "owner y = owner x'"
    using mutex_core [OF core] by blast
  have "mutex_ok s' b y" using m [OF y(1)] inv y(1) by (auto simp: objs_ok_def)
  with y show "mutex_ok s' b x'" by (simp add: mutex_ok_def)
next
  fix b x' assume "sems s' b = Some x'"
  then obtain y where y: "sems s b = Some y" "sem_count y = sem_count x'"
    "sem_max_count y = sem_max_count x'" using sem_core [OF core] by blast
  have "sem_ok s' b y" using a [OF y(1)] inv y(1) by (auto simp: objs_ok_def)
  with y show "sem_ok s' b x'" by (simp add: sem_ok_def)
qed

lemma sem_acquire_block:
  assumes inv: "kinv s" and run: "running s c" and x: "sems s a = Some x" "sem_count x = 0"
    and n: "timeout \<noteq> 0" "kernel_running s"
  obtains s' where
    "os_semaphore_acquire a timeout s = Some (Parked, s')" "kinv s'" "pendsv s'"
    "os_tasks s' = (os_tasks s)[c := parked (SemQ a) timeout (os_tasks s ! c)]"
    "\<forall>r. waiters s' r = (if r = SemQ a then waiters s r @ [Some c] else waiters s r)"
    "obj_cores s' = obj_cores s" "primask s' = primask s" "current_tcb s' = current_tcb s"
    "task_count s' = task_count s" "mem s' = mem s" "kernel_running s'" "halted_in s' = halted_in s"
proof -
  note ok = kinvD(1) [OF inv]
  have c: "current_tcb s = Some c" "c < tc s" using run by (simp_all add: running_def)
  let ?s1 = "s\<lparr>primask := 1\<rparr>"
  have ok1: "waits_ok ?s1" using ok by (simp add: waits_ok_def wait_shape_def)
  have room: "length (waiters ?s1 (SemQ a)) < wait_capacity (SemQ a)" using sem_room [OF ok run] by simp
  have live: "get_wait_count ?s1 (SemQ a) = Some (s_wait_count x)" using x(1) by simp
  have free: "wait_queue (os_tasks ?s1 ! c) = None" using running_free [OF ok run] by simp
  obtain s2 where s2: "block_current (SemQ a) (SemQ a) (wait_capacity (SemQ a)) timeout ?s1 = Some (True, s2)"
    "os_tasks s2 = (os_tasks ?s1)[c := parked (SemQ a) timeout (os_tasks ?s1 ! c)]"
    "\<forall>r'. waiters s2 r' = (if r' = SemQ a then waiters ?s1 (SemQ a) @ [Some c] else waiters ?s1 r')"
    "waits_ok s2" "wq_frame ?s1 s2"
    using block_current_effect [OF ok1 live room, of c] c free by auto
  note fr = wq_frame_fields [OF s2(5), simplified]
  let ?s' = "os_yield (os_exit_critical (primask s) s2)"
  have run': "os_semaphore_acquire a timeout s = Some (Parked, ?s')"
    using x n s2(1) by (simp add: os_semaphore_acquire_def os_enter_critical_def)
  have core: "obj_cores s2 = obj_cores s" using fr by (simp add: obj_cores_def)
  have "objs_ok s2"
  proof (rule objs_ok_core [OF kinvD(2) [OF inv] core])
    fix m y assume "mutexes s m = Some y" "mutex_ok s m y"
    then show "mutex_ok s2 m y" using s2(3) fr by (auto simp: mutex_ok_def)
  next
    fix b y assume "sems s b = Some y" "sem_ok s b y"
    then show "sem_ok s2 b y" using s2(3) x by (auto simp: sem_ok_def)
  qed (simp add: fr)
  moreover have "current_ok s2" using kinvD(3) [OF inv] fr by (simp add: current_ok_def)
  ultimately have "kinv s2" using s2(4) by (simp add: kinv_def)
  then have "kinv ?s'"
    by (simp add: os_yield_def os_exit_critical_def kinv_def waits_ok_def objs_ok_def mutex_ok_def
        sem_ok_def current_ok_def wait_shape_def)
  moreover have "waiters ?s' r = waiters s2 r" "obj_cores ?s' = obj_cores s2" for r
    by (simp_all add: os_yield_def os_exit_critical_def obj_cores_def)
  ultimately show ?thesis
    using that [of ?s'] run' s2(2,3) core fr n(2)
    by (simp add: os_yield_def os_exit_critical_def)
qed

subsection \<open>Releasing\<close>

definition next_waiter :: "saddr \<Rightarrow> kernel \<Rightarrow> tid option" where
  "next_waiter a s = first_max (prio s) None (map the (waiters s (SemQ a)))"

lemma sem_release_picks:
  assumes inv: "kinv s" and x: "sems s a = Some x"
  shows "pick_waiter (SemQ a) (s\<lparr>primask := 1\<rparr>) = Some (next_waiter a s)"
proof -
  have "waits_ok (s\<lparr>primask := 1\<rparr>)" using kinvD(1) [OF inv] by (simp add: waits_ok_def wait_shape_def)
  moreover have "get_wait_count (s\<lparr>primask := 1\<rparr>) (SemQ a) = Some (s_wait_count x)" using x by simp
  moreover have "prio (s\<lparr>primask := 1\<rparr>) = prio s" by (simp add: prio_def fun_eq_iff)
  ultimately show ?thesis using pick_waiter_effect by (simp add: next_waiter_def)
qed

lemma sem_release_token:
  assumes inv: "kinv s" and x: "sems s a = Some x" and none: "waiters s (SemQ a) = []"
  shows "os_semaphore_release a s = Some (if sem_count x < sem_max_count x
      then set_tokens a (sem_count x + 1) s else s)" (is "_ = Some ?s'")
    and "kinv (if sem_count x < sem_max_count x then set_tokens a (sem_count x + 1) s else s)"
proof -
  have "next_waiter a s = None" using none by (simp add: next_waiter_def)
  with sem_release_picks [OF inv x] x show "os_semaphore_release a s = Some ?s'"
    by (simp add: os_semaphore_release_def os_enter_critical_def os_exit_critical_def upd_sem_def
        set_tokens_def)
  show "kinv ?s'"
  proof (cases "sem_count x < sem_max_count x")
    case True
    have "kinv (set_tokens a (sem_count x + 1) s)"
    proof (rule kinv_set_tokens [OF inv])
      fix y assume "sems s a = Some y"
      moreover have "sem_count x + 1 \<le> sem_max_count x" using True by (rule inc_le)
      ultimately show "sem_ok s a (y\<lparr>sem_count := sem_count x + 1\<rparr>)"
        using x none by (simp add: sem_ok_def)
    qed
    with True show ?thesis by simp
  qed (simp add: inv)
qed

lemma sem_release_uncontended:
  assumes "sems s a = Some x" "s_wait_count x = 0"
  shows "os_semaphore_release a s = Some (if sem_count x < sem_max_count x
      then set_tokens a (sem_count x + 1) s else s)"
  using assms
  by (simp add: os_semaphore_release_def os_enter_critical_def os_exit_critical_def upd_sem_def
      set_tokens_def pick_waiter_def)

lemma sem_release_handoff:
  assumes inv: "kinv s" and x: "sems s a = Some x" and n: "next_waiter a s = Some n"
  obtains s' where "os_semaphore_release a s = Some s'" "kinv s'" "pendsv s'"
    "os_tasks s' = (os_tasks s)[n := woken (os_tasks s ! n)]"
    "\<forall>r. waiters s' r = remove1 (Some n) (waiters s r)" "obj_cores s' = obj_cores s"
    "primask s' = primask s" "current_tcb s' = current_tcb s" "task_count s' = task_count s"
    "mem s' = mem s" "kernel_running s' = kernel_running s" "halted_in s' = halted_in s"
proof -
  let ?s1 = "s\<lparr>primask := 1\<rparr>"
  have ok1: "waits_ok ?s1" using kinvD(1) [OF inv] by (simp add: waits_ok_def wait_shape_def)
  have "n < tc ?s1"
    using picked_waits(1) [OF kinvD(1) [OF inv] n [unfolded next_waiter_def]] by simp
  then obtain s2 where s2: "wake_task n ?s1 = Some s2"
    "os_tasks s2 = (os_tasks ?s1)[n := woken (os_tasks ?s1 ! n)]"
    "\<forall>r. waiters s2 r = remove1 (Some n) (waiters ?s1 r)" "waits_ok s2" "wq_frame ?s1 s2"
    by (rule wake_task_effect [OF ok1])
  note fr = wq_frame_fields [OF s2(5), simplified]
  let ?s' = "os_yield (os_exit_critical (primask s) s2)"
  have run: "os_semaphore_release a s = Some ?s'"
    using sem_release_picks [OF inv x] n s2(1)
    by (simp add: os_semaphore_release_def os_enter_critical_def)
  have core: "obj_cores s2 = obj_cores s" using fr by (simp add: obj_cores_def)
  have "objs_ok s2"
    using s2(3) by (intro objs_ok_remove [OF kinvD(2) [OF inv] _ core]) (auto simp: fr)
  moreover have "current_ok s2" using kinvD(3) [OF inv] fr by (simp add: current_ok_def)
  ultimately have "kinv s2" using s2(4) by (simp add: kinv_def)
  then have "kinv ?s'"
    by (simp add: os_yield_def os_exit_critical_def kinv_def waits_ok_def objs_ok_def mutex_ok_def
        sem_ok_def current_ok_def wait_shape_def)
  moreover have "waiters ?s' r = waiters s2 r" "obj_cores ?s' = obj_cores s2" for r
    by (simp_all add: os_yield_def os_exit_critical_def obj_cores_def)
  ultimately show ?thesis
    using that [of ?s'] run s2(2,3) core fr
    by (simp add: os_yield_def os_exit_critical_def)
qed

subsection \<open>Initialisation\<close>

lemma waiters_init:
  "waiters (os_mutex_init m s) r = (if r = MutexQ m then [] else waiters s r)"
  "waiters (os_semaphore_init a i n s) r = (if r = SemQ a then [] else waiters s r)"
proof -
  show "waiters (os_mutex_init m s) r = (if r = MutexQ m then [] else waiters s r)"
  proof (cases r)
    case (MutexQ m')
    then show ?thesis by (auto simp: waiters_def os_mutex_init_def split: option.splits)
  qed (simp add: waiters_def os_mutex_init_def)
  show "waiters (os_semaphore_init a i n s) r = (if r = SemQ a then [] else waiters s r)"
  proof (cases r)
    case (SemQ a')
    then show ?thesis by (auto simp: waiters_def os_semaphore_init_def split: option.splits)
  qed (simp add: waiters_def os_semaphore_init_def)
qed

lemma wait_shape_init:
  assumes "wait_shape s r"
  shows "wait_shape (os_mutex_init m s) r" "wait_shape (os_semaphore_init a i n s) r"
proof -
  show "wait_shape (os_mutex_init m s) r"
  proof (cases r)
    case (MutexQ m')
    with assms show ?thesis
      by (auto simp: wait_shape_def os_mutex_init_def split: option.splits)
  qed (use assms in \<open>simp add: wait_shape_def os_mutex_init_def\<close>)
  show "wait_shape (os_semaphore_init a i n s) r"
  proof (cases r)
    case (SemQ a')
    with assms show ?thesis
      by (auto simp: wait_shape_def os_semaphore_init_def split: option.splits)
  qed (use assms in \<open>simp add: wait_shape_def os_semaphore_init_def\<close>)
qed

lemma init_frame [simp]:
  "os_tasks (os_mutex_init m s) = os_tasks s" "task_count (os_mutex_init m s) = task_count s"
  "current_tcb (os_mutex_init m s) = current_tcb s" "sems (os_mutex_init m s) = sems s"
  "os_tasks (os_semaphore_init a i n s) = os_tasks s"
  "task_count (os_semaphore_init a i n s) = task_count s"
  "current_tcb (os_semaphore_init a i n s) = current_tcb s"
  "mutexes (os_semaphore_init a i n s) = mutexes s"
  "kernel_running (os_mutex_init m s) = kernel_running s"
  "kernel_running (os_semaphore_init a i n s) = kernel_running s"
  "queues (os_mutex_init m s) = queues s" "queues (os_semaphore_init a i n s) = queues s"
  "mem (os_mutex_init m s) = mem s" "mem (os_semaphore_init a i n s) = mem s"
  "primask (os_mutex_init m s) = primask s" "primask (os_semaphore_init a i n s) = primask s"
  by (simp_all add: os_mutex_init_def os_semaphore_init_def)

lemma kinv_mutex_init:
  assumes inv: "kinv s" and none: "waiters s (MutexQ m) = []"
  shows "kinv (os_mutex_init m s)"
proof -
  have w: "waiters (os_mutex_init m s) r = waiters s r" for r using none by (simp add: waiters_init)
  have "mutex_ok (os_mutex_init m s) m' x'" if x': "mutexes (os_mutex_init m s) m' = Some x'" for m' x'
  proof (cases "m' = m")
    case True
    with x' have "lock x' = 0" "owner x' = None"
      by (auto simp: os_mutex_init_def split: option.splits)
    with True none show ?thesis by (simp add: mutex_ok_def w)
  next
    case False
    with x' have "mutexes s m' = Some x'" by (simp add: os_mutex_init_def)
    then have "mutex_ok s m' x'" using kinvD(2) [OF inv] by (auto simp: objs_ok_def)
    then show ?thesis by (simp add: mutex_ok_def w)
  qed
  then have "objs_ok (os_mutex_init m s)"
    using kinvD(2) [OF inv] by (simp add: objs_ok_def sem_ok_def w)
  with inv wait_shape_init(1) show ?thesis by (auto simp: kinv_def waits_ok_def w current_ok_def)
qed

lemma kinv_semaphore_init:
  assumes inv: "kinv s" and none: "waiters s (SemQ a) = []" and "i \<le> n"
  shows "kinv (os_semaphore_init a i n s)"
proof -
  have w: "waiters (os_semaphore_init a i n s) r = waiters s r" for r
    using none by (simp add: waiters_init)
  have "sem_ok (os_semaphore_init a i n s) a' x'"
    if x': "sems (os_semaphore_init a i n s) a' = Some x'" for a' x'
  proof (cases "a' = a")
    case True
    with x' have "sem_count x' = i" "sem_max_count x' = n"
      by (auto simp: os_semaphore_init_def split: option.splits)
    with True none assms(3) show ?thesis by (simp add: sem_ok_def w)
  next
    case False
    with x' have "sems s a' = Some x'" by (simp add: os_semaphore_init_def)
    then have "sem_ok s a' x'" using kinvD(2) [OF inv] by (auto simp: objs_ok_def)
    then show ?thesis by (simp add: sem_ok_def w)
  qed
  then have "objs_ok (os_semaphore_init a i n s)"
    using kinvD(2) [OF inv] by (simp add: objs_ok_def mutex_ok_def w)
  with inv wait_shape_init(2) show ?thesis by (auto simp: kinv_def waits_ok_def w current_ok_def)
qed

end
