(* ===== verification/Tick.thy ===== *)
theory Tick
  imports Wait_Effects
begin

text \<open>
  Time: \<^verbatim>\<open>SysTick_Handler\<close>, \<^verbatim>\<open>os_delay\<close> and \<^verbatim>\<open>os_get_ticks\<close> of
  \<^verbatim>\<open>Kernel/os_kernel.c\<close>. The main lemma gives the state after a tick TCB by TCB; from it
  follow the invariant and the exact number of ticks a sleep or a timeout lasts.
\<close>

subsection \<open>The model\<close>

text \<open>The body of the handler's loop.\<close>

definition tick_task :: "tid \<Rightarrow> kernel \<Rightarrow> kernel option" where
  "tick_task t s = do {
     x \<leftarrow> get_tcb s t;
     if sleep_time x = 0 then Some s
     else do {
       s1 \<leftarrow> upd_tcb t (\<lambda>x. x\<lparr>sleep_time := sleep_time x - 1\<rparr>) s;
       if sleep_time x - 1 = 0 then do {
         s2 \<leftarrow> (if wait_queue x \<noteq> None then do {
                   s' \<leftarrow> wait_queue_remove t s1;
                   upd_tcb t (\<lambda>x. x\<lparr>wait_result := OS_TIMEOUT\<rparr>) s' }
                 else Some s1);
         upd_tcb t (\<lambda>x. x\<lparr>state := READY\<rparr>) s2 }
       else Some s1 } }"

fun tick_tasks :: "tid list \<Rightarrow> kernel \<Rightarrow> kernel option" where
  "tick_tasks [] s = Some s"
| "tick_tasks (t # ts) s = do { s' \<leftarrow> tick_task t s; tick_tasks ts s' }"

definition SysTick_Handler :: "kernel \<Rightarrow> kernel option" where
  "SysTick_Handler s = do {
     s' \<leftarrow> tick_tasks [0..<tc s] (s\<lparr>os_ticks := os_ticks s + 1\<rparr>);
     Some (os_yield s') }"

definition os_get_ticks :: "kernel \<Rightarrow> u32" where
  "os_get_ticks s = os_ticks s"

definition os_delay :: "u32 \<Rightarrow> kernel \<Rightarrow> kernel option" where
  "os_delay ms s =
     (if \<not> kernel_running s \<or> ms = 0 then Some s
      else do {
        let (p, s1) = os_enter_critical s;
        t \<leftarrow> current_tcb s1;
        s2 \<leftarrow> upd_tcb t (\<lambda>x. x\<lparr>sleep_time := ms, wait_queue := None, wait_count := None,
                state := BLOCKED\<rparr>) s1;
        Some (os_yield (os_exit_critical p s2)) })"

fun ticks :: "nat \<Rightarrow> kernel \<Rightarrow> kernel option" where
  "ticks 0 s = Some s"
| "ticks (Suc n) s = do { s' \<leftarrow> SysTick_Handler s; ticks n s' }"

subsection \<open>One task\<close>

definition ticked :: "tcb \<Rightarrow> tcb" where
  "ticked x =
     (if sleep_time x = 0 then x
      else if sleep_time x = 1 then
        (if wait_queue x = None then x\<lparr>sleep_time := 0, state := READY\<rparr>
         else (unparked (x\<lparr>sleep_time := 0\<rparr>))\<lparr>wait_result := OS_TIMEOUT, state := READY\<rparr>)
      else x\<lparr>sleep_time := sleep_time x - 1\<rparr>)"

lemma word_minus_1_eq_0: "x - 1 = 0 \<longleftrightarrow> x = 1" for x :: u32
  by simp

lemma ticked_task_ok: "task_ok x \<Longrightarrow> task_ok (ticked x)"
  by (auto simp: ticked_def task_ok_def)

lemma tick_task_effect:
  assumes ok: "waits_ok s" and t: "t < tc s"
  obtains s' where "tick_task t s = Some s'"
    "os_tasks s' = (os_tasks s)[t := ticked (os_tasks s ! t)]"
    "\<forall>r. waiters s' r = (if sleep_time (os_tasks s ! t) = 1 then remove1 (Some t) (waiters s r)
                        else waiters s r)"
    "waits_ok s'" "wq_frame s s'"
proof -
  note D = waits_okD [OF ok]
  let ?x = "os_tasks s ! t"
  let ?s1 = "s\<lparr>os_tasks := (os_tasks s)[t := ?x\<lparr>sleep_time := sleep_time ?x - 1\<rparr>]\<rparr>"
  have len: "t < length (os_tasks s)" using D(3) [OF t] .
  have x: "task_ok ?x" using D(4) [OF t] .
  consider (awake) "sleep_time ?x = 0" | (asleep) "sleep_time ?x \<noteq> 0" "sleep_time ?x \<noteq> 1"
    | (expired) "sleep_time ?x = 1" by blast
  then show ?thesis
  proof cases
    case awake
    then have "tick_task t s = Some s" using len by (simp add: tick_task_def get_tcb_def)
    moreover have "os_tasks s = (os_tasks s)[t := ticked ?x]" using awake by (simp add: ticked_def)
    ultimately show ?thesis using that [of s] awake ok by simp
  next
    case asleep
    then have "tick_task t s = Some ?s1"
      using len by (simp add: tick_task_def get_tcb_def upd_tcb_def)
    moreover have "task_ok (?x\<lparr>sleep_time := sleep_time ?x - 1\<rparr>)"
      using x asleep by (auto simp: task_ok_def)
    then have "waits_ok ?s1" by (intro waits_ok_upd_same [OF ok t]) simp_all
    ultimately show ?thesis
      using that [of ?s1] asleep by (simp add: ticked_def wq_frame_tasks)
  next
    case expired
    have "task_ok (?x\<lparr>sleep_time := sleep_time ?x - 1\<rparr>)" using x expired by (auto simp: task_ok_def)
    then have ok1: "waits_ok ?s1" by (intro waits_ok_upd_same [OF ok t]) simp_all
    have x1: "os_tasks ?s1 ! t = ?x\<lparr>sleep_time := 0\<rparr>" using len expired by simp
    show ?thesis
    proof (cases "wait_queue ?x")
      case None
      let ?s' = "s\<lparr>os_tasks := (os_tasks s)[t := ticked ?x]\<rparr>"
      have "tick_task t s = Some ?s'"
        using len expired None by (simp add: tick_task_def get_tcb_def upd_tcb_def ticked_def)
      moreover have "waits_ok ?s'"
        using None expired ticked_task_ok [OF x]
        by (intro waits_ok_upd_same [OF ok t]) (simp_all add: ticked_def)
      moreover have "waiters s r = remove1 (Some t) (waiters s r)" for r
        using remove1_not_waiting [OF ok t] None by simp
      ultimately show ?thesis using that [of ?s'] by (simp add: wq_frame_tasks)
    next
      case (Some r)
      obtain s2 where s2: "wait_queue_remove t ?s1 = Some s2"
        "os_tasks s2 = (os_tasks ?s1)[t := unparked (os_tasks ?s1 ! t)]"
        "\<forall>r. waiters s2 r = remove1 (Some t) (waiters ?s1 r)" "\<forall>r. wait_shape s2 r"
        "wq_frame ?s1 s2"
        using wait_queue_remove_effect [OF ok1, of t] t by auto
      let ?s' = "s2\<lparr>os_tasks := (os_tasks s)[t := ticked ?x]\<rparr>"
      have tasks2: "os_tasks s2 = (os_tasks s)[t := unparked (?x\<lparr>sleep_time := 0\<rparr>)]"
        using s2(2) x1 by simp
      have "tick_task t s = Some ?s'"
        using len expired Some s2(1) tasks2
        by (simp add: tick_task_def get_tcb_def upd_tcb_def ticked_def unparked_def)
      moreover have "waits_ok ?s'"
        using expired Some ticked_task_ok [OF x] s2(3,4) wq_frame_fields(1) [OF s2(5)]
        by (intro waits_ok_unwait [OF ok t, of _ "ticked ?x"]) (simp_all add: ticked_def)
      moreover have "wq_frame s ?s'"
        using wq_frame_tasks s2(5) wq_frame_trans by blast
      ultimately show ?thesis using that [of ?s'] expired s2(3) by simp
    qed
  qed
qed

subsection \<open>All tasks\<close>

definition expired :: "kernel \<Rightarrow> tid \<Rightarrow> bool" where
  "expired s t \<longleftrightarrow> sleep_time (os_tasks s ! t) = 1"

lemma remove1_filter_distinct:
  "distinct xs \<Longrightarrow> remove1 x (filter P xs) = filter (\<lambda>y. P y \<and> y \<noteq> x) xs"
  by (induction xs) (auto simp: filter_id_conv remove1_idem)

lemma tick_tasks_effect:
  assumes "waits_ok s" "n \<le> tc s"
  obtains s' where "tick_tasks [0..<n] s = Some s'"
    "os_tasks s' = map ticked (take n (os_tasks s)) @ drop n (os_tasks s)"
    "\<forall>r. waiters s' r = filter (\<lambda>p. \<not> (the p < n \<and> expired s (the p))) (waiters s r)"
    "waits_ok s'" "wq_frame s s'"
proof -
  have append: "tick_tasks (xs @ ys) s0 = do { s1 \<leftarrow> tick_tasks xs s0; tick_tasks ys s1 }" for xs ys s0
  proof (induction xs arbitrary: s0)
    case (Cons x xs)
    then show ?case by (cases "tick_task x s0") simp_all
  qed simp
  have "\<exists>s'. tick_tasks [0..<n] s = Some s' \<and>
    os_tasks s' = map ticked (take n (os_tasks s)) @ drop n (os_tasks s) \<and>
    (\<forall>r. waiters s' r = filter (\<lambda>p. \<not> (the p < n \<and> expired s (the p))) (waiters s r)) \<and>
    waits_ok s' \<and> wq_frame s s'"
    using assms(2)
  proof (induction n)
    case 0
    show ?case using assms(1) by simp
  next
    case (Suc n)
    then obtain s1 where s1: "tick_tasks [0..<n] s = Some s1"
      "os_tasks s1 = map ticked (take n (os_tasks s)) @ drop n (os_tasks s)"
      "\<And>r. waiters s1 r = filter (\<lambda>p. \<not> (the p < n \<and> expired s (the p))) (waiters s r)"
      "waits_ok s1" "wq_frame s s1" by auto
    have n: "n < tc s1" using Suc.prems wq_frame_fields(1) [OF s1(5)] by simp
    have len: "n < length (os_tasks s)" using waits_okD(3) [OF assms(1)] Suc.prems by simp
    have nth: "os_tasks s1 ! n = os_tasks s ! n"
      using s1(2) len by (simp add: nth_append min_def)
    obtain s2 where s2: "tick_task n s1 = Some s2"
      "os_tasks s2 = (os_tasks s1)[n := ticked (os_tasks s ! n)]"
      "\<And>r. waiters s2 r = (if expired s n then remove1 (Some n) (waiters s1 r) else waiters s1 r)"
      "waits_ok s2" "wq_frame s1 s2"
      using tick_task_effect [OF s1(4) n] nth by (metis expired_def)
    have "os_tasks s2 = map ticked (take (Suc n) (os_tasks s)) @ drop (Suc n) (os_tasks s)"
    proof -
      have "drop n (os_tasks s) = os_tasks s ! n # drop (Suc n) (os_tasks s)"
        using len by (simp add: Cons_nth_drop_Suc)
      moreover have "length (map ticked (take n (os_tasks s))) = n" using len by simp
      ultimately show ?thesis
        using len by (simp add: s2(2) s1(2) list_update_append take_Suc_conv_app_nth)
    qed
    moreover have "waiters s2 r = filter (\<lambda>p. \<not> (the p < Suc n \<and> expired s (the p))) (waiters s r)" for r
    proof (cases "expired s n")
      case True
      have "waiters s2 r = filter (\<lambda>p. \<not> (the p < n \<and> expired s (the p)) \<and> p \<noteq> Some n) (waiters s r)"
        using True s2(3) s1(3) waits_okD(6) [OF assms(1)] by (simp add: remove1_filter_distinct)
      also have "\<dots> = filter (\<lambda>p. \<not> (the p < Suc n \<and> expired s (the p))) (waiters s r)"
      proof (rule filter_cong [OF refl])
        fix p assume "p \<in> set (waiters s r)"
        then obtain t where "p = Some t" using waits_okD(7) [OF assms(1)] by blast
        with True show "(\<not> (the p < n \<and> expired s (the p)) \<and> p \<noteq> Some n) =
            (\<not> (the p < Suc n \<and> expired s (the p)))"
          by (auto simp: less_Suc_eq)
      qed
      finally show ?thesis .
    next
      case False
      then have "the p < Suc n \<and> expired s (the p) \<longleftrightarrow> the p < n \<and> expired s (the p)" for p
        by (auto simp: less_Suc_eq)
      with False s2(3) s1(3) show ?thesis by simp
    qed
    moreover have "tick_tasks [0..<Suc n] s = Some s2"
      using s1(1) s2(1) by (simp add: append)
    moreover have "wq_frame s s2" using s1(5) s2(5) wq_frame_trans by blast
    ultimately show ?case using s2(4) by blast
  qed
  then show ?thesis using that by blast
qed

subsection \<open>The handler\<close>

lemma kinv_upd_ticks: "kinv (s\<lparr>os_ticks := n\<rparr>) = kinv s" "kinv (s\<lparr>pendsv := b\<rparr>) = kinv s"
  "kinv (s\<lparr>primask := p\<rparr>) = kinv s"
  by (simp_all add: kinv_def waits_ok_def objs_ok_def mutex_ok_def sem_ok_def current_ok_def
      wait_shape_def)

lemma filter_as_remove:
  assumes "objs_ok s" "\<forall>r. \<exists>P. waiters s' r = filter P (waiters s r)"
    "obj_cores s' = obj_cores s" "task_count s' = task_count s"
  shows "objs_ok s'"
  unfolding objs_ok_def
proof (intro conjI allI impI)
  fix m x' assume "mutexes s' m = Some x'"
  then obtain x where x: "mutexes s m = Some x" "lock x = lock x'" "owner x = owner x'"
    using mutex_core [OF assms(3)] by blast
  obtain P where "waiters s' (MutexQ m) = filter P (waiters s (MutexQ m))" using assms(2) by blast
  moreover have "mutex_ok s m x" using assms(1) x(1) by (auto simp: objs_ok_def)
  ultimately show "mutex_ok s' m x'" using x assms(4) by (auto simp: mutex_ok_def)
next
  fix a x' assume "sems s' a = Some x'"
  then obtain x where x: "sems s a = Some x" "sem_count x = sem_count x'"
    "sem_max_count x = sem_max_count x'" using sem_core [OF assms(3)] by blast
  obtain P where "waiters s' (SemQ a) = filter P (waiters s (SemQ a))" using assms(2) by blast
  moreover have "sem_ok s a x" using assms(1) x(1) by (auto simp: objs_ok_def)
  ultimately show "sem_ok s' a x'" using x by (auto simp: sem_ok_def)
qed

lemma systick_effect:
  assumes inv: "kinv s"
  obtains s' where "SysTick_Handler s = Some s'" "kinv s'"
    "\<forall>t<tc s. os_tasks s' ! t = ticked (os_tasks s ! t)"
    "\<forall>r. waiters s' r = filter (\<lambda>p. \<not> expired s (the p)) (waiters s r)"
    "os_ticks s' = os_ticks s + 1" "pendsv s'" "task_count s' = task_count s"
    "current_tcb s' = current_tcb s" "kernel_running s' = kernel_running s" "mem s' = mem s"
    "primask s' = primask s" "halted_in s' = halted_in s" "obj_cores s' = obj_cores s"
proof -
  let ?s0 = "s\<lparr>os_ticks := os_ticks s + 1\<rparr>"
  have ok0: "waits_ok ?s0" using inv kinv_upd_ticks(1) by blast
  obtain s1 where s1: "tick_tasks [0..<tc s] ?s0 = Some s1"
    "os_tasks s1 = map ticked (take (tc s) (os_tasks ?s0)) @ drop (tc s) (os_tasks ?s0)"
    "\<forall>r. waiters s1 r = filter (\<lambda>p. \<not> (the p < tc s \<and> expired ?s0 (the p))) (waiters ?s0 r)"
    "waits_ok s1" "wq_frame ?s0 s1"
    by (rule tick_tasks_effect [OF ok0, of "tc s"]) simp_all
  note fr = wq_frame_fields [OF s1(5), simplified]
  have w: "waiters s1 r = filter (\<lambda>p. \<not> expired s (the p)) (waiters s r)" for r
  proof -
    have "waiters s1 r = filter (\<lambda>p. \<not> (the p < tc s \<and> expired s (the p))) (waiters s r)"
      using s1(3) by (simp add: expired_def)
    also have "\<dots> = filter (\<lambda>p. \<not> expired s (the p)) (waiters s r)"
      using waits_okD(7) [OF kinvD(1) [OF inv]] by (intro filter_cong [OF refl]) fastforce
    finally show ?thesis .
  qed
  have core: "obj_cores s1 = obj_cores s" using fr by (simp add: obj_cores_def)
  have "objs_ok s1"
    using w by (intro filter_as_remove [OF kinvD(2) [OF inv] _ core]) (auto simp: fr)
  moreover have "current_ok s1" using kinvD(3) [OF inv] by (simp add: current_ok_def fr)
  ultimately have "kinv s1" using s1(4) by (simp add: kinv_def)
  then have "kinv (os_yield s1)" by (simp add: os_yield_def kinv_upd_ticks)
  moreover have "os_tasks s1 ! t = ticked (os_tasks s ! t)" if "t < tc s" for t
    using s1(2) waits_okD(1,2) [OF kinvD(1) [OF inv]] that by (simp add: nth_append min_def)
  ultimately show ?thesis
    using that [of "os_yield s1"] s1(1) w fr core
    by (simp add: SysTick_Handler_def os_yield_def obj_cores_def)
qed

subsection \<open>A sleep or a timeout lasts exactly as many ticks as were asked for\<close>

definition asleep_for :: "nat \<Rightarrow> tid \<Rightarrow> kernel \<Rightarrow> bool" where
  "asleep_for n t s \<longleftrightarrow> kinv s \<and> t < tc s \<and> 0 < n \<and> unat (sleep_time (os_tasks s ! t)) = n"

lemma asleep_blocked: "asleep_for n t s \<Longrightarrow> state (os_tasks s ! t) = BLOCKED"
proof -
  assume a: "asleep_for n t s"
  then have "task_ok (os_tasks s ! t)" using waits_okD(4) by (auto simp: asleep_for_def)
  with a show ?thesis by (auto simp: asleep_for_def task_ok_def)
qed

lemma asleep_tick:
  assumes "asleep_for (Suc (Suc n)) t s"
  obtains s' where "SysTick_Handler s = Some s'" "asleep_for (Suc n) t s'"
    "wait_queue (os_tasks s' ! t) = wait_queue (os_tasks s ! t)"
proof -
  from assms have inv: "kinv s" and t: "t < tc s"
    and n: "unat (sleep_time (os_tasks s ! t)) = Suc (Suc n)" by (simp_all add: asleep_for_def)
  obtain s' where s': "SysTick_Handler s = Some s'" "kinv s'"
    "\<forall>t<tc s. os_tasks s' ! t = ticked (os_tasks s ! t)" "task_count s' = task_count s"
    by (rule systick_effect [OF inv])
  have ne: "sleep_time (os_tasks s ! t) \<noteq> 0" "sleep_time (os_tasks s ! t) \<noteq> 1" using n by auto
  then have tick: "os_tasks s' ! t =
      (os_tasks s ! t)\<lparr>sleep_time := sleep_time (os_tasks s ! t) - 1\<rparr>"
    using s'(3) t by (simp add: ticked_def)
  have "unat (sleep_time (os_tasks s ! t) - 1) = Suc n" using n ne by (simp add: unat_dec)
  then have "asleep_for (Suc n) t s'" using s' t tick by (simp add: asleep_for_def)
  with that [of s'] s'(1) tick show ?thesis by simp
qed

lemma last_tick:
  assumes "asleep_for (Suc 0) t s"
  obtains s' where "SysTick_Handler s = Some s'" "kinv s'" "state (os_tasks s' ! t) = READY"
    "sleep_time (os_tasks s' ! t) = 0" "\<forall>r. Some t \<notin> set (waiters s' r)"
    "wait_queue (os_tasks s ! t) \<noteq> None \<longrightarrow> wait_result (os_tasks s' ! t) = OS_TIMEOUT"
proof -
  from assms have inv: "kinv s" and t: "t < tc s"
    and n: "unat (sleep_time (os_tasks s ! t)) = 1" by (simp_all add: asleep_for_def)
  obtain s' where s': "SysTick_Handler s = Some s'" "kinv s'"
    "\<forall>t<tc s. os_tasks s' ! t = ticked (os_tasks s ! t)" "task_count s' = task_count s"
    by (rule systick_effect [OF inv])
  have one: "sleep_time (os_tasks s ! t) = 1" using n by (simp add: word_unat_eq_iff)
  have tick: "os_tasks s' ! t = ticked (os_tasks s ! t)" using s'(3) t by simp
  have idle: "wait_queue (os_tasks s' ! t) = None" using tick one by (simp add: ticked_def)
  have "\<forall>r. Some t \<notin> set (waiters s' r)"
    using waits_okD(8) [OF kinvD(1) [OF s'(2)], of t] s'(4) t idle by simp
  then show ?thesis using that [of s'] s'(1,2) tick one by (auto simp: ticked_def)
qed

lemma ticks_before:
  "asleep_for n t s \<Longrightarrow> k < n \<Longrightarrow> \<exists>s'. ticks k s = Some s' \<and> asleep_for (n - k) t s' \<and>
     wait_queue (os_tasks s' ! t) = wait_queue (os_tasks s ! t)"
proof (induction k arbitrary: n s)
  case (Suc k)
  then obtain m where n: "n = Suc (Suc m)" by (metis Suc_less_eq2 less_imp_Suc_add add_Suc_right)
  obtain s1 where s1: "SysTick_Handler s = Some s1" "asleep_for (Suc m) t s1"
    "wait_queue (os_tasks s1 ! t) = wait_queue (os_tasks s ! t)"
    by (rule asleep_tick [OF Suc.prems(1) [unfolded n]])
  with Suc.IH [OF s1(2)] Suc.prems(2) n show ?case by simp
qed simp

lemma ticks_snoc: "ticks (Suc n) s = do { s' \<leftarrow> ticks n s; SysTick_Handler s' }"
proof (induction n arbitrary: s)
  case (Suc n)
  show ?case
  proof (cases "SysTick_Handler s")
    case (Some s1)
    then have "ticks (Suc (Suc n)) s = ticks (Suc n) s1" by simp
    also have "\<dots> = do { s' \<leftarrow> ticks n s1; SysTick_Handler s' }" by (rule Suc.IH)
    also have "\<dots> = do { s' \<leftarrow> ticks (Suc n) s; SysTick_Handler s' }" using Some by simp
    finally show ?thesis .
  qed simp
next
  case 0
  show ?case by (cases "SysTick_Handler s") simp_all
qed

lemma ticks_wake:
  assumes a: "asleep_for n t s"
  obtains s' where "ticks n s = Some s'" "kinv s'" "state (os_tasks s' ! t) = READY"
    "sleep_time (os_tasks s' ! t) = 0" "\<forall>r. Some t \<notin> set (waiters s' r)"
    "wait_queue (os_tasks s ! t) \<noteq> None \<longrightarrow> wait_result (os_tasks s' ! t) = OS_TIMEOUT"
proof -
  obtain m where n: "n = Suc m" using a by (cases n) (auto simp: asleep_for_def)
  obtain s1 where s1: "ticks m s = Some s1" "asleep_for (Suc 0) t s1"
    "wait_queue (os_tasks s1 ! t) = wait_queue (os_tasks s ! t)"
    using ticks_before [OF a, of m] n by auto
  obtain s' where "SysTick_Handler s1 = Some s'" "kinv s'" "state (os_tasks s' ! t) = READY"
    "sleep_time (os_tasks s' ! t) = 0" "\<forall>r. Some t \<notin> set (waiters s' r)"
    "wait_queue (os_tasks s1 ! t) \<noteq> None \<longrightarrow> wait_result (os_tasks s' ! t) = OS_TIMEOUT"
    by (rule last_tick [OF s1(2)])
  with s1 that [of s'] show ?thesis unfolding n ticks_snoc by simp
qed

end
