(* ===== verification/Kernel_System.thy ===== *)
theory Kernel_System
  imports Context_Switch Semaphore Tick
begin

text \<open>
  The running system: threads call the kernel, write memory and are preempted; the tick and
  an interrupt handler that posts a semaphore come at any time; a pending switch is served
  before any thread goes on. The step relation interleaves these without constraint, and
  the lemmas establish its invariant and what follows from it: mutual exclusion, one
  running task, and a CPU that is never left without a task.
\<close>

subsection \<open>Events\<close>

datatype event =
    Tick
  | Switch cpu
  | Isr_give saddr
  | Lock maddr u32
  | Unlock maddr
  | Take saddr u32
  | Give saddr
  | Sleep u32
  | Store u32 u32

text \<open>
  What an event does to the kernel's state. \<open>Switch\<close> is \<^verbatim>\<open>PendSV_Handler\<close> between the
  exception entry from the interrupted thread and the return into the chosen one.
\<close>

fun exec :: "event \<Rightarrow> kernel \<Rightarrow> kernel option" where
  "exec Tick s = SysTick_Handler s"
| "exec (Switch c) s = map_option snd (context_switch c s)"
| "exec (Isr_give a) s = os_semaphore_release a s"
| "exec (Lock m timeout) s = map_option snd (os_mutex_acquire m timeout s)"
| "exec (Unlock m) s = os_mutex_release m s"
| "exec (Take a timeout) s = map_option snd (os_semaphore_acquire a timeout s)"
| "exec (Give a) s = os_semaphore_release a s"
| "exec (Sleep ms) s = os_delay ms s"
| "exec (Store a v) s = Some (s\<lparr>mem := (mem s)(a := v)\<rparr>)"

text \<open>Which object an event needs, and whether the calling thread may be blocked by it.\<close>

fun object_ready :: "event \<Rightarrow> kernel \<Rightarrow> bool" where
  "object_ready (Isr_give a) s = (sems s a \<noteq> None)"
| "object_ready (Lock m _) s = (mutexes s m \<noteq> None)"
| "object_ready (Unlock m) s = (mutexes s m \<noteq> None)"
| "object_ready (Take a _) s = (sems s a \<noteq> None)"
| "object_ready (Give a) s = (sems s a \<noteq> None)"
| "object_ready _ s = True"

fun may_block :: "event \<Rightarrow> bool" where
  "may_block (Lock _ timeout) = (timeout \<noteq> 0)"
| "may_block (Take _ timeout) = (timeout \<noteq> 0)"
| "may_block (Sleep ms) = (ms \<noteq> 0)"
| "may_block _ = False"

fun by_thread :: "event \<Rightarrow> bool" where
  "by_thread Tick = False"
| "by_thread (Switch _) = False"
| "by_thread (Isr_give _) = False"
| "by_thread _ = True"

text \<open>
  When an event can happen: a switch when it is pending, a thread's event when its task is
  the running one and no switch is pending. \<open>idle\<close> is the task that never blocks. Nothing
  happens once the overflow hook has been entered.
\<close>

definition enabled :: "tid \<Rightarrow> kernel \<Rightarrow> event \<Rightarrow> bool" where
  "enabled idle s e \<longleftrightarrow> halted_in s = None \<and> object_ready e s \<and>
     (case e of Switch c \<Rightarrow> pendsv s | _ \<Rightarrow> True) \<and>
     (by_thread e \<longrightarrow> \<not> pendsv s \<and> (case current_tcb s of None \<Rightarrow> False
        | Some c \<Rightarrow> running s c \<and> (may_block e \<longrightarrow> c \<noteq> idle)))"

inductive step :: "tid \<Rightarrow> kernel \<Rightarrow> event \<Rightarrow> kernel \<Rightarrow> bool" for idle where
  exec: "enabled idle s e \<Longrightarrow> exec e s = Some s' \<Longrightarrow> step idle s e s'"

inductive_simps step_iff: "step idle s e s'"

inductive reachable :: "tid \<Rightarrow> kernel \<Rightarrow> kernel \<Rightarrow> bool" for idle s0 where
  start: "reachable idle s0 s0"
| later: "reachable idle s0 s \<Longrightarrow> step idle s e s' \<Longrightarrow> reachable idle s0 s'"

subsection \<open>What every event but a switch keeps\<close>

definition sys_inv :: "tid \<Rightarrow> kernel \<Rightarrow> bool" where
  "sys_inv idle s \<longleftrightarrow> kinv s \<and> one_running s \<and> kernel_running s \<and> runnable_at s idle \<and>
     current_tcb s \<noteq> None \<and> (halted_in s = None \<longrightarrow> \<not> pendsv s \<longrightarrow> (\<exists>c. running s c))"

text \<open>
  \<open>B\<close> is the set of tasks that may be blocked on the way. An event that does not ask for a
  switch leaves every task in its state.
\<close>

definition keeps :: "tid set \<Rightarrow> kernel \<Rightarrow> kernel \<Rightarrow> bool" where
  "keeps B s s' \<longleftrightarrow> kinv s' \<and> task_count s' = task_count s \<and> current_tcb s' = current_tcb s \<and>
     kernel_running s' = kernel_running s \<and> halted_in s' = halted_in s \<and>
     (\<forall>t<tc s. state (os_tasks s' ! t) = RUNNING \<longrightarrow> state (os_tasks s ! t) = RUNNING) \<and>
     (\<forall>t<tc s. t \<notin> B \<longrightarrow> runnable (os_tasks s ! t) \<longrightarrow> runnable (os_tasks s' ! t)) \<and>
     (\<not> pendsv s' \<longrightarrow> \<not> pendsv s \<and> (\<forall>t<tc s. state (os_tasks s' ! t) = state (os_tasks s ! t)))"

lemma keeps_refl: "kinv s \<Longrightarrow> keeps B s s"
  by (simp add: keeps_def)

lemma keeps_sys_inv:
  assumes inv: "sys_inv idle s" and k: "keeps B s s'" and i: "idle \<notin> B"
  shows "sys_inv idle s'"
proof -
  from inv have I: "kinv s" "one_running s" "kernel_running s" "runnable_at s idle"
    "current_tcb s \<noteq> None" "halted_in s = None \<longrightarrow> \<not> pendsv s \<longrightarrow> (\<exists>c. running s c)" by (simp_all add: sys_inv_def)
  from k have "one_running s'" using I(2) by (auto simp: keeps_def one_running_def)
  moreover from k i I(4) have "runnable_at s' idle" by (auto simp: keeps_def)
  moreover have "\<exists>c. running s' c" if "halted_in s' = None" "\<not> pendsv s'"
    using k I(6) that by (auto simp: keeps_def running_def)
  ultimately show ?thesis using k I(3,5) by (simp add: sys_inv_def keeps_def)
qed

lemma runnable_iff: "runnable x \<longleftrightarrow> state x = READY \<or> state x = RUNNING"
  by (auto simp: runnable_def)

lemma woken_state [simp]: "state (woken x) = READY"
  by (simp add: woken_def)

lemma parked_state [simp]: "state (parked r timeout x) = BLOCKED"
  by (simp add: parked_def)

lemma undonated_state: "state (undonated w ts ! t) = state (ts ! t)"
  by (simp add: undonated_nth)

lemma donated_state: "state (donated c w ts ! t) = state (ts ! t)"
  by (cases "w < length ts"; cases "t = w") (simp_all add: donated_def list_update_beyond)

lemma keeps_tick:
  assumes "kinv s" obtains s' where "SysTick_Handler s = Some s'" "keeps {} s s'"
proof -
  obtain s' where s': "SysTick_Handler s = Some s'" "kinv s'"
    "\<forall>t<tc s. os_tasks s' ! t = ticked (os_tasks s ! t)" "pendsv s'" "task_count s' = task_count s"
    "current_tcb s' = current_tcb s" "kernel_running s' = kernel_running s" "halted_in s' = halted_in s"
    by (rule systick_effect [OF assms])
  have st: "state (ticked x) = READY \<or> state (ticked x) = state x" for x
    by (simp add: ticked_def unparked_def)
  have "state (os_tasks s ! t) = RUNNING" if "t < tc s" "state (os_tasks s' ! t) = RUNNING" for t
    using st [of "os_tasks s ! t"] s'(3) that by auto
  moreover have "runnable (os_tasks s' ! t)" if "t < tc s" "runnable (os_tasks s ! t)" for t
    using st [of "os_tasks s ! t"] s'(3) that by (auto simp: runnable_iff)
  ultimately show ?thesis using that [OF s'(1)] s' by (simp add: keeps_def)
qed

lemma keeps_update:
  assumes "kinv s'" "task_count s' = task_count s" "current_tcb s' = current_tcb s"
    "kernel_running s' = kernel_running s" "halted_in s' = halted_in s" "pendsv s'"
    and "os_tasks s' = ts[t := x]" "state x = READY \<or> state x = BLOCKED \<and> t \<in> B"
    and "\<And>u. state (ts ! u) = state (os_tasks s ! u)" "t < length ts"
  shows "keeps B s s'"
proof -
  have st: "state (os_tasks s' ! u) = (if u = t then state x else state (os_tasks s ! u))" for u
    using assms(7,9,10) by (auto simp: nth_list_update)
  show ?thesis using assms(1-6,8) by (auto simp: keeps_def st runnable_iff)
qed

lemma keeps_same:
  assumes "kinv s'" "task_count s' = task_count s" "current_tcb s' = current_tcb s"
    "kernel_running s' = kernel_running s" "halted_in s' = halted_in s" "pendsv s' = pendsv s"
    and "\<And>u. state (os_tasks s' ! u) = state (os_tasks s ! u)"
  shows "keeps B s s'"
  using assms by (simp add: keeps_def runnable_iff)

lemma mutex_ok_of: "kinv s \<Longrightarrow> mutexes s m = Some x \<Longrightarrow> mutex_ok s m x"
  using kinvD(2) [of s] by (simp add: objs_ok_def)

lemma sem_ok_of: "kinv s \<Longrightarrow> sems s a = Some x \<Longrightarrow> sem_ok s a x"
  using kinvD(2) [of s] by (simp add: objs_ok_def)

lemma kinv_mutex_free:
  assumes "kinv s" "running s c" "mutexes s m = Some x" "lock x = 0"
  shows "kinv (set_lock m 1 (Some c) s)"
proof (rule kinv_set_lock [OF assms(1)])
  fix y
  have "waiters s (MutexQ m) = []" using mutex_ok_owner(4) [OF assms(1,3,4)] .
  with assms(2) show "mutex_ok s m (y\<lparr>lock := 1, owner := Some c\<rparr>)"
    by (simp add: mutex_ok_def running_def)
qed

lemma keeps_lock:
  assumes inv: "kinv s" and run: "running s c" and x: "mutexes s m = Some x" and k: "kernel_running s"
  obtains r s' where "os_mutex_acquire m timeout s = Some (r, s')"
    "keeps (if timeout = 0 then {} else {c}) s s'" "r \<noteq> Returned OS_FAIL \<or> owner x = Some c"
  using x
proof (cases rule: mutex_acquire_cases [where timeout = timeout])
  case 1
  have c: "current_tcb s = Some c" using run by (simp add: running_def)
  have "keeps B s (set_lock m 1 (Some c) s)" for B
    using kinv_mutex_free [OF inv run x 1] by (intro keeps_same) simp_all
  with that mutex_acquire_free [OF x 1] c show ?thesis by simp
next
  case 2
  with that mutex_acquire_own [OF x] keeps_refl [OF inv] run show ?thesis by (simp add: running_def)
next
  case 3
  with that mutex_acquire_poll [OF x] keeps_refl [OF inv] show ?thesis by simp
next
  case 4
  have "owner x \<noteq> Some c" using 4(2) run by (simp add: running_def)
  then obtain o' s' where s': "os_mutex_acquire m timeout s = Some (Parked, s')" "kinv s'" "pendsv s'"
    "os_tasks s' = (donated c o' (os_tasks s))[c := parked (MutexQ m) timeout (os_tasks s ! c)]"
    "current_tcb s' = current_tcb s" "task_count s' = task_count s" "kernel_running s'"
    "halted_in s' = halted_in s"
    using mutex_acquire_block [OF inv run x 4(1) _ 4(3,4)] by metis
  have "c < length (donated c o' (os_tasks s))"
    using run waits_okD(3) [OF kinvD(1) [OF inv]] by (simp add: running_def donated_def)
  with s' k have "keeps {c} s s'"
    by (intro keeps_update [OF s'(2,6,5) _ s'(8,3,4)]) (simp_all add: donated_state)
  with that s'(1) 4(3) show ?thesis by simp
qed

lemma keeps_unlock:
  assumes inv: "kinv s" and x: "mutexes s m = Some x"
  obtains s' where "os_mutex_release m s = Some s'" "keeps {} s s'"
proof (cases "next_owner m s")
  case None
  then have none: "waiters s (MutexQ m) = []" by (simp add: next_owner_def)
  have "keeps {} s (set_lock m 0 None (s\<lparr>os_tasks := undonated (owner x) (os_tasks s)\<rparr>))"
    using mutex_release_last(2) [OF inv x none] by (intro keeps_same) (simp_all add: undonated_state)
  with that mutex_release_last(1) [OF inv x none] show ?thesis by blast
next
  case (Some n)
  obtain s' where s': "os_mutex_release m s = Some s'" "kinv s'" "pendsv s'"
    "os_tasks s' = (undonated (owner x) (os_tasks s))[n := woken (os_tasks s ! n)]"
    "current_tcb s' = current_tcb s" "task_count s' = task_count s"
    "kernel_running s' = kernel_running s" "halted_in s' = halted_in s"
    by (rule mutex_release_handoff [OF inv x Some])
  have "n < tc s" using picked_waits(1) [OF kinvD(1) [OF inv] Some [unfolded next_owner_def]] .
  then have "n < length (undonated (owner x) (os_tasks s))"
    using waits_okD(3) [OF kinvD(1) [OF inv]] by simp
  then have "keeps {} s s'"
    by (intro keeps_update [OF s'(2,6,5,7,8,3,4)]) (simp_all add: undonated_state)
  with that s'(1) show ?thesis by blast
qed

lemma keeps_take:
  assumes inv: "kinv s" and run: "running s c" and x: "sems s a = Some x" and k: "kernel_running s"
  obtains r s' where "os_semaphore_acquire a timeout s = Some (r, s')"
    "keeps (if timeout = 0 then {} else {c}) s s'" "r \<noteq> Returned OS_FAIL"
proof -
  consider "sem_count x \<noteq> 0" | "sem_count x = 0" "timeout = 0" | "sem_count x = 0" "timeout \<noteq> 0" by blast
  then show ?thesis
  proof cases
    case 1
    have "keeps B s (set_tokens a (sem_count x - 1) s)" for B
      using kinv_sem_acquire_token [OF inv x 1] by (intro keeps_same) simp_all
    with that sem_acquire_token [OF x 1] show ?thesis by simp
  next
    case 2
    with that sem_acquire_poll [OF x, of timeout] keeps_refl [OF inv] show ?thesis by simp
  next
    case 3
    obtain s' where s': "os_semaphore_acquire a timeout s = Some (Parked, s')" "kinv s'" "pendsv s'"
      "os_tasks s' = (os_tasks s)[c := parked (SemQ a) timeout (os_tasks s ! c)]"
      "current_tcb s' = current_tcb s" "task_count s' = task_count s" "kernel_running s'"
      "halted_in s' = halted_in s"
      by (rule sem_acquire_block [OF inv run x 3 k])
    have "c < length (os_tasks s)"
      using run waits_okD(3) [OF kinvD(1) [OF inv]] by (simp add: running_def)
    with s' k have "keeps {c} s s'"
      by (intro keeps_update [OF s'(2,6,5) _ s'(8,3,4)]) simp_all
    with that s'(1) 3(2) show ?thesis by simp
  qed
qed

lemma keeps_give:
  assumes inv: "kinv s" and x: "sems s a = Some x"
  obtains s' where "os_semaphore_release a s = Some s'" "keeps {} s s'"
proof (cases "next_waiter a s")
  case None
  then have none: "waiters s (SemQ a) = []" by (simp add: next_waiter_def)
  have "keeps {} s (if sem_count x < sem_max_count x then set_tokens a (sem_count x + 1) s else s)"
    using sem_release_token(2) [OF inv x none] by (intro keeps_same) simp_all
  with that sem_release_token(1) [OF inv x none] show ?thesis by blast
next
  case (Some n)
  obtain s' where s': "os_semaphore_release a s = Some s'" "kinv s'" "pendsv s'"
    "os_tasks s' = (os_tasks s)[n := woken (os_tasks s ! n)]"
    "current_tcb s' = current_tcb s" "task_count s' = task_count s"
    "kernel_running s' = kernel_running s" "halted_in s' = halted_in s"
    by (rule sem_release_handoff [OF inv x Some])
  have "n < tc s" using picked_waits(1) [OF kinvD(1) [OF inv] Some [unfolded next_waiter_def]] .
  then have "n < length (os_tasks s)" using waits_okD(3) [OF kinvD(1) [OF inv]] by simp
  then have "keeps {} s s'" by (intro keeps_update [OF s'(2,6,5,7,8,3,4)]) simp_all
  with that s'(1) show ?thesis by blast
qed

text \<open>\<^verbatim>\<open>os_delay\<close> by the running task, which waits for nothing.\<close>

definition asleep :: "u32 \<Rightarrow> tcb \<Rightarrow> tcb" where
  "asleep ms x = x\<lparr>sleep_time := ms, wait_queue := None, wait_count := None, state := BLOCKED\<rparr>"

lemma os_delay_effect:
  assumes inv: "kinv s" and run: "running s c" and k: "kernel_running s" and ms: "ms \<noteq> 0"
  shows "os_delay ms s = Some (s\<lparr>os_tasks := (os_tasks s)[c := asleep ms (os_tasks s ! c)],
      pendsv := True\<rparr>)" (is "_ = Some ?s'")
    and "kinv (s\<lparr>os_tasks := (os_tasks s)[c := asleep ms (os_tasks s ! c)], pendsv := True\<rparr>)"
proof -
  note ok = kinvD(1) [OF inv]
  have c: "current_tcb s = Some c" "c < tc s" using run by (simp_all add: running_def)
  then have len: "c < length (os_tasks s)" using waits_okD(3) [OF ok] by blast
  show "os_delay ms s = Some ?s'"
    using k ms c len by (simp add: os_delay_def os_enter_critical_def os_exit_critical_def os_yield_def
        upd_tcb_def asleep_def)
  have "waits_ok (s\<lparr>os_tasks := (os_tasks s)[c := asleep ms (os_tasks s ! c)]\<rparr>)"
    using running_free [OF ok run] waits_okD(4) [OF ok c(2)]
    by (intro waits_ok_upd_same [OF ok c(2)]) (simp_all add: asleep_def task_ok_def)
  moreover have "objs_ok (s\<lparr>os_tasks := ts\<rparr>)" for ts
    using kinvD(2) [OF inv] by (simp add: objs_ok_def mutex_ok_def sem_ok_def)
  ultimately have "kinv (s\<lparr>os_tasks := (os_tasks s)[c := asleep ms (os_tasks s ! c)]\<rparr>)"
    using kinvD(3) [OF inv] by (simp add: kinv_def current_ok_def)
  then show "kinv ?s'" using kinv_upd_ticks(2) by fastforce
qed

lemma keeps_sleep:
  assumes inv: "kinv s" and run: "running s c" and k: "kernel_running s"
  obtains s' where "os_delay ms s = Some s'" "keeps (if ms = 0 then {} else {c}) s s'"
proof (cases "ms = 0")
  case True
  with that keeps_refl [OF inv] show ?thesis by (simp add: os_delay_def)
next
  case False
  let ?s' = "s\<lparr>os_tasks := (os_tasks s)[c := asleep ms (os_tasks s ! c)], pendsv := True\<rparr>"
  note eff = os_delay_effect [OF inv run k False]
  have "c < length (os_tasks s)"
    using run waits_okD(3) [OF kinvD(1) [OF inv]] by (simp add: running_def)
  then have "keeps {c} s ?s'"
    by (intro keeps_update [OF eff(2)]) (auto simp: asleep_def)
  with that eff(1) False show ?thesis by simp
qed

subsection \<open>A switch\<close>

text \<open>What the switch hands to the scheduler: the context on the stack, the request served.\<close>

definition saved :: "cpu \<Rightarrow> tid \<Rightarrow> kernel \<Rightarrow> kernel" where
  "saved c a s = s\<lparr>pendsv := False, mem := context_mem c (mem s),
     os_tasks := (os_tasks s)[a := (os_tasks s ! a)\<lparr>stackPtr := saved_sp c\<rparr>]\<rparr>"

lemma saved_frame [simp]:
  "task_count (saved c a s) = task_count s" "current_tcb (saved c a s) = current_tcb s"
  "kernel_running (saved c a s) = kernel_running s" "halted_in (saved c a s) = halted_in s"
  "pendsv (saved c a s) = False" "mem (saved c a s) = context_mem c (mem s)"
  "mutexes (saved c a s) = mutexes s" "sems (saved c a s) = sems s" "primask (saved c a s) = primask s"
  by (simp_all add: saved_def)

lemma saved_task:
  assumes "a < length (os_tasks s)"
  shows "state (os_tasks (saved c a s) ! t) = state (os_tasks s ! t)"
    "current_priority (os_tasks (saved c a s) ! t) = current_priority (os_tasks s ! t)"
    "stackBase (os_tasks (saved c a s) ! t) = stackBase (os_tasks s ! t)"
  using assms by (cases "t = a"; simp add: saved_def)+

lemma save_context_eq:
  assumes "current_tcb s = Some a" "a < length (os_tasks s)"
  shows "save_context (c\<lparr>psp := saved_sp c + 32\<rparr>)
      (s\<lparr>mem := store_words (saved_sp c + 32) (hw_words c) (mem s)\<rparr>) = Some (saved c a s)"
  using assms by (simp add: save_context_def upd_tcb_def saved_def context_mem_def)

lemma kinv_saved:
  assumes inv: "kinv s" and a: "a < tc s"
  shows "kinv (saved c a s)"
proof -
  let ?ts = "(os_tasks s)[a := (os_tasks s ! a)\<lparr>stackPtr := saved_sp c\<rparr>]"
  have "waits_ok (s\<lparr>os_tasks := ?ts\<rparr>)"
    using waits_okD(4) [OF kinvD(1) [OF inv] a]
    by (intro waits_ok_upd_same [OF kinvD(1) [OF inv] a]) (simp_all add: task_ok_def)
  then show ?thesis
    using kinvD(2,3) [OF inv]
    by (simp add: saved_def kinv_def waits_ok_def objs_ok_def mutex_ok_def sem_ok_def current_ok_def
        wait_shape_def)
qed

lemma kinv_halted: "kinv (s\<lparr>halted_in := h\<rparr>) = kinv s"
proof -
  have eq: "get_wait_array (s\<lparr>halted_in := h\<rparr>) r = get_wait_array s r"
    "get_wait_count (s\<lparr>halted_in := h\<rparr>) r = get_wait_count s r" for r
    by (cases r; simp)+
  then have "waiters (s\<lparr>halted_in := h\<rparr>) r = waiters s r" for r by (simp only: waiters_def)
  with eq show ?thesis
    by (simp add: kinv_def waits_ok_def objs_ok_def mutex_ok_def sem_ok_def current_ok_def
        wait_shape_def)
qed

lemma context_switch_eq:
  assumes "current_tcb s = Some a" "a < length (os_tasks s)" "os_scheduler (saved c a s) = Some s'"
    and "halted_in s' = None \<Longrightarrow> \<exists>b. current_tcb s' = Some b \<and> b < length (os_tasks s')"
  shows "\<exists>c'. context_switch c s = Some (c', s')"
proof (cases "halted_in s' = None")
  case True
  with assms(4) obtain b where "current_tcb s' = Some b" "b < length (os_tasks s')" by blast
  with True assms(3) save_context_eq [OF assms(1,2), of c] show ?thesis
    by (simp add: context_switch_def exception_entry_eq PendSV_Handler_def load_context_def get_tcb_def)
next
  case False
  with assms(3) save_context_eq [OF assms(1,2), of c] show ?thesis
    by (auto simp: context_switch_def exception_entry_eq PendSV_Handler_def)
qed

lemma kinv_switched:
  assumes "kinv s" "runnable_at s b"
  shows "kinv (s\<lparr>os_tasks := switched (current_tcb s) b (os_tasks s), current_tcb := Some b\<rparr>)"
proof -
  have "\<forall>c. current_tcb s = Some c \<longrightarrow> c < tc s" using kinvD(3) [OF assms(1)] by (simp add: current_ok_def)
  from waits_ok_switched [OF kinvD(1) [OF assms(1)] this] assms(2)
  have "waits_ok (s\<lparr>os_tasks := switched (current_tcb s) b (os_tasks s), current_tcb := Some b\<rparr>)"
    by blast
  moreover have "objs_ok (s\<lparr>os_tasks := switched (current_tcb s) b (os_tasks s), current_tcb := Some b\<rparr>)"
    by (rule iffD2 [OF objs_ok_cong [of _ s] kinvD(2) [OF assms(1)]]) simp_all
  ultimately show ?thesis using assms(2) by (simp add: kinv_def current_ok_def)
qed

lemma one_running_switched:
  assumes "one_running s" "tc s \<le> length (os_tasks s)" "b < tc s"
  shows "one_running (s\<lparr>os_tasks := switched (current_tcb s) b (os_tasks s), current_tcb := Some b\<rparr>)"
  unfolding one_running_def
proof (intro allI impI)
  let ?s' = "s\<lparr>os_tasks := switched (current_tcb s) b (os_tasks s), current_tcb := Some b\<rparr>"
  fix t assume t: "t < tc ?s'" "state (os_tasks ?s' ! t) = RUNNING"
  have "switched (current_tcb s) b (os_tasks s) ! t =
    (if t = b then (os_tasks s ! b)\<lparr>state := RUNNING\<rparr>
     else if current_tcb s = Some t \<and> state (os_tasks s ! t) = RUNNING then (os_tasks s ! t)\<lparr>state := READY\<rparr>
     else os_tasks s ! t)"
    using assms(2,3) t(1) by (intro switched_nth) simp_all
  with t(2) have "t = b \<or> state (os_tasks s ! t) = RUNNING \<and> current_tcb s \<noteq> Some t"
    by (simp split: if_split_asm)
  then show "current_tcb ?s' = Some t" using assms(1) t(1) unfolding one_running_def by simp blast
qed

lemma switch_effect:
  assumes inv: "sys_inv idle s" and cur: "current_tcb s = Some a"
  obtains (overflow) c' s' where "context_switch c s = Some (c', s')" "s' = (saved c a s)\<lparr>halted_in := Some a\<rparr>"
      "context_mem c (mem s) (stackBase (os_tasks s ! a)) \<noteq> STACK_CANARY" "sys_inv idle s'"
  | (switch) c' s' b where "context_switch c s = Some (c', s')" "runnable_at s b"
      "\<forall>t. runnable_at s t \<longrightarrow> prio s t \<le> prio s b"
      "s' = (saved c a s)\<lparr>os_tasks := switched (Some a) b (os_tasks (saved c a s)), current_tcb := Some b\<rparr>"
      "sys_inv idle s'" "running s' b"
      "context_mem c (mem s) (stackBase (os_tasks s ! a)) = STACK_CANARY"
proof -
  from inv have I: "kinv s" "one_running s" "kernel_running s" "runnable_at s idle"
    by (simp_all add: sys_inv_def)
  have a: "a < tc s" using kinvD(3) [OF I(1)] cur by (simp add: current_ok_def)
  note D = waits_okD [OF kinvD(1) [OF I(1)]]
  have len: "a < length (os_tasks s)" using D(3) a by simp
  let ?p = "saved c a s"
  note T = saved_task [OF len]
  have inv1: "kinv ?p" by (rule kinv_saved [OF I(1) a])
  have one1: "one_running ?p" using I(2) by (simp add: one_running_def T)
  have run1: "runnable (os_tasks ?p ! t) = runnable (os_tasks s ! t)" for t by (simp add: runnable_def T)
  have ready: "sched_ready ?p" using a by (intro kinv_sched_ready [OF inv1]) simp
  show ?thesis
  proof (cases "canary_intact ?p")
    case False
    let ?s' = "?p\<lparr>halted_in := Some a\<rparr>"
    have sched: "os_scheduler ?p = Some ?s'" using os_scheduler_overflow [OF ready False] cur by simp
    obtain c' where "context_switch c s = Some (c', ?s')"
      using context_switch_eq [OF cur len sched] by auto
    moreover have "context_mem c (mem s) (stackBase (os_tasks s ! a)) \<noteq> STACK_CANARY"
      using False cur by (simp add: T)
    moreover have "sys_inv idle ?s'"
      using inv1 one1 I(3,4) run1 cur by (simp add: sys_inv_def kinv_halted one_running_def)
    ultimately show ?thesis using overflow by blast
  next
    case True
    have "sched_choice ?p \<noteq> None"
      using set_scan_order [of ?p] a I(4) run1 by (auto simp: sched_choice_iff)
    then obtain b where b: "sched_choice ?p = Some b" by blast
    note best = sched_choice_best [OF ready b]
    let ?s' = "?p\<lparr>os_tasks := switched (Some a) b (os_tasks ?p), current_tcb := Some b\<rparr>"
    have sched: "os_scheduler ?p = Some ?s'" using os_scheduler_eq [OF ready True] b cur by simp
    have bl: "b < length (os_tasks ?p)" using best(1) ready by (simp add: sched_ready_def)
    have nth_b: "switched (Some a) b (os_tasks ?p) ! b = (os_tasks ?p ! b)\<lparr>state := RUNNING\<rparr>"
      using switched_nth [OF bl bl] by simp
    obtain c' where c': "context_switch c s = Some (c', ?s')"
      using context_switch_eq [OF cur len sched] bl by auto
    have running: "running ?s' b" using best(1) nth_b by (simp add: running_def)
    have "kinv ?s'" using kinv_switched [OF inv1 best(1)] cur by simp
    moreover have "one_running ?s'"
      using one_running_switched [OF one1, of b] best(1) cur waits_okD(1,2) [OF kinvD(1) [OF inv1]] by simp
    moreover have "runnable_at ?s' idle"
    proof -
      have "idle < length (os_tasks ?p)" using I(4) ready by (simp add: sched_ready_def)
      from switched_nth [OF bl this, of "Some a"] I(4) run1 show ?thesis by (simp add: runnable_def)
    qed
    ultimately have sys: "sys_inv idle ?s'" using I(3) running by (auto simp: sys_inv_def)
    have top: "\<forall>t. runnable_at s t \<longrightarrow> prio s t \<le> prio s b"
      using best(2) run1 by (auto simp: prio_def T)
    have intact: "context_mem c (mem s) (stackBase (os_tasks s ! a)) = STACK_CANARY"
      using True cur by (simp add: T)
    show ?thesis using switch [OF c' _ top refl sys running intact] best(1) run1 by simp
  qed
qed

subsection \<open>The invariant of the system\<close>

lemma enabled_thread:
  assumes "enabled idle s e" "by_thread e"
  obtains c where "running s c" "may_block e \<Longrightarrow> c \<noteq> idle"
  using assms by (auto simp: enabled_def split: option.splits)

lemma switch_ok:
  assumes inv: "sys_inv idle s"
  obtains s' where "exec (Switch c) s = Some s'" "sys_inv idle s'"
proof -
  obtain a where "current_tcb s = Some a" using inv by (auto simp: sys_inv_def)
  then show ?thesis
    by (rule switch_effect [OF inv, of a c]) (use that in simp_all)
qed

lemma exec_ok:
  assumes inv: "sys_inv idle s" and en: "enabled idle s e"
  obtains s' where "exec e s = Some s'" "sys_inv idle s'"
proof -
  have I: "kinv s" "kernel_running s" using inv by (simp_all add: sys_inv_def)
  have obj: "object_ready e s" using en by (simp add: enabled_def)
  note result = that
  have keep: thesis if "exec e s = Some s'" "keeps B s s'" "idle \<notin> B" for B s'
    using that(1) keeps_sys_inv [OF inv that(2,3)] by (rule result)
  have block: "idle \<notin> (if timeout = 0 then {} else {c})"
    if "by_thread e" "running s c" "may_block e = (timeout \<noteq> 0)" for c and timeout :: u32
    using enabled_thread [OF en that(1)] that(2,3) by (auto simp: running_def)
  show ?thesis
  proof (cases e)
    case Tick
    with keeps_tick [OF I(1)] keep show ?thesis by (metis empty_iff exec.simps(1))
  next
    case (Switch c)
    with switch_ok [OF inv, of c] that show ?thesis by metis
  next
    case (Isr_give a)
    with obj keeps_give [OF I(1)] keep show ?thesis by (metis empty_iff exec.simps(3) object_ready.simps(1) not_None_eq)
  next
    case (Lock m timeout)
    with obj obtain x where x: "mutexes s m = Some x" by auto
    from Lock en obtain c where c: "running s c" using enabled_thread by (metis by_thread.simps(4))
    obtain r s' where s': "os_mutex_acquire m timeout s = Some (r, s')"
      "keeps (if timeout = 0 then {} else {c}) s s'" by (rule keeps_lock [OF I(1) c x I(2)])
    have "idle \<notin> (if timeout = 0 then {} else {c})" using Lock by (intro block [OF _ c]) simp_all
    with keep [OF _ s'(2)] s'(1) Lock show ?thesis by simp
  next
    case (Unlock m)
    with obj obtain x where x: "mutexes s m = Some x" by auto
    obtain s' where "os_mutex_release m s = Some s'" "keeps {} s s'" by (rule keeps_unlock [OF I(1) x])
    with Unlock keep show ?thesis by simp
  next
    case (Take a timeout)
    with obj obtain x where x: "sems s a = Some x" by auto
    from Take en obtain c where c: "running s c" using enabled_thread by (metis by_thread.simps(6))
    obtain r s' where s': "os_semaphore_acquire a timeout s = Some (r, s')"
      "keeps (if timeout = 0 then {} else {c}) s s'" by (rule keeps_take [OF I(1) c x I(2)])
    have "idle \<notin> (if timeout = 0 then {} else {c})" using Take by (intro block [OF _ c]) simp_all
    with keep [OF _ s'(2)] s'(1) Take show ?thesis by simp
  next
    case (Give a)
    with obj obtain x where x: "sems s a = Some x" by auto
    obtain s' where "os_semaphore_release a s = Some s'" "keeps {} s s'" by (rule keeps_give [OF I(1) x])
    with Give keep show ?thesis by simp
  next
    case (Sleep ms)
    from Sleep en obtain c where c: "running s c" using enabled_thread by (metis by_thread.simps(8))
    obtain s' where s': "os_delay ms s = Some s'" "keeps (if ms = 0 then {} else {c}) s s'"
      by (rule keeps_sleep [OF I(1) c I(2)])
    have "idle \<notin> (if ms = 0 then {} else {c})" using Sleep by (intro block [OF _ c]) simp_all
    with keep [OF _ s'(2)] s'(1) Sleep show ?thesis by simp
  next
    case (Store a v)
    have "kinv (s\<lparr>mem := (mem s)(a := v)\<rparr>)"
      using I(1) by (simp add: kinv_def waits_ok_def objs_ok_def mutex_ok_def sem_ok_def current_ok_def
          wait_shape_def)
    then have "keeps {} s (s\<lparr>mem := (mem s)(a := v)\<rparr>)" by (intro keeps_same) simp_all
    with Store keep show ?thesis by simp
  qed
qed

lemma step_sys_inv: "sys_inv idle s \<Longrightarrow> step idle s e s' \<Longrightarrow> sys_inv idle s'"
  by (metis exec_ok option.inject step_iff)

lemma reachable_sys_inv:
  assumes "reachable idle s0 s" "sys_inv idle s0"
  shows "sys_inv idle s"
  using assms by (induction rule: reachable.induct) (auto intro: step_sys_inv)

subsection \<open>Who holds a mutex, how many tokens a semaphore has\<close>

definition holder :: "kernel \<Rightarrow> maddr \<Rightarrow> tid option" where
  "holder s m = (case mutexes s m of None \<Rightarrow> None
     | Some x \<Rightarrow> if lock x \<noteq> 0 then owner x else None)"

definition tokens :: "kernel \<Rightarrow> saddr \<Rightarrow> u32" where
  "tokens s a = (case sems s a of None \<Rightarrow> 0 | Some x \<Rightarrow> sem_count x)"

definition max_tokens :: "kernel \<Rightarrow> saddr \<Rightarrow> u32" where
  "max_tokens s a = (case sems s a of None \<Rightarrow> 0 | Some x \<Rightarrow> sem_max_count x)"

lemma same_cores:
  assumes "obj_cores s' = obj_cores s"
  shows "holder s' = holder s" "tokens s' = tokens s" "max_tokens s' = max_tokens s"
proof -
  have m: "map_option (\<lambda>x. (lock x, owner x)) (mutexes s' m) =
      map_option (\<lambda>x. (lock x, owner x)) (mutexes s m)" for m
    using fun_cong [OF arg_cong [OF assms, of fst], of m] by (simp add: obj_cores_def)
  have a: "map_option (\<lambda>x. (sem_count x, sem_max_count x)) (sems s' a) =
      map_option (\<lambda>x. (sem_count x, sem_max_count x)) (sems s a)" for a
    using fun_cong [OF arg_cong [OF assms, of snd], of a] by (simp add: obj_cores_def)
  show "holder s' = holder s"
  proof
    fix k show "holder s' k = holder s k"
      using m [of k] by (cases "mutexes s k"; cases "mutexes s' k") (simp_all add: holder_def)
  qed
  show "tokens s' = tokens s" "max_tokens s' = max_tokens s"
  proof -
    have "tokens s' k = tokens s k \<and> max_tokens s' k = max_tokens s k" for k
      using a [of k] by (cases "sems s k"; cases "sems s' k") (simp_all add: tokens_def max_tokens_def)
    then show "tokens s' = tokens s" "max_tokens s' = max_tokens s" by auto
  qed
qed

lemma objs_same_cores:
  assumes "mutexes s' = mutexes s" "sems s' = sems s" shows "obj_cores s' = obj_cores s"
  using assms by (simp add: obj_cores_def)

lemma holder_set_lock:
  assumes "mutexes s m = Some x"
  shows "holder (set_lock m l w s) = (holder s)(m := (if l \<noteq> 0 then w else None))"
    and "tokens (set_lock m l w s) = tokens s"
    and "max_tokens (set_lock m l w s) = max_tokens s"
  using assms by (auto simp: holder_def tokens_def max_tokens_def set_lock_mutexes fun_eq_iff)

lemma tokens_set:
  assumes "sems s a = Some x"
  shows "tokens (set_tokens a n s) = (tokens s)(a := n)"
    "max_tokens (set_tokens a n s) = max_tokens s" "holder (set_tokens a n s) = holder s"
  using assms by (auto simp: holder_def tokens_def max_tokens_def set_tokens_sems fun_eq_iff
      split: option.splits)

text \<open>The abstract effect of an event on the two views.\<close>

fun holder_after :: "kernel \<Rightarrow> event \<Rightarrow> maddr \<Rightarrow> tid option" where
  "holder_after s (Lock m _) =
     (if holder s m = None then (holder s)(m := current_tcb s) else holder s)"
| "holder_after s (Unlock m) = (holder s)(m := next_owner m s)"
| "holder_after s _ = holder s"

definition given :: "kernel \<Rightarrow> saddr \<Rightarrow> saddr \<Rightarrow> u32" where
  "given s a = (if waiters s (SemQ a) = [] \<and> tokens s a < max_tokens s a
     then (tokens s)(a := tokens s a + 1) else tokens s)"

fun tokens_after :: "kernel \<Rightarrow> event \<Rightarrow> saddr \<Rightarrow> u32" where
  "tokens_after s (Take a _) = (if tokens s a \<noteq> 0 then (tokens s)(a := tokens s a - 1) else tokens s)"
| "tokens_after s (Give a) = given s a"
| "tokens_after s (Isr_give a) = given s a"
| "tokens_after s _ = tokens s"

definition views :: "kernel \<Rightarrow> event \<Rightarrow> kernel \<Rightarrow> bool" where
  "views s e s' \<longleftrightarrow> holder s' = holder_after s e \<and> tokens s' = tokens_after s e \<and>
     max_tokens s' = max_tokens s"

lemma give_views:
  assumes inv: "kinv s" and x: "sems s a = Some x" and run: "os_semaphore_release a s = Some s'"
  shows "holder s' = holder s" "tokens s' = given s a" "max_tokens s' = max_tokens s"
proof -
  have "holder s' = holder s \<and> tokens s' = given s a \<and> max_tokens s' = max_tokens s"
  proof (cases "next_waiter a s")
    case None
    then have none: "waiters s (SemQ a) = []" by (simp add: next_waiter_def)
    have at: "tokens s a = sem_count x" "max_tokens s a = sem_max_count x"
      using x by (simp_all add: tokens_def max_tokens_def)
    have s': "s' = (if sem_count x < sem_max_count x then set_tokens a (sem_count x + 1) s else s)"
      using sem_release_token(1) [OF inv x none] run by simp
    show ?thesis
      by (cases "sem_count x < sem_max_count x") (simp_all add: s' given_def at none tokens_set [OF x])
  next
    case (Some n)
    then have "waiters s (SemQ a) \<noteq> []" by (auto simp: next_waiter_def)
    moreover obtain s'' where "os_semaphore_release a s = Some s''" "obj_cores s'' = obj_cores s"
      by (rule sem_release_handoff [OF inv x Some])
    ultimately show ?thesis using run same_cores [of s'' s] by (simp add: given_def)
  qed
  then show "holder s' = holder s" "tokens s' = given s a" "max_tokens s' = max_tokens s" by auto
qed

lemma take_views:
  assumes inv: "kinv s" and run: "running s c" and k: "kernel_running s" and x: "sems s a = Some x"
    and ex: "os_semaphore_acquire a timeout s = Some (r, s')"
  shows "views s (Take a timeout) s'"
proof -
  consider "sem_count x \<noteq> 0" | "sem_count x = 0" "timeout = 0" | "sem_count x = 0" "timeout \<noteq> 0" by blast
  then show ?thesis
  proof cases
    case 1
    with sem_acquire_token [OF x 1, of timeout] ex tokens_set [OF x] x show ?thesis
      by (auto simp: views_def tokens_def)
  next
    case 2
    with sem_acquire_poll [OF x, of timeout] ex x show ?thesis by (auto simp: views_def tokens_def)
  next
    case 3
    obtain s'' where "os_semaphore_acquire a timeout s = Some (Parked, s'')" "obj_cores s'' = obj_cores s"
      by (rule sem_acquire_block [OF inv run x 3 k])
    with ex 3 x same_cores [of s'' s] show ?thesis by (auto simp: views_def tokens_def)
  qed
qed

lemma lock_views:
  assumes inv: "kinv s" and run: "running s c" and x: "mutexes s m = Some x"
    and ex: "os_mutex_acquire m timeout s = Some (r, s')"
  shows "views s (Lock m timeout) s'"
  using x
proof (cases rule: mutex_acquire_cases [where timeout = timeout])
  case 1
  then have "holder s m = None" using x by (simp add: holder_def)
  with mutex_acquire_free [OF x 1, of timeout] ex holder_set_lock [OF x] show ?thesis
    by (simp add: views_def)
next
  case 2
  have "holder s m \<noteq> None" using 2 run x by (simp add: holder_def running_def)
  with mutex_acquire_own [OF x 2, of timeout] ex show ?thesis by (auto simp: views_def)
next
  case 3
  have "holder s m \<noteq> None" using 3(1) mutex_ok_owner(3) [OF inv x] x by (auto simp: holder_def)
  with mutex_acquire_poll [OF x 3] ex show ?thesis by (auto simp: views_def)
next
  case 4
  have "holder s m \<noteq> None" using 4(1) mutex_ok_owner(3) [OF inv x] x by (auto simp: holder_def)
  moreover have "owner x \<noteq> Some c" using 4(2) run by (simp add: running_def)
  then obtain s'' where "os_mutex_acquire m timeout s = Some (Parked, s'')" "obj_cores s'' = obj_cores s"
    using mutex_acquire_block [OF inv run x 4(1) _ 4(3,4)] by metis
  ultimately show ?thesis using ex same_cores [of s'' s] by (auto simp: views_def)
qed

lemma unlock_views:
  assumes inv: "kinv s" and x: "mutexes s m = Some x" and ex: "os_mutex_release m s = Some s'"
  shows "views s (Unlock m) s'"
proof (cases "next_owner m s")
  case None
  then have none: "waiters s (MutexQ m) = []" by (simp add: next_owner_def)
  let ?s1 = "s\<lparr>os_tasks := undonated (owner x) (os_tasks s)\<rparr>"
  have "obj_cores ?s1 = obj_cores s" by (simp add: obj_cores_def)
  with mutex_release_last(1) [OF inv x none] ex None holder_set_lock [of ?s1 m x 0 None] x
    same_cores [of ?s1 s]
  show ?thesis by (simp add: views_def)
next
  case (Some n)
  obtain s'' where "os_mutex_release m s = Some s''" "obj_cores s'' = obj_cores (set_lock m 1 (Some n) s)"
    by (rule mutex_release_handoff [OF inv x Some])
  with ex same_cores [of s'' "set_lock m 1 (Some n) s"] holder_set_lock [OF x] Some
  show ?thesis by (simp add: views_def)
qed

lemma switch_cores:
  assumes inv: "sys_inv idle s" and ex: "exec (Switch c) s = Some s'"
  shows "obj_cores s' = obj_cores s"
proof -
  obtain a where a: "current_tcb s = Some a" using inv by (auto simp: sys_inv_def)
  have "mutexes s' = mutexes s \<and> sems s' = sems s"
  proof (cases rule: switch_effect [OF inv a, where c = c])
    case (1 c' s'')
    with ex have "s' = (saved c a s)\<lparr>halted_in := Some a\<rparr>" by simp
    then show ?thesis by simp
  next
    case (2 c' s'' b)
    with ex have "s' = (saved c a s)\<lparr>os_tasks := switched (Some a) b (os_tasks (saved c a s)),
      current_tcb := Some b\<rparr>" by simp
    then show ?thesis by simp
  qed
  then show ?thesis by (intro objs_same_cores) simp_all
qed

lemma exec_views:
  assumes inv: "sys_inv idle s" and en: "enabled idle s e" and ex: "exec e s = Some s'"
  shows "views s e s'"
proof -
  have I: "kinv s" "kernel_running s" using inv by (simp_all add: sys_inv_def)
  have obj: "object_ready e s" using en by (simp add: enabled_def)
  have plain: ?thesis if "obj_cores s' = obj_cores s" "holder_after s e = holder s" "tokens_after s e = tokens s"
    using same_cores [OF that(1)] that(2,3) by (simp add: views_def)
  show ?thesis
  proof (cases e)
    case Tick
    obtain s'' where "SysTick_Handler s = Some s''" "obj_cores s'' = obj_cores s"
      by (rule systick_effect [OF I(1)])
    with Tick ex show ?thesis by (intro plain) simp_all
  next
    case (Switch c)
    with switch_cores [OF inv] ex show ?thesis by (intro plain) simp_all
  next
    case (Isr_give a)
    with obj obtain x where "sems s a = Some x" by auto
    from give_views [OF I(1) this] Isr_give ex show ?thesis by (simp add: views_def)
  next
    case (Lock m timeout)
    with obj obtain x where x: "mutexes s m = Some x" by auto
    from Lock en obtain c where c: "running s c" using enabled_thread by (metis by_thread.simps(4))
    from Lock ex obtain r where "os_mutex_acquire m timeout s = Some (r, s')" by auto
    from lock_views [OF I(1) c x this] Lock show ?thesis by simp
  next
    case (Unlock m)
    with obj obtain x where "mutexes s m = Some x" by auto
    from unlock_views [OF I(1) this] Unlock ex show ?thesis by simp
  next
    case (Take a timeout)
    with obj obtain x where x: "sems s a = Some x" by auto
    from Take en obtain c where c: "running s c" using enabled_thread by (metis by_thread.simps(6))
    from Take ex obtain r where "os_semaphore_acquire a timeout s = Some (r, s')" by auto
    from take_views [OF I(1) c I(2) x this] Take show ?thesis by simp
  next
    case (Give a)
    with obj obtain x where "sems s a = Some x" by auto
    from give_views [OF I(1) this] Give ex show ?thesis by (simp add: views_def)
  next
    case (Sleep ms)
    from Sleep en obtain c where c: "running s c" using enabled_thread by (metis by_thread.simps(8))
    have "obj_cores s' = obj_cores s"
    proof (cases "ms = 0")
      case True
      with Sleep ex show ?thesis by (simp add: os_delay_def)
    next
      case False
      with os_delay_effect(1) [OF I(1) c I(2) False] Sleep ex show ?thesis
        by (auto intro: objs_same_cores)
    qed
    with Sleep show ?thesis by (intro plain) simp_all
  next
    case (Store a v)
    with ex have "obj_cores s' = obj_cores s" by (auto intro: objs_same_cores)
    with Store show ?thesis by (intro plain) simp_all
  qed
qed

lemma holder_stable:
  assumes "sys_inv idle s" "step idle s e s'" "holder s m = Some t" "e \<noteq> Unlock m"
  shows "holder s' m = Some t"
proof -
  from assms(2) have "enabled idle s e" "exec e s = Some s'" by (simp_all add: step_iff)
  then have "holder s' = holder_after s e" using exec_views [OF assms(1)] by (simp add: views_def)
  with assms(3,4) show ?thesis by (cases e) auto
qed

lemma holder_waits_not:
  assumes "kinv s" "holder s m = Some t"
  shows "t < tc s" "Some t \<notin> set (waiters s (MutexQ m))"
proof -
  from assms(2) obtain x where x: "mutexes s m = Some x" "owner x = Some t"
    by (auto simp: holder_def split: option.splits if_splits)
  from mutex_ok_owner(1) [OF assms(1) x(1)] x(2)
  show "t < tc s" "Some t \<notin> set (waiters s (MutexQ m))" by auto
qed

lemma tokens_bounded: "kinv s \<Longrightarrow> tokens s a \<le> max_tokens s a"
  using sem_ok_of [of s a] by (auto simp: tokens_def max_tokens_def sem_ok_def split: option.splits)

lemma max_tokens_const:
  assumes "reachable idle s0 s" "sys_inv idle s0"
  shows "max_tokens s = max_tokens s0"
  using assms
proof (induction rule: reachable.induct)
  case (later s e s')
  then have "sys_inv idle s" using reachable_sys_inv by blast
  with later show ?case using exec_views by (auto simp: step_iff views_def)
qed simp

end
