(* ===== verification/Msg_Queue.thy ===== *)
theory Msg_Queue
  imports Semaphore
begin

text \<open>
  The message queue of \<^verbatim>\<open>Kernel/os_queue.c\<close>: a ring buffer in memory guarded by a mutex
  and two counting semaphores. A call may be switched out wherever it blocks, so each
  operation is a step function on a program counter (\<open>q_pc\<close>); \<open>os_queue_send\<close> and
  \<open>os_queue_receive\<close> run the steps until the call returns or parks.
\<close>

subsection \<open>Program points of a queue call\<close>

text \<open>
  One constructor per point of \<^verbatim>\<open>os_queue_send\<close> (\<open>S_\<close>) and \<^verbatim>\<open>os_queue_receive\<close>
  (\<open>R_\<close>) between two calls into the kernel; a \<open>_wait\<close> point is a call that is parked
  inside \<^verbatim>\<open>os_semaphore_acquire\<close> or \<^verbatim>\<open>os_mutex_acquire\<close>. The arguments are the
  local variables that are live there (\<open>message\<close>, \<open>timeout\<close>, \<open>had_slot\<close>, the value read).
\<close>

datatype q_pc =
    S_take u32 u32
  | S_take_wait u32
  | S_lock u32 bool
  | S_lock_wait u32 bool
  | S_write u32 bool
  | S_unlock bool
  | S_post bool
  | S_fail bool
  | R_take u32
  | R_take_wait
  | R_lock
  | R_lock_wait
  | R_read
  | R_unlock u32
  | R_post u32
  | R_fail
  | Q_done u8 "u32 option"

fun q_waiting :: "q_pc \<Rightarrow> bool" where
  "q_waiting (S_take_wait _) = True"
| "q_waiting (S_lock_wait _ _) = True"
| "q_waiting R_take_wait = True"
| "q_waiting R_lock_wait = True"
| "q_waiting _ = False"

fun q_finished :: "q_pc \<Rightarrow> bool" where
  "q_finished (Q_done _ _) = True"
| "q_finished _ = False"

text \<open>Where an acquire leads: the parked point, or the continuation with its result.\<close>

definition after_acquire :: "q_pc \<Rightarrow> (u8 \<Rightarrow> q_pc) \<Rightarrow> outcome \<times> kernel \<Rightarrow> q_pc \<times> kernel" where
  "after_acquire wait cont = (\<lambda>(r, s). case r of Parked \<Rightarrow> (wait, s) | Returned c \<Rightarrow> (cont c, s))"

definition s_took :: "u32 \<Rightarrow> u8 \<Rightarrow> q_pc" where
  "s_took msg c = S_lock msg (c = OS_SUCCESS)"

definition s_locked :: "u32 \<Rightarrow> bool \<Rightarrow> u8 \<Rightarrow> q_pc" where
  "s_locked msg had c = (if c \<noteq> OS_SUCCESS then S_fail had else S_write msg had)"

definition r_took :: "u8 \<Rightarrow> q_pc" where
  "r_took c = (if c \<noteq> OS_SUCCESS then Q_done OS_TIMEOUT None else R_lock)"

definition r_locked :: "u8 \<Rightarrow> q_pc" where
  "r_locked c = (if c \<noteq> OS_SUCCESS then R_fail else R_read)"

subsection \<open>The ring\<close>

definition q_addr :: "os_message_queue \<Rightarrow> u32 \<Rightarrow> u32" where
  "q_addr x i = q_buffer x + 4 * i"

text \<open>
  \<^verbatim>\<open>q->buffer[q->head] = message; q->head = (q->head + 1) % q->capacity;\<close> and, when no
  slot was taken, the same advance of the tail. An index outside the buffer and a zero
  capacity are undefined.
\<close>

definition ring_write :: "nat \<Rightarrow> u32 \<Rightarrow> bool \<Rightarrow> kernel \<Rightarrow> kernel option" where
  "ring_write q msg had s = do {
     x \<leftarrow> queues s q;
     if q_capacity x \<le> q_head x then None
     else do {
       let s1 = s\<lparr>mem := (mem s)(q_addr x (q_head x) := msg)\<rparr>;
       let x1 = x\<lparr>q_head := (q_head x + 1) mod q_capacity x\<rparr>;
       let x2 = (if had then x1 else x1\<lparr>q_tail := (q_tail x1 + 1) mod q_capacity x1\<rparr>);
       Some (s1\<lparr>queues := (queues s1)(q \<mapsto> x2)\<rparr>) } }"

definition ring_read :: "nat \<Rightarrow> kernel \<Rightarrow> (u32 \<times> kernel) option" where
  "ring_read q s = do {
     x \<leftarrow> queues s q;
     if q_capacity x \<le> q_tail x then None
     else Some (mem s (q_addr x (q_tail x)),
       s\<lparr>queues := (queues s)(q \<mapsto> x\<lparr>q_tail := (q_tail x + 1) mod q_capacity x\<rparr>)\<rparr>) }"

definition os_queue_init :: "nat \<Rightarrow> u32 \<Rightarrow> u32 \<Rightarrow> kernel \<Rightarrow> kernel" where
  "os_queue_init q buf cap s =
     (let s1 = s\<lparr>queues := (queues s)(q \<mapsto> \<lparr>q_buffer = buf, q_capacity = cap, q_head = 0, q_tail = 0\<rparr>)\<rparr>;
          s2 = os_mutex_init (Queue_Lock q) s1;
          s3 = os_semaphore_init (Queue_Empty q) cap cap s2
      in os_semaphore_init (Queue_Filled q) 0 cap s3)"

subsection \<open>The steps\<close>

fun q_step :: "nat \<Rightarrow> q_pc \<Rightarrow> kernel \<Rightarrow> (q_pc \<times> kernel) option" where
  "q_step q (S_take msg timeout) s =
     map_option (after_acquire (S_take_wait msg) (s_took msg))
       (os_semaphore_acquire (Queue_Empty q) timeout s)"
| "q_step q (S_take_wait msg) s = do { c \<leftarrow> os_resume_result s; Some (s_took msg c, s) }"
| "q_step q (S_lock msg had) s =
     map_option (after_acquire (S_lock_wait msg had) (s_locked msg had))
       (os_mutex_acquire (Queue_Lock q) WAIT_FOREVER s)"
| "q_step q (S_lock_wait msg had) s = do { c \<leftarrow> os_resume_result s; Some (s_locked msg had c, s) }"
| "q_step q (S_write msg had) s = do { s' \<leftarrow> ring_write q msg had s; Some (S_unlock had, s') }"
| "q_step q (S_unlock had) s =
     do { s' \<leftarrow> os_mutex_release (Queue_Lock q) s; Some (S_post had, s') }"
| "q_step q (S_post had) s =
     do { s' \<leftarrow> (if had then os_semaphore_release (Queue_Filled q) s else Some s);
          Some (Q_done OS_SUCCESS None, s') }"
| "q_step q (S_fail had) s =
     do { s' \<leftarrow> (if had then os_semaphore_release (Queue_Empty q) s else Some s);
          Some (Q_done OS_FAIL None, s') }"
| "q_step q (R_take timeout) s =
     map_option (after_acquire R_take_wait r_took)
       (os_semaphore_acquire (Queue_Filled q) timeout s)"
| "q_step q R_take_wait s = do { c \<leftarrow> os_resume_result s; Some (r_took c, s) }"
| "q_step q R_lock s =
     map_option (after_acquire R_lock_wait r_locked)
       (os_mutex_acquire (Queue_Lock q) WAIT_FOREVER s)"
| "q_step q R_lock_wait s = do { c \<leftarrow> os_resume_result s; Some (r_locked c, s) }"
| "q_step q R_read s = do { (v, s') \<leftarrow> ring_read q s; Some (R_unlock v, s') }"
| "q_step q (R_unlock v) s =
     do { s' \<leftarrow> os_mutex_release (Queue_Lock q) s; Some (R_post v, s') }"
| "q_step q (R_post v) s =
     do { s' \<leftarrow> os_semaphore_release (Queue_Empty q) s; Some (Q_done OS_SUCCESS (Some v), s') }"
| "q_step q R_fail s =
     do { s' \<leftarrow> os_semaphore_release (Queue_Filled q) s; Some (Q_done OS_FAIL None, s') }"
| "q_step q (Q_done c v) s = Some (Q_done c v, s)"

text \<open>How many steps a call can still make: every step is progress.\<close>

fun q_rank :: "q_pc \<Rightarrow> nat" where
  "q_rank (S_take _ _) = 7"
| "q_rank (S_take_wait _) = 6"
| "q_rank (S_lock _ _) = 5"
| "q_rank (S_lock_wait _ _) = 4"
| "q_rank (S_write _ _) = 3"
| "q_rank (S_unlock _) = 2"
| "q_rank (S_post _) = 1"
| "q_rank (S_fail _) = 1"
| "q_rank (R_take _) = 7"
| "q_rank R_take_wait = 6"
| "q_rank R_lock = 5"
| "q_rank R_lock_wait = 4"
| "q_rank R_read = 3"
| "q_rank (R_unlock _) = 2"
| "q_rank (R_post _) = 1"
| "q_rank R_fail = 1"
| "q_rank (Q_done _ _) = 0"

lemma after_acquire_cases:
  assumes "after_acquire wait cont p = (pc', s')"
  shows "pc' = wait \<or> (\<exists>c. pc' = cont c)"
proof (cases p)
  case (Pair r s)
  with assms show ?thesis by (cases r) (auto simp: after_acquire_def)
qed

lemma q_step_progress:
  assumes step: "q_step q pc s = Some (pc', s')" and "\<not> q_finished pc"
  shows "q_rank pc' < q_rank pc"
proof -
  note conts = s_took_def s_locked_def r_took_def r_locked_def
  show ?thesis
    using assms
    by (cases pc) (auto simp: conts Option.bind_eq_Some_conv dest!: after_acquire_cases)
qed

function q_run :: "nat \<Rightarrow> q_pc \<Rightarrow> kernel \<Rightarrow> (q_pc \<times> kernel) option" where
  "q_run q pc s =
     (if q_finished pc \<or> q_waiting pc then Some (pc, s)
      else case q_step q pc s of None \<Rightarrow> None | Some (pc', s') \<Rightarrow> q_run q pc' s')"
  by pat_completeness auto
termination
  by (relation "measure (\<lambda>(q, pc, s). q_rank pc)") (auto dest: q_step_progress)

declare q_run.simps [simp del]

definition os_queue_send :: "nat \<Rightarrow> u32 \<Rightarrow> u32 \<Rightarrow> kernel \<Rightarrow> (q_pc \<times> kernel) option" where
  "os_queue_send q message timeout s = q_run q (S_take message timeout) s"

definition os_queue_receive :: "nat \<Rightarrow> u32 \<Rightarrow> kernel \<Rightarrow> (q_pc \<times> kernel) option" where
  "os_queue_receive q timeout s = q_run q (R_take timeout) s"

text \<open>A parked call goes on from where it waits, with the result the kernel left for it.\<close>

definition os_queue_resume :: "nat \<Rightarrow> q_pc \<Rightarrow> kernel \<Rightarrow> (q_pc \<times> kernel) option" where
  "os_queue_resume q pc s = do { (pc', s') \<leftarrow> q_step q pc s; q_run q pc' s' }"

lemma q_run_done [simp]: "q_run q (Q_done c v) s = Some (Q_done c v, s)"
  by (simp add: q_run.simps)

lemma q_run_step:
  "q_step q pc s = Some (pc', s') \<Longrightarrow> \<not> q_finished pc \<Longrightarrow> \<not> q_waiting pc \<Longrightarrow>
   q_run q pc s = q_run q pc' s'"
  by (subst q_run.simps) simp

end
