(* ===== verification/Fifo_Contract.thy ===== *)
theory Fifo_Contract
  imports Prelude
begin

text \<open>
  The contract of a bounded queue that prefers fresh data: it is first in, first out, and
  a send that finds it full drops the oldest item. The client lemmas say what a producer
  and a consumer see over whole streams.
\<close>

definition last_n :: "nat \<Rightarrow> 'a list \<Rightarrow> 'a list" where
  "last_n n xs = drop (length xs - n) xs"

lemma length_last_n [simp]: "length (last_n n xs) = min n (length xs)"
  by (simp add: last_n_def min_def)

lemma last_n_short [simp]: "length xs \<le> n \<Longrightarrow> last_n n xs = xs"
  by (simp add: last_n_def)

lemma last_n_push: "last_n n (last_n n xs @ ys) = last_n n (xs @ ys)"
proof (cases "length xs \<le> n")
  case False
  then have "length xs + length ys - n - (length xs - n) = length ys"
    "n + length ys - n = length ys" by simp_all
  with False show ?thesis by (auto simp: last_n_def min_def add.commute)
qed simp

lemma last_n_full: "length xs = n \<Longrightarrow> 0 < n \<Longrightarrow> last_n n (xs @ [x]) = tl xs @ [x]"
  by (cases xs) (simp_all add: last_n_def)

text \<open>Sending a list of items in order, and receiving \<open>n\<close> items in a row.\<close>

fun feed :: "('m \<Rightarrow> 's \<Rightarrow> 's option) \<Rightarrow> 'm list \<Rightarrow> 's \<Rightarrow> 's option" where
  "feed send [] s = Some s"
| "feed send (m # ms) s = (case send m s of None \<Rightarrow> None | Some s' \<Rightarrow> feed send ms s')"

fun drain :: "('s \<Rightarrow> ('m option \<times> 's) option) \<Rightarrow> nat \<Rightarrow> 's \<Rightarrow> ('m option list \<times> 's) option" where
  "drain receive 0 s = Some ([], s)"
| "drain receive (Suc n) s = (case receive s of None \<Rightarrow> None
     | Some (v, s') \<Rightarrow> (case drain receive n s' of None \<Rightarrow> None
         | Some (vs, s'') \<Rightarrow> Some (v # vs, s'')))"

locale lossy_fifo =
  fixes invar :: "'s \<Rightarrow> bool" and items :: "'s \<Rightarrow> 'm list" and room :: "'s \<Rightarrow> nat"
    and send :: "'m \<Rightarrow> 's \<Rightarrow> 's option" and receive :: "'s \<Rightarrow> ('m option \<times> 's) option"
  assumes items_room: "invar s \<Longrightarrow> length (items s) \<le> room s"
    and send_ok: "invar s \<Longrightarrow> \<exists>s'. send m s = Some s' \<and> invar s' \<and> room s' = room s \<and>
      items s' = last_n (room s) (items s @ [m])"
    and receive_ok: "invar s \<Longrightarrow> items s \<noteq> [] \<Longrightarrow> \<exists>s'. receive s = Some (Some (hd (items s)), s') \<and>
      invar s' \<and> room s' = room s \<and> items s' = tl (items s)"
    and receive_none: "invar s \<Longrightarrow> items s = [] \<Longrightarrow> receive s = Some (None, s)"
begin

lemma feed_ok:
  "invar s \<Longrightarrow> \<exists>s'. feed send ms s = Some s' \<and> invar s' \<and> room s' = room s \<and>
     items s' = last_n (room s) (items s @ ms)"
proof (induction ms arbitrary: s)
  case Nil
  then show ?case using items_room by simp
next
  case (Cons m ms)
  from send_ok [OF Cons.prems, of m] obtain s1 where s1: "send m s = Some s1" "invar s1"
    "room s1 = room s" "items s1 = last_n (room s) (items s @ [m])" by blast
  from Cons.IH [OF s1(2)] s1(1,3,4) show ?case by (simp add: last_n_push)
qed

lemma drain_ok:
  "invar s \<Longrightarrow> n \<le> length (items s) \<Longrightarrow> \<exists>s'. drain receive n s = Some (map Some (take n (items s)), s') \<and>
     invar s' \<and> room s' = room s \<and> items s' = drop n (items s)"
proof (induction n arbitrary: s)
  case (Suc n)
  then have ne: "items s \<noteq> []" by auto
  from receive_ok [OF Suc.prems(1) ne] obtain s1 where s1: "receive s = Some (Some (hd (items s)), s1)"
    "invar s1" "room s1 = room s" "items s1 = tl (items s)" by blast
  have "n \<le> length (items s1)" using Suc.prems(2) s1(4) by simp
  from Suc.IH [OF s1(2) this] s1 ne Suc.prems(2) show ?case
    by (auto simp: take_Suc drop_Suc)
qed simp

text \<open>A producer that gets ahead loses only the oldest items; the order is never changed.\<close>

lemma stream_ok:
  assumes "invar s"
  shows "\<exists>s1 s2. feed send ms s = Some s1 \<and>
    drain receive (min (room s) (length (items s) + length ms)) s1 =
      Some (map Some (last_n (room s) (items s @ ms)), s2) \<and>
    invar s2 \<and> items s2 = [] \<and> receive s2 = Some (None, s2)"
proof -
  from feed_ok [OF assms, of ms] obtain s1 where s1: "feed send ms s = Some s1" "invar s1"
    "items s1 = last_n (room s) (items s @ ms)" by blast
  from drain_ok [OF s1(2) order_refl] s1(3) obtain s2
    where s2: "drain receive (length (items s1)) s1 = Some (map Some (items s1), s2)"
      "invar s2" "items s2 = []" by auto
  from s2 s1 receive_none [OF s2(2,3)] show ?thesis by auto
qed

end

end
