(* ===== verification/Ring_Queue.thy ===== *)
theory Ring_Queue
  imports Msg_Queue Fifo_Contract
begin

text \<open>
  What \<^verbatim>\<open>Kernel/os_queue.c\<close> promises: a bounded FIFO in which a send onto a full queue
  drops the oldest message. The ring arithmetic is proved on a function from indices to
  words, the calls are then run on a quiet queue (\<open>q_ok\<close>), and the contract is a locale
  whose client lemmas hold for any lossy FIFO.
\<close>

subsection \<open>Ring arithmetic\<close>

definition ring_list :: "(nat \<Rightarrow> 'a) \<Rightarrow> nat \<Rightarrow> nat \<Rightarrow> nat \<Rightarrow> 'a list" where
  "ring_list h cap t n = map (\<lambda>i. h ((t + i) mod cap)) [0..<n]"

lemma length_ring_list [simp]: "length (ring_list h cap t n) = n"
  by (simp add: ring_list_def)

lemma ring_list_nth [simp]: "i < n \<Longrightarrow> ring_list h cap t n ! i = h ((t + i) mod cap)"
  by (simp add: ring_list_def)

lemma ring_index_inj:
  assumes "i < cap" "j < cap" "(t + i) mod cap = (t + j) mod cap"
  shows "i = (j :: nat)"
proof -
  have le: "a = b" if "a \<le> b" "b < cap" "(t + b) mod cap = (t + a) mod cap" for a b
  proof -
    have "cap dvd (t + b) - (t + a)" using that mod_eq_dvd_iff_nat [of "t + a" "t + b" cap] by simp
    then have dvd: "cap dvd b - a" by simp
    have "b - a < cap" using that(2) by simp
    with dvd have "b - a = 0" using nat_dvd_not_less by blast
    with that(1) show "a = b" by simp
  qed
  show ?thesis
  proof (cases "i \<le> j")
    case True
    show ?thesis by (rule le [OF True assms(2) assms(3) [symmetric]])
  next
    case False
    then have "j \<le> i" by simp
    then show ?thesis by (rule le [OF _ assms(1,3), symmetric])
  qed
qed

lemma ring_list_cong:
  "(\<And>i. i < cap \<Longrightarrow> h i = h' i) \<Longrightarrow> 0 < cap \<Longrightarrow> ring_list h cap t n = ring_list h' cap t n"
  by (simp add: ring_list_def)

lemma ring_push:
  assumes "n < cap"
  shows "ring_list (h((t + n) mod cap := v)) cap t (Suc n) = ring_list h cap t n @ [v]"
proof (rule nth_equalityI)
  fix i assume "i < length (ring_list (h((t + n) mod cap := v)) cap t (Suc n))"
  then have i: "i \<le> n" by simp
  show "ring_list (h((t + n) mod cap := v)) cap t (Suc n) ! i = (ring_list h cap t n @ [v]) ! i"
    using i assms ring_index_inj [of i cap n t] by (cases "i = n") (auto simp: nth_append)
qed simp

lemma ring_pop:
  assumes "0 < n"
  shows "ring_list h cap (Suc t mod cap) (n - 1) = tl (ring_list h cap t n)"
  using assms by (intro nth_equalityI) (auto simp: nth_tl mod_simps)

lemma ring_hd: "0 < n \<Longrightarrow> t < cap \<Longrightarrow> hd (ring_list h cap t n) = h t"
  by (simp add: hd_conv_nth flip: length_greater_0_conv)

lemma ring_overwrite:
  assumes "t < cap"
  shows "ring_list (h(t := v)) cap (Suc t mod cap) cap = tl (ring_list h cap t cap) @ [v]"
proof -
  have "ring_list (h(t := v)) cap (Suc t mod cap) (Suc (cap - 1)) =
      ring_list h cap (Suc t mod cap) (cap - 1) @ [v]"
  proof -
    have "(Suc t mod cap + (cap - 1)) mod cap = t"
    proof -
      have "(Suc t mod cap + (cap - 1)) mod cap = (Suc t + (cap - 1)) mod cap"
        by (rule mod_add_left_eq)
      also have "Suc t + (cap - 1) = t + cap" using assms by simp
      finally show ?thesis using assms by simp
    qed
    with ring_push [of "cap - 1" cap h "Suc t mod cap" v] assms show ?thesis by simp
  qed
  with assms ring_pop [of cap h cap t] show ?thesis by simp
qed

subsection \<open>A quiet queue and its contents\<close>

text \<open>
  Nobody holds the lock or waits, the two token counts add up to the capacity, and the
  head is where the tail and the number of filled slots put it. The state between calls
  of a queue used by one task at a time.
\<close>

definition ring_ok :: "os_message_queue \<Rightarrow> os_semaphore \<Rightarrow> os_semaphore \<Rightarrow> bool" where
  "ring_ok x e f \<longleftrightarrow> q_capacity x \<noteq> 0 \<and> 4 * unat (q_capacity x) \<le> 2 ^ 32 \<and>
     q_head x < q_capacity x \<and> q_tail x < q_capacity x \<and>
     sem_max_count e = q_capacity x \<and> sem_max_count f = q_capacity x \<and>
     unat (sem_count e) + unat (sem_count f) = unat (q_capacity x) \<and>
     unat (q_head x) = (unat (q_tail x) + unat (sem_count f)) mod unat (q_capacity x)"

definition q_ok :: "nat \<Rightarrow> kernel \<Rightarrow> bool" where
  "q_ok q s \<longleftrightarrow>
     (case (queues s q, mutexes s (Queue_Lock q), sems s (Queue_Empty q), sems s (Queue_Filled q)) of
        (Some x, Some l, Some e, Some f) \<Rightarrow>
          lock l = 0 \<and> owner l = None \<and> m_wait_count l = 0 \<and> s_wait_count e = 0 \<and> s_wait_count f = 0 \<and> ring_ok x e f
      | _ \<Rightarrow> False) \<and>
     (case current_tcb s of None \<Rightarrow> True | Some c \<Rightarrow> c < length (os_tasks s))"

definition slots :: "kernel \<Rightarrow> os_message_queue \<Rightarrow> nat \<Rightarrow> u32" where
  "slots s x i = mem s (q_addr x (of_nat i))"

definition contents :: "nat \<Rightarrow> kernel \<Rightarrow> u32 list" where
  "contents q s = (case (queues s q, sems s (Queue_Filled q)) of
     (Some x, Some f) \<Rightarrow>
       ring_list (slots s x) (unat (q_capacity x)) (unat (q_tail x)) (unat (sem_count f))
   | _ \<Rightarrow> [])"

definition q_size :: "nat \<Rightarrow> kernel \<Rightarrow> nat" where
  "q_size q s = (case queues s q of Some x \<Rightarrow> unat (q_capacity x) | None \<Rightarrow> 0)"

lemma q_okE:
  assumes "q_ok q s"
  obtains x l e f where "queues s q = Some x" "mutexes s (Queue_Lock q) = Some l"
    "sems s (Queue_Empty q) = Some e" "sems s (Queue_Filled q) = Some f"
    "lock l = 0" "owner l = None" "m_wait_count l = 0" "s_wait_count e = 0" "s_wait_count f = 0" "ring_ok x e f"
    "\<forall>c. current_tcb s = Some c \<longrightarrow> c < length (os_tasks s)"
    "contents q s =
      ring_list (slots s x) (unat (q_capacity x)) (unat (q_tail x)) (unat (sem_count f))"
    "q_size q s = unat (q_capacity x)"
  using assms
  by (auto simp: q_ok_def contents_def q_size_def split: option.splits prod.splits)

lemma q_addr_inj:
  assumes "4 * unat cap \<le> 2 ^ 32" "unat a < unat cap" "unat b < unat cap"
    "q_addr x a = q_addr x b"
  shows "a = b"
proof -
  have u: "unat (4 * c) = 4 * unat c" if "unat c < unat cap" for c :: u32
    using that assms(1) by (simp add: unat_word_ariths(2))
  from assms(4) have "4 * a = 4 * b" by (simp add: q_addr_def)
  then have "unat (4 * a) = unat (4 * b)" by simp
  with assms(2,3) have "unat a = unat b" by (simp add: u)
  then show ?thesis by (rule iffD2 [OF word_unat_eq_iff])
qed

lemma slots_write:
  assumes "4 * unat (q_capacity x) \<le> 2 ^ 32" "h < q_capacity x" "i < unat (q_capacity x)"
  shows "((mem s)(q_addr x h := v)) (q_addr x (of_nat i)) = ((slots s x)(unat h := v)) i"
proof -
  have i: "unat (of_nat i :: u32) = i"
    using assms(3) unat_u32_less [of "q_capacity x"] by (simp add: unsigned_of_nat take_bit_nat_eq_self)
  have "q_addr x (of_nat i) = q_addr x h \<longleftrightarrow> i = unat h"
  proof
    assume "q_addr x (of_nat i) = q_addr x h"
    moreover have "unat h < unat (q_capacity x)" using assms(2) by (simp only: word_less_nat_alt)
    moreover have "unat (of_nat i :: u32) < unat (q_capacity x)" using assms(3) by (simp only: i)
    ultimately have "of_nat i = h" using q_addr_inj [OF assms(1)] by blast
    then show "i = unat h" using i by (simp only:)
  qed simp
  then show ?thesis by (auto simp: slots_def)
qed

lemma unat_next:
  assumes "h < n"
  shows "unat ((h + 1) mod n) = Suc (unat h) mod unat (n :: u32)"
proof -
  have "unat (h + 1) = Suc (unat h)"
    using assms unat_u32_less [of n] by (intro unat_inc) (simp add: word_less_nat_alt)
  then show ?thesis by (simp add: unat_mod)
qed

subsection \<open>The locked part of the two calls\<close>

definition written :: "nat \<Rightarrow> os_message_queue \<Rightarrow> u32 \<Rightarrow> bool \<Rightarrow> os_message_queue" where
  "written q x msg had = (let x1 = x\<lparr>q_head := (q_head x + 1) mod q_capacity x\<rparr> in
     if had then x1 else x1\<lparr>q_tail := (q_tail x1 + 1) mod q_capacity x1\<rparr>)"

lemma send_locked:
  assumes "queues s q = Some x" "q_head x < q_capacity x"
    and l: "mutexes s (Queue_Lock q) = Some l" "lock l = 0" "m_wait_count l = 0"
    and c: "\<And>c. current_tcb s = Some c \<Longrightarrow> c < length (os_tasks s)"
  obtains s' where "q_run q (S_lock msg had) s = q_run q (S_post had) s'"
    "os_tasks s' = undonated (current_tcb s) (os_tasks s)" "current_tcb s' = current_tcb s"
    "queues s' = (queues s)(q \<mapsto> written q x msg had)" "sems s' = sems s"
    "mem s' = (mem s)(q_addr x (q_head x) := msg)"
    "mutexes s' = (mutexes s)(Queue_Lock q \<mapsto> l\<lparr>lock := 0, owner := None\<rparr>)"
    "primask s' = primask s" "pendsv s' = pendsv s" "kernel_running s' = kernel_running s"
    "task_count s' = task_count s" "halted_in s' = halted_in s" "os_ticks s' = os_ticks s"
proof -
  let ?s1 = "set_lock (Queue_Lock q) 1 (current_tcb s) s"
  let ?s2 = "?s1\<lparr>mem := (mem s)(q_addr x (q_head x) := msg),
    queues := (queues s)(q \<mapsto> written q x msg had)\<rparr>"
  let ?s3 = "set_lock (Queue_Lock q) 0 None
    (?s2\<lparr>os_tasks := undonated (current_tcb s) (os_tasks ?s2)\<rparr>)"
  have "q_step q (S_lock msg had) s = Some (S_write msg had, ?s1)"
    using mutex_acquire_free [OF l(1,2)] by (simp add: after_acquire_def s_locked_def)
  moreover have "q_step q (S_write msg had) ?s1 = Some (S_unlock had, ?s2)"
    using assms(1,2) by (simp add: ring_write_def written_def Let_def not_le)
  moreover have "q_step q (S_unlock had) ?s2 = Some (S_post had, ?s3)"
    using l c by (subst q_step.simps, subst mutex_release_uncontended
        [where x = "l\<lparr>lock := 1, owner := current_tcb s\<rparr>"]) (simp_all add: set_lock_mutexes)
  ultimately have "q_run q (S_lock msg had) s = q_run q (S_post had) ?s3"
    by (simp add: q_run_step)
  then show ?thesis by (rule that) (simp_all add: set_lock_mutexes set_lock_def l fun_eq_iff)
qed

lemma receive_locked:
  assumes "queues s q = Some x" "q_tail x < q_capacity x"
    and l: "mutexes s (Queue_Lock q) = Some l" "lock l = 0" "m_wait_count l = 0"
    and c: "\<And>c. current_tcb s = Some c \<Longrightarrow> c < length (os_tasks s)"
  obtains s' where "q_run q R_lock s = q_run q (R_post (mem s (q_addr x (q_tail x)))) s'"
    "os_tasks s' = undonated (current_tcb s) (os_tasks s)" "current_tcb s' = current_tcb s"
    "queues s' = (queues s)(q \<mapsto> x\<lparr>q_tail := (q_tail x + 1) mod q_capacity x\<rparr>)"
    "sems s' = sems s" "mem s' = mem s"
    "mutexes s' = (mutexes s)(Queue_Lock q \<mapsto> l\<lparr>lock := 0, owner := None\<rparr>)"
    "primask s' = primask s" "pendsv s' = pendsv s" "kernel_running s' = kernel_running s"
    "task_count s' = task_count s" "halted_in s' = halted_in s" "os_ticks s' = os_ticks s"
proof -
  let ?s1 = "set_lock (Queue_Lock q) 1 (current_tcb s) s"
  let ?v = "mem s (q_addr x (q_tail x))"
  let ?s2 = "?s1\<lparr>queues := (queues s)(q \<mapsto> x\<lparr>q_tail := (q_tail x + 1) mod q_capacity x\<rparr>)\<rparr>"
  let ?s3 = "set_lock (Queue_Lock q) 0 None
    (?s2\<lparr>os_tasks := undonated (current_tcb s) (os_tasks ?s2)\<rparr>)"
  have "q_step q R_lock s = Some (R_read, ?s1)"
    using mutex_acquire_free [OF l(1,2)] by (simp add: after_acquire_def r_locked_def)
  moreover have "q_step q R_read ?s1 = Some (R_unlock ?v, ?s2)"
    using assms(1,2) by (simp add: ring_read_def not_le)
  moreover have "q_step q (R_unlock ?v) ?s2 = Some (R_post ?v, ?s3)"
    using l c by (subst q_step.simps, subst mutex_release_uncontended
        [where x = "l\<lparr>lock := 1, owner := current_tcb s\<rparr>"]) (simp_all add: set_lock_mutexes)
  ultimately have "q_run q R_lock s = q_run q (R_post ?v) ?s3"
    by (simp add: q_run_step)
  then show ?thesis by (rule that) (simp_all add: set_lock_mutexes set_lock_def l fun_eq_iff)
qed

subsection \<open>The calls on a quiet queue\<close>

text \<open>
  What a queue call that does not block leaves alone: everything but the queue's own
  objects, its ring, and the priority of the caller, whose donation the unlock drops.
\<close>

definition ring_frame :: "nat \<Rightarrow> kernel \<Rightarrow> kernel \<Rightarrow> bool" where
  "ring_frame q s s' \<longleftrightarrow> (\<forall>p. p \<noteq> q \<longrightarrow> queues s' p = queues s p) \<and>
     (case queues s q of None \<Rightarrow> True
      | Some x \<Rightarrow> (\<exists>x'. queues s' q = Some x' \<and> q_buffer x' = q_buffer x \<and> q_capacity x' = q_capacity x) \<and>
          (\<forall>b. (\<forall>i<unat (q_capacity x). b \<noteq> q_addr x (of_nat i)) \<longrightarrow> mem s' b = mem s b))"

definition q_frame :: "nat \<Rightarrow> kernel \<Rightarrow> kernel \<Rightarrow> bool" where
  "q_frame q s s' \<longleftrightarrow> os_tasks s' = undonated (current_tcb s) (os_tasks s) \<and>
     current_tcb s' = current_tcb s \<and> primask s' = primask s \<and> pendsv s' = pendsv s \<and>
     kernel_running s' = kernel_running s \<and> task_count s' = task_count s \<and>
     halted_in s' = halted_in s \<and> os_ticks s' = os_ticks s \<and> ring_frame q s s' \<and>
     (\<forall>m. m \<noteq> Queue_Lock q \<longrightarrow> mutexes s' m = mutexes s m) \<and>
     (\<forall>a. a \<noteq> Queue_Empty q \<and> a \<noteq> Queue_Filled q \<longrightarrow> sems s' a = sems s a) \<and>
     (\<forall>m. map_option (length \<circ> m_wait_queue) (mutexes s' m) =
          map_option (length \<circ> m_wait_queue) (mutexes s m)) \<and>
     (\<forall>a. map_option (length \<circ> s_wait_queue) (sems s' a) =
          map_option (length \<circ> s_wait_queue) (sems s a))"

lemma ring_frameI:
  assumes "queues s q = Some x" "queues s' = (queues s)(q \<mapsto> x')" "q_buffer x' = q_buffer x"
    "q_capacity x' = q_capacity x" "mem s' = mem s \<or>
      (\<exists>v. mem s' = (mem s)(q_addr x (q_head x) := v) \<and> q_head x < q_capacity x)"
  shows "ring_frame q s s'"
proof -
  have "mem s' b = mem s b" if "\<forall>i<unat (q_capacity x). b \<noteq> q_addr x (of_nat i)" for b
  proof (cases "mem s' = mem s")
    case False
    with assms(5) obtain v where v: "mem s' = (mem s)(q_addr x (q_head x) := v)"
      "unat (q_head x) < unat (q_capacity x)" by (auto simp: word_less_nat_alt)
    with that have "b \<noteq> q_addr x (of_nat (unat (q_head x)))" by blast
    with v(1) show ?thesis by simp
  qed simp
  with assms(1-4) show ?thesis by (auto simp: ring_frame_def)
qed

lemma ring_frame_trans:
  assumes "ring_frame q s s'" "ring_frame q s' s''" shows "ring_frame q s s''"
proof (cases "queues s q")
  case None
  with assms show ?thesis by (simp add: ring_frame_def)
next
  case (Some x)
  then obtain x' where x': "queues s' q = Some x'" "q_buffer x' = q_buffer x" "q_capacity x' = q_capacity x"
    using assms(1) by (auto simp: ring_frame_def)
  then have "q_addr x' = q_addr x" by (simp add: q_addr_def fun_eq_iff)
  with assms Some x' show ?thesis by (auto simp: ring_frame_def)
qed

lemma ring_okD:
  assumes "ring_ok x e f"
  shows "4 * unat (q_capacity x) \<le> 2 ^ 32" "q_head x < q_capacity x" "q_tail x < q_capacity x"
    "0 < unat (q_capacity x)" "unat (q_tail x) < unat (q_capacity x)"
    "unat (sem_count e) + unat (sem_count f) = unat (q_capacity x)"
    "unat (q_head x) = (unat (q_tail x) + unat (sem_count f)) mod unat (q_capacity x)"
    "sem_max_count e = q_capacity x" "sem_max_count f = q_capacity x"
  using assms by (auto simp: ring_ok_def word_less_nat_alt unat_gt_0)

lemma slots_written:
  assumes "ring_ok x e f" "mem s' = (mem s)(q_addr x (q_head x) := v)"
    "q_buffer x' = q_buffer x"
  shows "ring_list (slots s' x') (unat (q_capacity x)) t n =
    ring_list ((slots s x)(unat (q_head x) := v)) (unat (q_capacity x)) t n"
proof (rule ring_list_cong)
  fix i assume "i < unat (q_capacity x)"
  with slots_write [OF ring_okD(1,2) [OF assms(1)] this] assms(2,3)
  show "slots s' x' i = ((slots s x)(unat (q_head x) := v)) i"
    by (simp add: slots_def q_addr_def)
qed (rule ring_okD(4) [OF assms(1)])

lemma q_okI:
  assumes "queues s q = Some x" "mutexes s (Queue_Lock q) = Some l"
    "sems s (Queue_Empty q) = Some e" "sems s (Queue_Filled q) = Some f"
    "lock l = 0" "owner l = None" "m_wait_count l = 0" "s_wait_count e = 0" "s_wait_count f = 0" "ring_ok x e f"
    "\<And>c. current_tcb s = Some c \<Longrightarrow> c < length (os_tasks s)"
  shows "q_ok q s"
    and "contents q s =
      ring_list (slots s x) (unat (q_capacity x)) (unat (q_tail x)) (unat (sem_count f))"
    and "q_size q s = unat (q_capacity x)"
  using assms by (auto simp: q_ok_def contents_def q_size_def split: option.splits)

lemma send_free:
  assumes ok: "q_ok q s" and free: "length (contents q s) < q_size q s"
  obtains s' where "os_queue_send q msg timeout s = Some (Q_done OS_SUCCESS None, s')"
    "q_ok q s'" "contents q s' = contents q s @ [msg]" "q_size q s' = q_size q s" "q_frame q s s'"
proof -
  obtain x l e f where x: "queues s q = Some x" "mutexes s (Queue_Lock q) = Some l"
    "sems s (Queue_Empty q) = Some e" "sems s (Queue_Filled q) = Some f"
    "lock l = 0" "owner l = None" "m_wait_count l = 0" "s_wait_count e = 0" "s_wait_count f = 0" "ring_ok x e f"
    and c: "\<forall>c. current_tcb s = Some c \<longrightarrow> c < length (os_tasks s)"
    and cont: "contents q s =
      ring_list (slots s x) (unat (q_capacity x)) (unat (q_tail x)) (unat (sem_count f))"
    and size: "q_size q s = unat (q_capacity x)"
    using ok by (rule q_okE)
  note R = ring_okD [OF x(10)]
  have e: "sem_count e \<noteq> 0" using free R(6) by (auto simp: cont size)
  have f: "unat (sem_count f) < unat (q_capacity x)" using free by (simp add: cont size)
  let ?s1 = "set_tokens (Queue_Empty q) (sem_count e - 1) s"
  have take: "q_step q (S_take msg timeout) s = Some (S_lock msg True, ?s1)"
    using sem_acquire_token [OF x(3) e] by (simp add: after_acquire_def s_took_def)
  obtain s2 where s2: "q_run q (S_lock msg True) ?s1 = q_run q (S_post True) s2"
    "os_tasks s2 = undonated (current_tcb s) (os_tasks s)" "current_tcb s2 = current_tcb s"
    "queues s2 = (queues s)(q \<mapsto> written q x msg True)" "sems s2 = sems ?s1"
    "mem s2 = (mem s)(q_addr x (q_head x) := msg)"
    "mutexes s2 = (mutexes s)(Queue_Lock q \<mapsto> l\<lparr>lock := 0, owner := None\<rparr>)"
    "primask s2 = primask s" "pendsv s2 = pendsv s" "kernel_running s2 = kernel_running s"
    "task_count s2 = task_count s" "halted_in s2 = halted_in s" "os_ticks s2 = os_ticks s"
    using send_locked [of ?s1 q x l msg True] x R(2) c by auto
  have f2: "sems s2 (Queue_Filled q) = Some f" using x(4) by (simp add: s2 set_tokens_sems)
  have lt: "sem_count f < sem_max_count f" using f R(9) by (simp add: word_less_nat_alt)
  let ?s3 = "set_tokens (Queue_Filled q) (sem_count f + 1) s2"
  have post: "q_step q (S_post True) s2 = Some (Q_done OS_SUCCESS None, ?s3)"
    using sem_release_uncontended [OF f2 x(9)] lt by simp
  have run: "os_queue_send q msg timeout s = Some (Q_done OS_SUCCESS None, ?s3)"
    by (simp add: os_queue_send_def q_run_step [OF take] s2(1) q_run_step [OF post])
  let ?x' = "written q x msg True"
  let ?e' = "e\<lparr>sem_count := sem_count e - 1\<rparr>"
  let ?f' = "f\<lparr>sem_count := sem_count f + 1\<rparr>"
  have f': "unat (sem_count f + 1) = Suc (unat (sem_count f))"
    using f unat_u32_less [of "q_capacity x"] by (intro unat_inc) simp
  have "0 < unat (sem_count e)" using e by (simp add: unat_gt_0)
  then have counts: "unat (sem_count e - 1) + unat (sem_count f + 1) = unat (q_capacity x)"
    using R(6) unat_dec [OF e] f' by simp
  have hd: "unat ((q_head x + 1) mod q_capacity x) =
      (unat (q_tail x) + unat (sem_count f + 1)) mod unat (q_capacity x)"
    using unat_next [OF R(2)] R(7) f' by (simp add: mod_simps)
  have x': "q_capacity ?x' = q_capacity x" "q_head ?x' = (q_head x + 1) mod q_capacity x"
    "q_tail ?x' = q_tail x" "q_buffer ?x' = q_buffer x" by (simp_all add: written_def)
  have ring': "ring_ok ?x' ?e' ?f'"
    using x(10) counts hd by (simp add: ring_ok_def x' word_less_nat_alt unat_mod)
  have objs: "queues ?s3 q = Some ?x'"
    "mutexes ?s3 (Queue_Lock q) = Some (l\<lparr>lock := 0, owner := None\<rparr>)"
    "sems ?s3 (Queue_Empty q) = Some ?e'" "sems ?s3 (Queue_Filled q) = Some ?f'"
    using x by (simp_all add: s2 set_tokens_sems)
  have c': "c < length (os_tasks ?s3)" if "current_tcb ?s3 = Some c" for c
    using that c by (simp add: s2)
  note I = q_okI [OF objs _ _ _ _ _ ring' c']
  have cont': "contents q ?s3 = contents q s @ [msg]"
  proof -
    have "contents q ?s3 = ring_list (slots ?s3 ?x') (unat (q_capacity x)) (unat (q_tail x))
        (Suc (unat (sem_count f)))"
      using I(2) x by (simp add: x' f')
    also have "\<dots> = ring_list ((slots s x)(unat (q_head x) := msg)) (unat (q_capacity x))
        (unat (q_tail x)) (Suc (unat (sem_count f)))"
      using s2(6) by (intro slots_written [OF x(10)]) (simp_all add: x')
    also have "\<dots> = contents q s @ [msg]" using ring_push [OF f] by (simp add: cont R(7))
    finally show ?thesis .
  qed
  have rf: "ring_frame q s ?s3"
    by (rule ring_frameI [OF x(1), of _ ?x']) (use R(2) in \<open>auto simp: s2(2-) x'\<close>)
  have fr: "q_frame q s ?s3" using x rf by (simp add: q_frame_def s2(2-) set_tokens_sems)
  have size': "q_size q ?s3 = q_size q s" using I(3) x by (simp add: size x')
  show ?thesis by (rule that [OF run I(1) cont' size' fr]) (use x in simp_all)
qed

lemma send_full:
  assumes ok: "q_ok q s" and full: "length (contents q s) = q_size q s"
    and poll: "timeout = 0 \<or> \<not> kernel_running s"
  obtains s' where "os_queue_send q msg timeout s = Some (Q_done OS_SUCCESS None, s')"
    "q_ok q s'" "contents q s' = tl (contents q s) @ [msg]" "q_size q s' = q_size q s" "q_frame q s s'"
proof -
  obtain x l e f where x: "queues s q = Some x" "mutexes s (Queue_Lock q) = Some l"
    "sems s (Queue_Empty q) = Some e" "sems s (Queue_Filled q) = Some f"
    "lock l = 0" "owner l = None" "m_wait_count l = 0" "s_wait_count e = 0" "s_wait_count f = 0" "ring_ok x e f"
    and c: "\<forall>c. current_tcb s = Some c \<longrightarrow> c < length (os_tasks s)"
    and cont: "contents q s =
      ring_list (slots s x) (unat (q_capacity x)) (unat (q_tail x)) (unat (sem_count f))"
    and size: "q_size q s = unat (q_capacity x)"
    using ok by (rule q_okE)
  note R = ring_okD [OF x(10)]
  have f: "unat (sem_count f) = unat (q_capacity x)" using full by (simp add: cont size)
  then have e: "sem_count e = 0" using R(6) by (simp add: unat_eq_0)
  have ht: "unat (q_head x) = unat (q_tail x)" using R(5,7) f by simp
  have take: "q_step q (S_take msg timeout) s = Some (S_lock msg False, s)"
    using sem_acquire_poll [OF x(3) e poll] by (simp add: after_acquire_def s_took_def)
  obtain s2 where s2: "q_run q (S_lock msg False) s = q_run q (S_post False) s2"
    "os_tasks s2 = undonated (current_tcb s) (os_tasks s)" "current_tcb s2 = current_tcb s"
    "queues s2 = (queues s)(q \<mapsto> written q x msg False)" "sems s2 = sems s"
    "mem s2 = (mem s)(q_addr x (q_head x) := msg)"
    "mutexes s2 = (mutexes s)(Queue_Lock q \<mapsto> l\<lparr>lock := 0, owner := None\<rparr>)"
    "primask s2 = primask s" "pendsv s2 = pendsv s" "kernel_running s2 = kernel_running s"
    "task_count s2 = task_count s" "halted_in s2 = halted_in s" "os_ticks s2 = os_ticks s"
    using send_locked [of s q x l msg False] x R(2) c by auto
  have run: "os_queue_send q msg timeout s = Some (Q_done OS_SUCCESS None, s2)"
    by (simp add: os_queue_send_def q_run_step [OF take] s2(1) q_run_step [of q "S_post False" s2])
  let ?x' = "written q x msg False"
  have x': "q_capacity ?x' = q_capacity x" "q_head ?x' = (q_head x + 1) mod q_capacity x"
    "q_tail ?x' = (q_tail x + 1) mod q_capacity x" "q_buffer ?x' = q_buffer x"
    by (simp_all add: written_def Let_def)
  have ring': "ring_ok ?x' e f"
    using x(10) unat_next [OF R(2)] unat_next [OF R(3)] f ht
    by (simp add: ring_ok_def x' word_less_nat_alt unat_mod)
  have objs: "queues s2 q = Some ?x'"
    "mutexes s2 (Queue_Lock q) = Some (l\<lparr>lock := 0, owner := None\<rparr>)"
    "sems s2 (Queue_Empty q) = Some e" "sems s2 (Queue_Filled q) = Some f"
    using x by (simp_all add: s2)
  have c': "c < length (os_tasks s2)" if "current_tcb s2 = Some c" for c
    using that c by (simp add: s2)
  note I = q_okI [OF objs _ _ _ _ _ ring' c']
  have cont': "contents q s2 = tl (contents q s) @ [msg]"
  proof -
    have "contents q s2 = ring_list (slots s2 ?x') (unat (q_capacity x))
        (Suc (unat (q_tail x)) mod unat (q_capacity x)) (unat (q_capacity x))"
      using I(2) x unat_next [OF R(3)] by (simp add: x' f)
    also have "\<dots> = ring_list ((slots s x)(unat (q_head x) := msg)) (unat (q_capacity x))
        (Suc (unat (q_tail x)) mod unat (q_capacity x)) (unat (q_capacity x))"
      using s2(6) by (intro slots_written [OF x(10)]) (simp_all add: x')
    also have "\<dots> = tl (contents q s) @ [msg]" using ring_overwrite [OF R(5)] by (simp add: cont f ht)
    finally show ?thesis .
  qed
  have rf: "ring_frame q s s2"
    by (rule ring_frameI [OF x(1), of _ ?x']) (use R(2) in \<open>auto simp: s2(2-) x'\<close>)
  have fr: "q_frame q s s2" using x rf by (simp add: q_frame_def s2(2-) set_tokens_sems)
  have size': "q_size q s2 = q_size q s" using I(3) x by (simp add: size x')
  show ?thesis by (rule that [OF run I(1) cont' size' fr]) (use x in simp_all)
qed

lemma receive_some:
  assumes ok: "q_ok q s" and some: "contents q s \<noteq> []"
  obtains s' where
    "os_queue_receive q timeout s = Some (Q_done OS_SUCCESS (Some (hd (contents q s))), s')"
    "q_ok q s'" "contents q s' = tl (contents q s)" "q_size q s' = q_size q s" "q_frame q s s'"
proof -
  obtain x l e f where x: "queues s q = Some x" "mutexes s (Queue_Lock q) = Some l"
    "sems s (Queue_Empty q) = Some e" "sems s (Queue_Filled q) = Some f"
    "lock l = 0" "owner l = None" "m_wait_count l = 0" "s_wait_count e = 0" "s_wait_count f = 0" "ring_ok x e f"
    and c: "\<forall>c. current_tcb s = Some c \<longrightarrow> c < length (os_tasks s)"
    and cont: "contents q s =
      ring_list (slots s x) (unat (q_capacity x)) (unat (q_tail x)) (unat (sem_count f))"
    and size: "q_size q s = unat (q_capacity x)"
    using ok by (rule q_okE)
  note R = ring_okD [OF x(10)]
  have f: "0 < unat (sem_count f)" using some by (simp add: cont flip: length_greater_0_conv)
  then have f0: "sem_count f \<noteq> 0" by auto
  let ?s1 = "set_tokens (Queue_Filled q) (sem_count f - 1) s"
  let ?v = "mem s (q_addr x (q_tail x))"
  have take: "q_step q (R_take timeout) s = Some (R_lock, ?s1)"
    using sem_acquire_token [OF x(4) f0] by (simp add: after_acquire_def r_took_def)
  let ?x' = "x\<lparr>q_tail := (q_tail x + 1) mod q_capacity x\<rparr>"
  obtain s2 where s2: "q_run q R_lock ?s1 = q_run q (R_post ?v) s2"
    "os_tasks s2 = undonated (current_tcb s) (os_tasks s)" "current_tcb s2 = current_tcb s"
    "queues s2 = (queues s)(q \<mapsto> ?x')" "sems s2 = sems ?s1" "mem s2 = mem s"
    "mutexes s2 = (mutexes s)(Queue_Lock q \<mapsto> l\<lparr>lock := 0, owner := None\<rparr>)"
    "primask s2 = primask s" "pendsv s2 = pendsv s" "kernel_running s2 = kernel_running s"
    "task_count s2 = task_count s" "halted_in s2 = halted_in s" "os_ticks s2 = os_ticks s"
    using receive_locked [of ?s1 q x l] x R(3) c by auto
  have e2: "sems s2 (Queue_Empty q) = Some e" using x(3) by (simp add: s2 set_tokens_sems)
  have lt: "unat (sem_count e) < unat (q_capacity x)" using f R(6) by simp
  then have lt': "sem_count e < sem_max_count e" using R(8) by (simp add: word_less_nat_alt)
  let ?s3 = "set_tokens (Queue_Empty q) (sem_count e + 1) s2"
  have post: "q_step q (R_post ?v) s2 = Some (Q_done OS_SUCCESS (Some ?v), ?s3)"
    using sem_release_uncontended [OF e2 x(8)] lt' by simp
  have run: "os_queue_receive q timeout s = Some (Q_done OS_SUCCESS (Some ?v), ?s3)"
    by (simp add: os_queue_receive_def q_run_step [OF take] s2(1) q_run_step [OF post])
  let ?e' = "e\<lparr>sem_count := sem_count e + 1\<rparr>"
  let ?f' = "f\<lparr>sem_count := sem_count f - 1\<rparr>"
  have e': "unat (sem_count e + 1) = Suc (unat (sem_count e))"
    using lt unat_u32_less [of "q_capacity x"] by (intro unat_inc) simp
  have f': "unat (sem_count f - 1) = unat (sem_count f) - 1" by (rule unat_dec [OF f0])
  have counts: "unat (sem_count e + 1) + unat (sem_count f - 1) = unat (q_capacity x)"
    using f R(6) e' f' by simp
  have "(Suc (unat (q_tail x)) mod n + (unat (sem_count f) - 1)) mod n =
      (Suc (unat (q_tail x)) + (unat (sem_count f) - 1)) mod n" for n
    by (rule mod_add_left_eq)
  then have hd: "unat (q_head x) =
      (unat ((q_tail x + 1) mod q_capacity x) + unat (sem_count f - 1)) mod unat (q_capacity x)"
    using unat_next [OF R(3)] R(7) f f' by simp
  have ring': "ring_ok ?x' ?e' ?f'"
    using x(10) counts hd by (simp add: ring_ok_def word_less_nat_alt unat_mod)
  have objs: "queues ?s3 q = Some ?x'"
    "mutexes ?s3 (Queue_Lock q) = Some (l\<lparr>lock := 0, owner := None\<rparr>)"
    "sems ?s3 (Queue_Empty q) = Some ?e'" "sems ?s3 (Queue_Filled q) = Some ?f'"
    using x by (simp_all add: s2 set_tokens_sems)
  have c': "c < length (os_tasks ?s3)" if "current_tcb ?s3 = Some c" for c
    using that c by (simp add: s2)
  note I = q_okI [OF objs _ _ _ _ _ ring' c']
  have v: "?v = hd (contents q s)"
    by (simp add: cont ring_hd [OF f R(5)] slots_def)
  have "slots ?s3 ?x' = slots s x" by (simp add: slots_def q_addr_def s2 fun_eq_iff)
  then have cont': "contents q ?s3 = tl (contents q s)"
    using I(2) x unat_next [OF R(3)] f' ring_pop [OF f] by (simp add: cont)
  have rf: "ring_frame q s ?s3"
    by (rule ring_frameI [OF x(1), of _ ?x']) (simp_all add: s2(2-))
  have fr: "q_frame q s ?s3" using x rf by (simp add: q_frame_def s2(2-) set_tokens_sems)
  have size': "q_size q ?s3 = q_size q s" using I(3) x by (simp add: size)
  show ?thesis by (rule that [OF run [unfolded v] I(1) cont' size' fr]) (use x in simp_all)
qed

lemma receive_empty:
  assumes ok: "q_ok q s" and none: "contents q s = []" and poll: "timeout = 0 \<or> \<not> kernel_running s"
  shows "os_queue_receive q timeout s = Some (Q_done OS_TIMEOUT None, s)"
proof -
  obtain x l e f where x: "queues s q = Some x" "mutexes s (Queue_Lock q) = Some l"
    "sems s (Queue_Empty q) = Some e" "sems s (Queue_Filled q) = Some f"
    "lock l = 0" "owner l = None" "m_wait_count l = 0" "s_wait_count e = 0" "s_wait_count f = 0" "ring_ok x e f"
    and c: "\<forall>c. current_tcb s = Some c \<longrightarrow> c < length (os_tasks s)"
    and cont: "contents q s =
      ring_list (slots s x) (unat (q_capacity x)) (unat (q_tail x)) (unat (sem_count f))"
    and size: "q_size q s = unat (q_capacity x)"
    using ok by (rule q_okE)
  note R = ring_okD [OF x(10)]
  have "unat (sem_count f) = 0" using none cont by (metis length_ring_list list.size(3))
  then have "sem_count f = 0" by (simp add: unat_eq_0)
  from sem_acquire_poll [OF x(4) this poll]
  have "q_step q (R_take timeout) s = Some (Q_done OS_TIMEOUT None, s)"
    by (simp add: after_acquire_def r_took_def)
  then show ?thesis by (simp add: os_queue_receive_def q_run_step)
qed

lemma contents_le: "q_ok q s \<Longrightarrow> length (contents q s) \<le> q_size q s"
  by (erule q_okE) (use ring_okD(6) in fastforce)

lemma q_ok_init:
  assumes "0 < cap" "4 * unat cap \<le> 2 ^ 32"
    and "\<And>c. current_tcb s = Some c \<Longrightarrow> c < length (os_tasks s)"
  shows "q_ok q (os_queue_init q buf cap s)" "contents q (os_queue_init q buf cap s) = []"
    "q_size q (os_queue_init q buf cap s) = unat cap"
  using assms
  by (auto simp: q_ok_def ring_ok_def contents_def q_size_def os_queue_init_def os_mutex_init_def
      os_semaphore_init_def ring_list_def Let_def word_neq_0_conv split: option.splits)

subsection \<open>The kernel around the queue\<close>

lemma undonated_idem: "undonated w (undonated w ts) = undonated w ts"
  by (rule nth_equalityI) (simp_all add: undonated_nth)

lemma q_frame_trans: "q_frame q s s' \<Longrightarrow> q_frame q s' s'' \<Longrightarrow> q_frame q s s''"
  by (simp add: q_frame_def undonated_idem) (blast intro: ring_frame_trans)

lemma q_ok_no_waiters:
  assumes "q_ok q s" "r \<in> {MutexQ (Queue_Lock q), SemQ (Queue_Empty q), SemQ (Queue_Filled q)}"
  shows "waiters s r = []" "get_wait_count s r = Some 0"
  using assms(1) by (rule q_okE; use assms(2) in \<open>auto simp: waiters_def split: option.splits\<close>)+

lemma q_frame_arrays:
  assumes "q_frame q s s'"
  shows "map_option length (get_wait_array s' r) = map_option length (get_wait_array s r)"
    and "r \<notin> {MutexQ (Queue_Lock q), SemQ (Queue_Empty q), SemQ (Queue_Filled q)} \<Longrightarrow>
      get_wait_array s' r = get_wait_array s r \<and> get_wait_count s' r = get_wait_count s r"
  using assms by (cases r; auto simp: q_frame_def option.map_comp comp_def)+

lemma kinv_q_frame:
  assumes inv: "kinv s" and fr: "q_frame q s s'" and ok: "q_ok q s" "q_ok q s'"
  shows "kinv s'"
proof -
  let ?R = "{MutexQ (Queue_Lock q), SemQ (Queue_Empty q), SemQ (Queue_Filled q)}"
  have w: "waiters s' r = waiters s r" for r
  proof (cases "r \<in> ?R")
    case True
    then show ?thesis using q_ok_no_waiters(1) [OF ok(1)] q_ok_no_waiters(1) [OF ok(2)] by metis
  next
    case False
    with q_frame_arrays(2) [OF fr] show ?thesis by (simp add: waiters_def)
  qed
  have shape: "wait_shape s' r" for r
  proof (cases "r \<in> ?R")
    case True
    from waits_okD(5) [OF kinvD(1) [OF inv], of r] q_ok_no_waiters(2) [OF ok(1) True]
    have "\<forall>a. get_wait_array s r = Some a \<longrightarrow> length a = wait_capacity r"
      by (simp add: wait_shape_def)
    with q_frame_arrays(1) [OF fr, of r]
    have "\<forall>a. get_wait_array s' r = Some a \<longrightarrow> length a = wait_capacity r"
      by (cases "get_wait_array s r") auto
    with q_ok_no_waiters(2) [OF ok(2) True] show ?thesis by (simp add: wait_shape_def)
  next
    case False
    with waits_okD(5) [OF kinvD(1) [OF inv], of r] q_frame_arrays(2) [OF fr] show ?thesis
      by (simp add: wait_shape_def)
  qed
  have tasks: "os_tasks s' = undonated (current_tcb s) (os_tasks s)" "task_count s' = task_count s"
    "current_tcb s' = current_tcb s" using fr by (simp_all add: q_frame_def)
  have "waits_ok (s\<lparr>os_tasks := undonated (current_tcb s) (os_tasks s)\<rparr>)"
    using kinvD(3) [OF inv] by (intro waits_ok_undonated [OF kinvD(1) [OF inv]]) (simp add: current_ok_def)
  then have "waits_ok s'" using shape by (simp add: waits_ok_def w tasks)
  moreover have "objs_ok s'"
    unfolding objs_ok_def
  proof (intro conjI allI impI)
    fix m x assume x: "mutexes s' m = Some x"
    show "mutex_ok s' m x"
    proof (cases "m = Queue_Lock q")
      case True
      from ok(2) obtain l where "mutexes s' (Queue_Lock q) = Some l" "lock l = 0" "owner l = None"
        by (rule q_okE)
      with True x q_ok_no_waiters(1) [OF ok(2)] show ?thesis by (simp add: mutex_ok_def)
    next
      case False
      with x fr have "mutexes s m = Some x" by (simp add: q_frame_def)
      with kinvD(2) [OF inv] have "mutex_ok s m x" by (simp add: objs_ok_def)
      then show ?thesis by (simp add: mutex_ok_def w tasks)
    qed
  next
    fix a x assume x: "sems s' a = Some x"
    show "sem_ok s' a x"
    proof (cases "a = Queue_Empty q \<or> a = Queue_Filled q")
      case True
      from ok(2) obtain y e f where y: "sems s' (Queue_Empty q) = Some e"
        "sems s' (Queue_Filled q) = Some f" "ring_ok y e f" by (rule q_okE)
      note R = ring_okD(6,8,9) [OF y(3)]
      have "sem_count e \<le> sem_max_count e" "sem_count f \<le> sem_max_count f"
        using R by (simp_all add: word_le_nat_alt)
      with True x y(1,2) q_ok_no_waiters(1) [OF ok(2)] show ?thesis by (auto simp: sem_ok_def)
    next
      case False
      with x fr have "sems s a = Some x" by (simp add: q_frame_def)
      with kinvD(2) [OF inv] have "sem_ok s a x" by (simp add: objs_ok_def)
      then show ?thesis by (simp add: sem_ok_def w)
    qed
  qed
  moreover have "current_ok s'" using kinvD(3) [OF inv] by (simp add: current_ok_def tasks)
  ultimately show ?thesis by (simp add: kinv_def)
qed

text \<open>The states a series of calls goes through, seen from where it started.\<close>

definition q_from :: "nat \<Rightarrow> kernel \<Rightarrow> kernel \<Rightarrow> bool" where
  "q_from q s0 s \<longleftrightarrow> q_ok q s \<and> (s = s0 \<or> q_frame q s0 s)"

lemma q_fromI: "q_from q s0 s \<Longrightarrow> q_frame q s s' \<Longrightarrow> q_ok q s' \<Longrightarrow> q_from q s0 s'"
  by (auto simp: q_from_def intro: q_frame_trans)

lemma q_from_refl: "q_ok q s \<Longrightarrow> q_from q s s"
  by (simp add: q_from_def)

subsection \<open>The contract\<close>

text \<open>A send and a receive that do not wait, as the contract sees them.\<close>

definition poll_send :: "nat \<Rightarrow> u32 \<Rightarrow> kernel \<Rightarrow> kernel option" where
  "poll_send q m s = (case os_queue_send q m 0 s of
     Some (Q_done c v, s') \<Rightarrow> if c = OS_SUCCESS then Some s' else None | _ \<Rightarrow> None)"

definition poll_receive :: "nat \<Rightarrow> kernel \<Rightarrow> (u32 option \<times> kernel) option" where
  "poll_receive q s = (case os_queue_receive q 0 s of
     Some (Q_done c (Some v), s') \<Rightarrow> if c = OS_SUCCESS then Some (Some v, s') else None
   | Some (Q_done c None, s') \<Rightarrow> if c = OS_TIMEOUT then Some (None, s') else None
   | _ \<Rightarrow> None)"

lemma poll_send_ok:
  "os_queue_send q m 0 s = Some (Q_done OS_SUCCESS v, s') \<Longrightarrow> poll_send q m s = Some s'"
  by (simp add: poll_send_def)

lemma poll_sendD:
  "poll_send q m s = Some s' \<Longrightarrow> \<exists>v. os_queue_send q m 0 s = Some (Q_done OS_SUCCESS v, s')"
  by (auto simp: poll_send_def split: option.splits prod.splits q_pc.splits if_splits)

lemma poll_receiveD:
  "poll_receive q s = Some (Some v, s') \<Longrightarrow>
   os_queue_receive q 0 s = Some (Q_done OS_SUCCESS (Some v), s')"
  by (auto simp: poll_receive_def split: option.splits prod.splits q_pc.splits if_splits)

interpretation os_queue:
  lossy_fifo "q_from q s0" "contents q" "q_size q" "poll_send q" "poll_receive q" for q s0
proof unfold_locales
  fix s m assume inv: "q_from q s0 s"
  then have ok: "q_ok q s" by (simp add: q_from_def)
  show le: "length (contents q s) \<le> q_size q s" by (rule contents_le [OF ok])
  show "\<exists>s'. poll_send q m s = Some s' \<and> q_from q s0 s' \<and> q_size q s' = q_size q s \<and>
    contents q s' = last_n (q_size q s) (contents q s @ [m])"
  proof (cases "length (contents q s) < q_size q s")
    case True
    then have "last_n (q_size q s) (contents q s @ [m]) = contents q s @ [m]" by simp
    with send_free [OF ok True, of m 0] q_fromI [OF inv] show ?thesis
      by (metis (lifting) poll_send_ok)
  next
    case False
    with le have full: "length (contents q s) = q_size q s" by simp
    moreover have "0 < q_size q s" using ok by (rule q_okE) (simp add: ring_okD(4))
    ultimately show ?thesis
      using send_full [OF ok full, of 0 m] last_n_full [OF full, of m] q_fromI [OF inv]
      by (metis (lifting) poll_send_ok)
  qed
next
  fix s assume inv: "q_from q s0 s" and some: "contents q s \<noteq> []"
  then have ok: "q_ok q s" by (simp add: q_from_def)
  from receive_some [OF ok some, of 0] obtain s' where
    "os_queue_receive q 0 s = Some (Q_done OS_SUCCESS (Some (hd (contents q s))), s')"
    "q_ok q s'" "contents q s' = tl (contents q s)" "q_size q s' = q_size q s" "q_frame q s s'"
    by blast
  with q_fromI [OF inv] show "\<exists>s'. poll_receive q s = Some (Some (hd (contents q s)), s') \<and>
    q_from q s0 s' \<and> q_size q s' = q_size q s \<and> contents q s' = tl (contents q s)"
    by (auto simp: poll_receive_def)
next
  fix s assume "q_from q s0 s" "contents q s = []"
  then show "poll_receive q s = Some (None, s)"
    using receive_empty [of q s 0] by (simp add: poll_receive_def q_from_def)
qed

end
