(* ===== verification/Self_Test.thy ===== *)
theory Self_Test
  imports Ring_Queue Task_Create
begin

text \<open>
  The power-on self-test of \<^verbatim>\<open>Kernel/os_tests.c\<close>: \<^verbatim>\<open>test_mutex_basic\<close>,
  \<^verbatim>\<open>test_semaphore_basic\<close>, \<^verbatim>\<open>test_queue_basic\<close> and \<^verbatim>\<open>os_run_post\<close>. The objects on the
  stack of \<^verbatim>\<open>main\<close> are parameters: the addresses of the mutex, the semaphore and the queue,
  and of the buffer. Printing has no effect on the kernel and is left out. The lemmas show
  that the test passes on the model of the kernel, and what it leaves behind.
\<close>

subsection \<open>The model\<close>

text \<open>\<^verbatim>\<open>fail\<close> prints why and never returns.\<close>

datatype post_result = Passed | Failed string

definition fail :: "string \<Rightarrow> kernel \<Rightarrow> (post_result \<times> kernel) option" where
  "fail why s = Some (Failed why, s)"

definition test_mutex_basic :: "maddr \<Rightarrow> kernel \<Rightarrow> (post_result \<times> kernel) option" where
  "test_mutex_basic m s = do {
     (r1, s1) \<leftarrow> os_mutex_acquire m 0 (os_mutex_init m s);
     if r1 \<noteq> Returned OS_SUCCESS then fail ''acquire rejected'' s1
     else do {
       x1 \<leftarrow> mutexes s1 m;
       if lock x1 \<noteq> 1 then fail ''lock not set'' s1
       else do {
         (r2, s2) \<leftarrow> os_mutex_acquire m 0 s1;
         if r2 = Returned OS_SUCCESS then fail ''re-acquired a held mutex'' s2
         else do {
           s3 \<leftarrow> os_mutex_release m s2;
           x3 \<leftarrow> mutexes s3 m;
           if lock x3 \<noteq> 0 \<or> owner x3 \<noteq> None then fail ''lock not cleared'' s3
           else Some (Passed, s3) } } } }"

definition test_semaphore_basic :: "saddr \<Rightarrow> kernel \<Rightarrow> (post_result \<times> kernel) option" where
  "test_semaphore_basic a s = do {
     (r1, s1) \<leftarrow> os_semaphore_acquire a 0 (os_semaphore_init a 2 2 s);
     x1 \<leftarrow> sems s1 a;
     if r1 \<noteq> Returned OS_SUCCESS \<or> sem_count x1 \<noteq> 1 then fail ''first take'' s1
     else do {
       (r2, s2) \<leftarrow> os_semaphore_acquire a 0 s1;
       x2 \<leftarrow> sems s2 a;
       if r2 \<noteq> Returned OS_SUCCESS \<or> sem_count x2 \<noteq> 0 then fail ''second take'' s2
       else do {
         (r3, s3) \<leftarrow> os_semaphore_acquire a 0 s2;
         if r3 \<noteq> Returned OS_TIMEOUT then fail ''empty take should time out'' s3
         else do {
           s4 \<leftarrow> os_semaphore_release a s3;
           x4 \<leftarrow> sems s4 a;
           if sem_count x4 \<noteq> 1 then fail ''give'' s4
           else do {
             s5 \<leftarrow> os_semaphore_release a s4;
             s6 \<leftarrow> os_semaphore_release a s5;
             x6 \<leftarrow> sems s6 a;
             if sem_count x6 \<noteq> 2 then fail ''count exceeded max'' s6
             else Some (Passed, s6) } } } } }"

text \<open>The loops of \<^verbatim>\<open>test_queue_basic\<close>; a send's result is not looked at.\<close>

fun post_sends :: "nat \<Rightarrow> u32 list \<Rightarrow> kernel \<Rightarrow> kernel option" where
  "post_sends q [] s = Some s"
| "post_sends q (v # vs) s = do { (_, s') \<leftarrow> os_queue_send q v 0 s; post_sends q vs s' }"

fun post_expect :: "nat \<Rightarrow> u32 list \<Rightarrow> kernel \<Rightarrow> (bool \<times> kernel) option" where
  "post_expect q [] s = Some (True, s)"
| "post_expect q (v # vs) s = do {
     (pc, s') \<leftarrow> os_queue_receive q 0 s;
     if pc \<noteq> Q_done OS_SUCCESS (Some v) then Some (False, s') else post_expect q vs s' }"

definition test_queue_basic :: "nat \<Rightarrow> u32 \<Rightarrow> kernel \<Rightarrow> (post_result \<times> kernel) option" where
  "test_queue_basic q buf s = do {
     s1 \<leftarrow> post_sends q [0xDEADBEEF] (os_queue_init q buf 4 s);
     (pc, s2) \<leftarrow> os_queue_receive q 0 s1;
     (case pc of
        Q_done c v \<Rightarrow>
          if c \<noteq> OS_SUCCESS then fail ''receive'' s2
          else if v \<noteq> Some 0xDEADBEEF then fail ''data mismatch'' s2
          else do {
            s3 \<leftarrow> post_sends q [1, 2, 3, 4] s2;
            (ok4, s4) \<leftarrow> post_expect q [1, 2, 3, 4] s3;
            if \<not> ok4 then fail ''FIFO order'' s4
            else do {
              (pc5, s5) \<leftarrow> os_queue_receive q 0 s4;
              if pc5 \<noteq> Q_done OS_TIMEOUT None then fail ''empty receive should time out'' s5
              else do {
                s6 \<leftarrow> post_sends q [1, 2, 3, 4, 5, 6] s5;
                (ok7, s7) \<leftarrow> post_expect q [3] s6;
                if \<not> ok7 then fail ''overwrite policy'' s7 else Some (Passed, s7) } } }
      | _ \<Rightarrow> fail ''receive'' s2) }"

text \<open>The tests run in order; one that fails does not return.\<close>

definition os_run_post :: "maddr \<Rightarrow> saddr \<Rightarrow> nat \<Rightarrow> u32 \<Rightarrow> kernel \<Rightarrow> (post_result \<times> kernel) option" where
  "os_run_post m a q buf s = do {
     (r1, s1) \<leftarrow> test_mutex_basic m s;
     if r1 \<noteq> Passed then Some (r1, s1)
     else do {
       (r2, s2) \<leftarrow> test_semaphore_basic a s1;
       if r2 \<noteq> Passed then Some (r2, s2)
       else test_queue_basic q buf s2 } }"

subsection \<open>The mutex and the semaphore test\<close>

lemma mutex_init_at:
  "\<exists>x. mutexes (os_mutex_init m s) m = Some x \<and> lock x = 0 \<and> owner x = None \<and> m_wait_count x = 0"
  by (simp add: os_mutex_init_def split: option.splits)

lemma test_mutex_passes:
  assumes "current_tcb s = None"
  shows "test_mutex_basic m s = Some (Passed, os_mutex_init m s)"
proof -
  let ?s0 = "os_mutex_init m s"
  obtain x where x: "mutexes ?s0 m = Some x" "lock x = 0" "owner x = None" "m_wait_count x = 0"
    using mutex_init_at by blast
  let ?s1 = "set_lock m 1 None ?s0"
  have a1: "os_mutex_acquire m 0 ?s0 = Some (Returned OS_SUCCESS, ?s1)"
    using mutex_acquire_free [OF x(1,2), of 0] assms by simp
  have m1: "mutexes ?s1 m = Some (x\<lparr>lock := 1, owner := None\<rparr>)" using x by (simp add: set_lock_mutexes)
  have a2: "os_mutex_acquire m 0 ?s1 = Some (Returned OS_FAIL, ?s1)"
    using mutex_acquire_own [OF m1, of 0] assms by simp
  have "set_lock m 0 None (?s1\<lparr>os_tasks := undonated None (os_tasks ?s1)\<rparr>) = ?s0"
    using x by (simp add: set_lock_def undonated_def fun_upd_idem)
  then have rel: "os_mutex_release m ?s1 = Some ?s0"
    using mutex_release_uncontended [OF m1] x by simp
  show ?thesis using a1 a2 rel m1 x by (simp add: test_mutex_basic_def)
qed

lemma test_semaphore_passes:
  "test_semaphore_basic a s = Some (Passed, os_semaphore_init a 2 2 s)"
proof -
  let ?t = "\<lambda>n. set_tokens a n (os_semaphore_init a 2 2 s)"
  obtain x where x: "sems (os_semaphore_init a 2 2 s) a = Some x" "sem_count x = 2"
    "sem_max_count x = 2" "s_wait_count x = 0"
    by (auto simp: os_semaphore_init_def split: option.splits)
  have t2: "?t 2 = os_semaphore_init a 2 2 s" using x by (simp add: set_tokens_def fun_upd_idem)
  have at: "sems (?t n) a = Some (x\<lparr>sem_count := n\<rparr>)" for n using x by (simp add: set_tokens_sems)
  have twice: "set_tokens a k (?t n) = ?t k" for k n
    by (simp add: set_tokens_def option.map_comp comp_def)
  have take: "os_semaphore_acquire a 0 (?t n) = Some (Returned OS_SUCCESS, ?t (n - 1))"
    if "n \<noteq> 0" for n using sem_acquire_token [OF at, of n 0] that by (simp add: twice)
  have empty: "os_semaphore_acquire a 0 (?t 0) = Some (Returned OS_TIMEOUT, ?t 0)"
    using sem_acquire_poll [OF at, of 0 0] by simp
  have give: "os_semaphore_release a (?t n) = Some (if n < 2 then ?t (n + 1) else ?t n)" for n
    using sem_release_uncontended [OF at, of n] x by (simp add: twice)
  have "os_semaphore_acquire a 0 (os_semaphore_init a 2 2 s) = Some (Returned OS_SUCCESS, ?t 1)"
    using take [of 2] by (simp add: t2)
  with take [of 1] empty give [of 0] give [of 1] give [of 2] show ?thesis
    by (simp add: test_semaphore_basic_def at t2 x(1,2))
qed

subsection \<open>The queue test\<close>

lemma post_sends_feed: "feed (poll_send q) vs s = Some s' \<Longrightarrow> post_sends q vs s = Some s'"
proof (induction vs arbitrary: s)
  case (Cons v vs)
  then obtain s1 where "poll_send q v s = Some s1" "feed (poll_send q) vs s1 = Some s'"
    by (auto split: option.splits)
  with poll_sendD Cons.IH show ?case by fastforce
qed simp

lemma post_expect_drain:
  "drain (poll_receive q) (length vs) s = Some (map Some vs, s') \<Longrightarrow> post_expect q vs s = Some (True, s')"
proof (induction vs arbitrary: s)
  case (Cons v vs)
  then obtain s1 where "poll_receive q s = Some (Some v, s1)"
    "drain (poll_receive q) (length vs) s1 = Some (map Some vs, s')"
    by (auto split: option.splits prod.splits)
  with poll_receiveD Cons.IH show ?case by fastforce
qed simp

lemma post_sends_ok:
  assumes "q_from q s0 s"
  obtains s' where "post_sends q vs s = Some s'" "q_from q s0 s'" "q_size q s' = q_size q s"
    "contents q s' = last_n (q_size q s) (contents q s @ vs)"
  using os_queue.feed_ok [OF assms, of vs] post_sends_feed by blast

lemma post_expect_ok:
  assumes "q_from q s0 s" "contents q s = vs @ ws"
  obtains s' where "post_expect q vs s = Some (True, s')" "q_from q s0 s'" "q_size q s' = q_size q s"
    "contents q s' = ws"
  using os_queue.drain_ok [OF assms(1), of "length vs"] assms(2) post_expect_drain by fastforce

lemma test_queue_passes:
  assumes "\<And>c. current_tcb s = Some c \<Longrightarrow> c < length (os_tasks s)"
  obtains s' where "test_queue_basic q buf s = Some (Passed, s')"
    "q_from q (os_queue_init q buf 4 s) s'"
proof -
  let ?s0 = "os_queue_init q buf 4 s"
  have init: "q_ok q ?s0" "contents q ?s0 = []" "q_size q ?s0 = 4"
    using q_ok_init [of 4 s q buf] assms by auto
  obtain s1 where s1: "post_sends q [0xDEADBEEF] ?s0 = Some s1" "q_from q ?s0 s1"
    "q_size q s1 = 4" "contents q s1 = [0xDEADBEEF]"
    using post_sends_ok [OF q_from_refl [OF init(1)], of "[0xDEADBEEF]"] init by auto
  obtain s2 where s2: "os_queue_receive q 0 s1 = Some (Q_done OS_SUCCESS (Some 0xDEADBEEF), s2)"
    "q_from q ?s0 s2" "q_size q s2 = 4" "contents q s2 = []"
    using receive_some [of q s1 0] s1 q_fromI [OF s1(2)] by (auto simp: q_from_def)
  obtain s3 where s3: "post_sends q [1, 2, 3, 4] s2 = Some s3" "q_from q ?s0 s3"
    "q_size q s3 = 4" "contents q s3 = [1, 2, 3, 4]"
    using post_sends_ok [OF s2(2), of "[1, 2, 3, 4]"] s2 by auto
  obtain s4 where s4: "post_expect q [1, 2, 3, 4] s3 = Some (True, s4)" "q_from q ?s0 s4"
    "q_size q s4 = 4" "contents q s4 = []"
    using post_expect_ok [OF s3(2), of "[1, 2, 3, 4]" "[]"] s3 by auto
  have s5: "os_queue_receive q 0 s4 = Some (Q_done OS_TIMEOUT None, s4)"
    using receive_empty [of q s4 0] s4 by (simp add: q_from_def)
  obtain s6 where s6: "post_sends q [1, 2, 3, 4, 5, 6] s4 = Some s6" "q_from q ?s0 s6"
    "q_size q s6 = 4" "contents q s6 = [3, 4, 5, 6]"
    using post_sends_ok [OF s4(2), of "[1, 2, 3, 4, 5, 6]"] s4 by (auto simp: last_n_def)
  obtain s7 where s7: "post_expect q [3] s6 = Some (True, s7)" "q_from q ?s0 s7"
    using post_expect_ok [OF s6(2), of "[3]" "[4, 5, 6]"] s6 by auto
  show ?thesis
    using that [OF _ s7(2)] s1(1) s2(1) s3(1) s4(1) s5 s6(1) s7(1)
    by (simp add: test_queue_basic_def del: post_sends.simps post_expect.simps)
qed

lemma kinv_queue_init:
  assumes inv: "kinv s" and none: "waiters s (MutexQ (Queue_Lock q)) = []"
    "waiters s (SemQ (Queue_Empty q)) = []" "waiters s (SemQ (Queue_Filled q)) = []"
  shows "kinv (os_queue_init q buf cap s)"
proof -
  let ?s1 = "s\<lparr>queues := (queues s)(q \<mapsto> \<lparr>q_buffer = buf, q_capacity = cap, q_head = 0, q_tail = 0\<rparr>)\<rparr>"
  have s1: "kinv ?s1"
    using inv by (simp add: kinv_def waits_ok_def objs_ok_def mutex_ok_def sem_ok_def current_ok_def
        wait_shape_def)
  have "kinv (os_mutex_init (Queue_Lock q) ?s1)"
    using none by (intro kinv_mutex_init [OF s1]) simp
  then have "kinv (os_semaphore_init (Queue_Empty q) cap cap (os_mutex_init (Queue_Lock q) ?s1))"
    using none by (intro kinv_semaphore_init) (simp_all add: waiters_init)
  then show ?thesis
    using none by (simp add: os_queue_init_def Let_def kinv_semaphore_init waiters_init)
qed

text \<open>The state the self-test starts from.\<close>

lemma kinv_boot: "kinv (os_kernel_init (reset_state h cr))"
proof -
  let ?r = "reset_state h (cr OR 7)"
  have eq: "os_kernel_init (reset_state h cr) = ?r\<lparr>primask := 1\<rparr>"
    by (simp add: os_kernel_init_def reset_state_def)
  have "kinv (?r\<lparr>primask := 1\<rparr>) = kinv ?r"
    by (simp add: kinv_def waits_ok_def objs_ok_def mutex_ok_def sem_ok_def current_ok_def wait_shape_def)
  with kinv_reset show ?thesis unfolding eq by blast
qed

lemma no_waiters:
  assumes "kinv s" "\<forall>t<tc s. wait_queue (os_tasks s ! t) = None"
  shows "waiters s r = []"
proof -
  have "p \<notin> set (waiters s r)" for p
  proof
    assume "p \<in> set (waiters s r)"
    with waits_okD(7) [OF kinvD(1) [OF assms(1)]] obtain t where "t < tc s" "Some t \<in> set (waiters s r)"
      by blast
    with waits_okD(8) [OF kinvD(1) [OF assms(1)]] assms(2) show False by auto
  qed
  then show ?thesis by (cases "waiters s r") auto
qed

lemma run_post_ok:
  assumes "kinv s" "current_tcb s = None" "waiters s (MutexQ m) = []" "waiters s (SemQ a) = []"
    and "waiters s (MutexQ (Queue_Lock q)) = []" "waiters s (SemQ (Queue_Empty q)) = []"
      "waiters s (SemQ (Queue_Filled q)) = []"
  obtains s' where "os_run_post m a q buf s = Some (Passed, s')" "kinv s'" "os_tasks s' = os_tasks s"
    "task_count s' = task_count s" "current_tcb s' = None" "primask s' = primask s"
    "pendsv s' = pendsv s" "kernel_running s' = kernel_running s" "halted_in s' = halted_in s"
proof -
  let ?s1 = "os_mutex_init m s" and ?s2 = "os_semaphore_init a 2 2 (os_mutex_init m s)"
  let ?s3 = "os_queue_init q buf 4 ?s2"
  have "kinv ?s2"
    using assms(4) by (intro kinv_semaphore_init kinv_mutex_init [OF assms(1,3)]) (simp_all add: waiters_init)
  then have k3: "kinv ?s3"
    using assms(5-7) by (intro kinv_queue_init) (simp_all add: waiters_init)
  obtain s' where s': "test_queue_basic q buf ?s2 = Some (Passed, s')" "q_from q ?s3 s'"
    by (rule test_queue_passes [of ?s2 q buf]) (use assms(2) in simp)
  have ok: "q_ok q ?s3" by (rule q_ok_init) (use assms(2) in simp_all)
  have "kinv s'" using s'(2) k3 kinv_q_frame [OF k3 _ ok] by (auto simp: q_from_def)
  moreover have init: "os_tasks ?s3 = os_tasks s" "task_count ?s3 = task_count s" "current_tcb ?s3 = None"
    "primask ?s3 = primask s" "pendsv ?s3 = pendsv s" "kernel_running ?s3 = kernel_running s"
    "halted_in ?s3 = halted_in s"
    using assms(2) by (simp_all add: os_queue_init_def Let_def os_mutex_init_def os_semaphore_init_def)
  have "os_tasks s' = os_tasks s" "task_count s' = task_count s" "current_tcb s' = None"
    "primask s' = primask s" "pendsv s' = pendsv s" "kernel_running s' = kernel_running s"
    "halted_in s' = halted_in s"
    using s'(2) init by (auto simp: q_from_def q_frame_def undonated_def)
  moreover have "os_run_post m a q buf s = Some (Passed, s')"
    using test_mutex_passes [OF assms(2), of m] test_semaphore_passes [of a ?s1] s'(1)
    by (simp add: os_run_post_def)
  ultimately show ?thesis using that by blast
qed

end
