(* ===== verification/Samples.thy ===== *)
theory Samples
  imports Kernel_System Self_Test
begin

text \<open>
  Concrete kernels on which the properties are exercised: three tasks, one mutex, one
  semaphore. \<open>kinv_sample\<close> reduces the invariant of such a kernel to finite checks.
\<close>

definition sample :: "tcb list \<Rightarrow> tid \<Rightarrow> os_mutex \<Rightarrow> os_semaphore \<Rightarrow> bool \<Rightarrow> kernel" where
  "sample ts c m x p = \<lparr>os_tasks = ts @ replicate 3 tcb_zero, task_count = 3, current_tcb = Some c,
     os_ticks = 0, kernel_running = True, mutexes = [Mutex_At 0 \<mapsto> m], sems = [Sem_At 0 \<mapsto> x],
     queues = (\<lambda>_. None), mem = (\<lambda>_. STACK_CANARY), primask = 0, pendsv = p, systick_load = 15999,
     systick_val = 0, systick_ctrl = 7, dbgmcu_cr = 7, pendsv_prio = 255, systick_prio = 254,
     halted_in = None\<rparr>"

lemma sample_simps [simp]:
  "os_tasks (sample ts c m x p) = ts @ replicate 3 tcb_zero" "task_count (sample ts c m x p) = 3"
  "current_tcb (sample ts c m x p) = Some c" "mutexes (sample ts c m x p) = [Mutex_At 0 \<mapsto> m]"
  "sems (sample ts c m x p) = [Sem_At 0 \<mapsto> x]" "kernel_running (sample ts c m x p)"
  "pendsv (sample ts c m x p) = p" "halted_in (sample ts c m x p) = None"
  "mem (sample ts c m x p) = (\<lambda>_. STACK_CANARY)" "primask (sample ts c m x p) = 0"
  "queues (sample ts c m x p) = (\<lambda>_. None)" "os_ticks (sample ts c m x p) = 0"
  by (simp_all add: sample_def)

lemma waiters_sample:
  "waiters (sample ts c m x p) r =
     (if r = MutexQ (Mutex_At 0) then take (unat (m_wait_count m)) (m_wait_queue m)
      else if r = SemQ (Sem_At 0) then take (unat (s_wait_count x)) (s_wait_queue x) else [])"
  by (cases r) (auto simp: waiters_def)

text \<open>A task of the sample: a priority, a state, a sleep and an object waited for.\<close>

definition task :: "u32 \<Rightarrow> u8 \<Rightarrow> task_state \<Rightarrow> u32 \<Rightarrow> wref option \<Rightarrow> tcb" where
  "task stk q st ms w = \<lparr>stackPtr = stk + 960, state = st, base_priority = q, current_priority = q,
     stackBase = stk, stackSize = 256, sleep_time = ms, wait_queue = w, wait_count = w, wait_result = 0\<rparr>"

lemma task_simps [simp]:
  "state (task stk q st ms w) = st" "current_priority (task stk q st ms w) = q"
  "base_priority (task stk q st ms w) = q" "sleep_time (task stk q st ms w) = ms"
  "wait_queue (task stk q st ms w) = w" "wait_count (task stk q st ms w) = w"
  "stackBase (task stk q st ms w) = stk" "stackPtr (task stk q st ms w) = stk + 960"
  "task_ok (task stk q st ms w) = ((w \<noteq> None \<longrightarrow> st = BLOCKED) \<and> (ms \<noteq> 0 \<longrightarrow> st = BLOCKED))"
  by (simp_all add: task_def task_ok_def)

definition idle_mutex :: os_mutex where
  "idle_mutex = \<lparr>lock = 0, owner = None, m_wait_queue = replicate 5 None, m_wait_count = 0\<rparr>"

definition held_mutex :: "tid \<Rightarrow> tid list \<Rightarrow> os_mutex" where
  "held_mutex w ts = \<lparr>lock = 1, owner = Some w,
     m_wait_queue = map Some ts @ replicate (5 - length ts) None, m_wait_count = of_nat (length ts)\<rparr>"

definition sample_sem :: "u32 \<Rightarrow> u32 \<Rightarrow> tid list \<Rightarrow> os_semaphore" where
  "sample_sem n k ts = \<lparr>sem_count = n, sem_max_count = k,
     s_wait_queue = map Some ts @ replicate (6 - length ts) None, s_wait_count = of_nat (length ts)\<rparr>"

lemma kinv_sample:
  assumes ts: "length ts = 3" "list_all task_ok ts" and c: "c < 3"
    and arrays: "length (m_wait_queue m) = 5" "unat (m_wait_count m) \<le> 5"
      "length (s_wait_queue x) = 6" "unat (s_wait_count x) \<le> 6"
    and mw: "take (unat (m_wait_count m)) (m_wait_queue m) = map Some ms"
      "distinct ms" "\<forall>t<3. t \<in> set ms \<longleftrightarrow> wait_queue (ts ! t) = Some (MutexQ (Mutex_At 0))"
      "list_all (\<lambda>t. t < 3) ms"
    and xw: "take (unat (s_wait_count x)) (s_wait_queue x) = map Some xs"
      "distinct xs" "\<forall>t<3. t \<in> set xs \<longleftrightarrow> wait_queue (ts ! t) = Some (SemQ (Sem_At 0))"
      "list_all (\<lambda>t. t < 3) xs"
    and other: "\<forall>t<3. wait_queue (ts ! t) \<in> {None, Some (MutexQ (Mutex_At 0)), Some (SemQ (Sem_At 0))}"
    and mok: "lock m = 0 \<and> owner m = None \<and> ms = [] \<or> lock m = 1 \<and> (\<exists>w<3. owner m = Some w \<and> w \<notin> set ms)"
    and xok: "sem_count x \<le> sem_max_count x" "sem_count x \<noteq> 0 \<longrightarrow> xs = []"
  shows "kinv (sample ts c m x p)"
proof -
  let ?s = "sample ts c m x p"
  have w: "waiters ?s r = (if r = MutexQ (Mutex_At 0) then map Some ms
      else if r = SemQ (Sem_At 0) then map Some xs else [])" for r
    by (simp only: waiters_sample mw(1) xw(1))
  have nth: "(ts @ replicate 3 tcb_zero) ! t = ts ! t" if "t < 3" for t
    using that ts(1) by (simp add: nth_append)
  have "wait_shape ?s r" for r
  proof (cases r)
    case (MutexQ b)
    with arrays(1,2) show ?thesis by (simp add: wait_shape_def model_defs)
  next
    case (SemQ b)
    with arrays(3,4) show ?thesis by (simp add: wait_shape_def model_defs)
  qed
  moreover have "Some t \<in> set (waiters ?s r) \<longleftrightarrow> wait_queue (ts ! t) = Some r" if "t < 3" for t r
    using that mw(3) xw(3) other by (auto simp: w)
  moreover have "task_ok (ts ! t)" if "t < 3" for t using that ts by (simp add: list_all_length)
  moreover have "distinct (waiters ?s r)" "\<forall>q\<in>set (waiters ?s r). \<exists>t<3. q = Some t" for r
    using mw(2,4) xw(2,4) by (auto simp: w distinct_map list_all_iff)
  ultimately have "waits_ok ?s" using ts(1) by (simp add: waits_ok_def nth model_defs)
  moreover have "mutex_ok ?s b y" if "mutexes ?s b = Some y" for b y
    using mok that by (auto simp: mutex_ok_def w split: if_splits)
  moreover have "sem_ok ?s b y" if "sems ?s b = Some y" for b y
    using xok that by (auto simp: sem_ok_def w split: if_splits)
  ultimately show ?thesis using c by (simp add: kinv_def objs_ok_def current_ok_def)
qed

lemmas sample_eval = idle_mutex_def held_mutex_def sample_sem_def model_defs All_less_Suc
  numeral_3_eq_3 Ex_less_Suc

text \<open>Task 0 (priority 2) runs, everything is free.\<close>

definition fresh :: kernel where
  "fresh = sample [task 0x20000400 2 RUNNING 0 None, task 0x20000800 1 READY 0 None,
     task 0x20000C00 0 READY 0 None] 0 idle_mutex (sample_sem 0 1 []) False"

lemma kinv_fresh: "kinv fresh"
  unfolding fresh_def
  by (rule kinv_sample [where ms = "[]" and xs = "[]"]) (simp_all add: sample_eval)

text \<open>Task 0 runs while task 1 holds the mutex.\<close>

definition contended :: kernel where
  "contended = sample [task 0x20000400 2 RUNNING 0 None, task 0x20000800 1 READY 0 None,
     task 0x20000C00 0 READY 0 None] 0 (held_mutex 1 []) (sample_sem 0 1 []) False"

lemma kinv_contended: "kinv contended"
  unfolding contended_def
  by (rule kinv_sample [where ms = "[]" and xs = "[]"]) (simp_all add: sample_eval)

text \<open>Tasks 1 and 0 wait for the mutex, which the idle task 2 holds; 0 times out in 3 ticks.\<close>

definition queued :: kernel where
  "queued = sample [task 0x20000400 2 BLOCKED 3 (Some (MutexQ (Mutex_At 0))),
     task 0x20000800 1 BLOCKED 0 (Some (MutexQ (Mutex_At 0))),
     (task 0x20000C00 0 RUNNING 0 None)\<lparr>current_priority := 2\<rparr>] 2
     (held_mutex 2 [1, 0]) (sample_sem 0 1 []) False"

lemma kinv_queued: "kinv queued"
  unfolding queued_def
  by (rule kinv_sample [where ms = "[1, 0]" and xs = "[]"]) (simp_all add: sample_eval task_ok_def)

text \<open>Tasks 1 and 0 wait for the semaphore; the idle task 2 runs.\<close>

definition starved :: kernel where
  "starved = sample [task 0x20000400 2 BLOCKED 3 (Some (SemQ (Sem_At 0))),
     task 0x20000800 1 BLOCKED 0 (Some (SemQ (Sem_At 0))), task 0x20000C00 0 RUNNING 0 None] 2
     idle_mutex (sample_sem 0 1 [1, 0]) False"

lemma kinv_starved: "kinv starved"
  unfolding starved_def
  by (rule kinv_sample [where ms = "[]" and xs = "[1, 0]"]) (simp_all add: sample_eval)

end
