(* ===== verification/Wait_Service.thy ===== *)
theory Wait_Service
  imports Kernel_System "HOL-Library.Multiset"
begin

text \<open>
  What an object with a wait queue owes its waiters: every release serves one of them, the
  most urgent, and among equally urgent ones the one that came first. The contract is a
  locale; a series of releases then serves everybody exactly once, in that order. Mutex and
  semaphore are both instances.
\<close>

text \<open>A series of releases, and what each of them reports.\<close>

fun serve_n :: "('s \<Rightarrow> ('r \<times> 's) option) \<Rightarrow> nat \<Rightarrow> 's \<Rightarrow> ('r list \<times> 's) option" where
  "serve_n serve 0 s = Some ([], s)"
| "serve_n serve (Suc n) s = do {
     (r, s') \<leftarrow> serve s;
     (rs, s'') \<leftarrow> serve_n serve n s';
     Some (r # rs, s'') }"

text \<open>The order of service: descending urgency, first come first served among equals.\<close>

definition fair_order :: "('t \<Rightarrow> 'p :: linorder) \<Rightarrow> 't list \<Rightarrow> 't list \<Rightarrow> bool" where
  "fair_order f xs ts \<longleftrightarrow> mset ts = mset xs \<and> sorted_wrt (\<lambda>a b. f b \<le> f a) ts \<and>
     (\<forall>p. filter (\<lambda>t. f t = p) ts = filter (\<lambda>t. f t = p) xs)"

lemma filter_remove1_first:
  assumes "first_max f None xs = Some n"
  shows "filter (\<lambda>t. f t = p) xs =
    (if f n = p then n # filter (\<lambda>t. f t = p) (remove1 n xs) else filter (\<lambda>t. f t = p) (remove1 n xs))"
proof -
  from first_max_split [OF assms] obtain ys zs where xs: "xs = ys @ n # zs" and ys: "\<forall>y\<in>set ys. f y < f n"
    by blast
  then have "n \<notin> set ys" by auto
  then have "remove1 n xs = ys @ zs" using xs by (simp add: remove1_append)
  moreover have "filter (\<lambda>t. f t = p) ys = []" if "f n = p" using ys that by (auto simp: filter_empty_conv)
  ultimately show ?thesis using xs by auto
qed

lemma fair_order_step:
  assumes pick: "first_max f None xs = Some n" and rest: "fair_order f (remove1 n xs) ts"
  shows "fair_order f xs (n # ts)"
proof -
  have n: "n \<in> set xs" using first_max_in [OF pick] .
  have "set ts \<subseteq> set xs"
    using rest n set_remove1_subset [of n xs] by (metis fair_order_def set_mset_mset)
  then have "\<forall>t\<in>set ts. f t \<le> f n" using first_max_ge [OF pick] by blast
  moreover have "mset (n # ts) = mset xs" using rest n by (simp add: fair_order_def)
  moreover have "filter (\<lambda>t. f t = p) (n # ts) = filter (\<lambda>t. f t = p) xs" for p
    using rest by (simp add: fair_order_def filter_remove1_first [OF pick])
  ultimately show ?thesis using rest by (simp add: fair_order_def)
qed

lemma fair_order_cong: "(\<And>t. t \<in> set xs \<Longrightarrow> f t = g t) \<Longrightarrow> fair_order g xs ts \<Longrightarrow> fair_order f xs ts"
proof -
  assume eq: "\<And>t. t \<in> set xs \<Longrightarrow> f t = g t" and fair: "fair_order g xs ts"
  then have same: "set ts = set xs" by (metis fair_order_def set_mset_mset)
  have "sorted_wrt (\<lambda>a b. f b \<le> f a) ts"
    using fair eq same by (auto simp: fair_order_def intro: sorted_wrt_mono_rel [rotated])
  moreover have "filter (\<lambda>t. f t = p) ts = filter (\<lambda>t. f t = p) xs" for p
  proof -
    have "filter (\<lambda>t. f t = p) zs = filter (\<lambda>t. g t = p) zs" if "set zs \<subseteq> set xs" for zs
      using eq that by (intro filter_cong) auto
    with same fair show ?thesis by (simp add: fair_order_def)
  qed
  ultimately show ?thesis using fair by (simp add: fair_order_def)
qed

text \<open>
  What \<open>report t\<close> says of a release is read off the states before and after it: that it served
  \<open>t\<close> and nobody else.
\<close>

locale wait_service =
  fixes ok :: "'s \<Rightarrow> bool" and queue :: "'s \<Rightarrow> 't list" and urgency :: "'s \<Rightarrow> 't \<Rightarrow> 'p :: linorder"
    and serve :: "'s \<Rightarrow> ('r \<times> 's) option" and report :: "'t \<Rightarrow> 'r"
  assumes serve_first: "ok s \<Longrightarrow> queue s \<noteq> [] \<Longrightarrow> \<exists>n s'. serve s = Some (report n, s') \<and>
      first_max (urgency s) None (queue s) = Some n \<and> ok s' \<and> queue s' = remove1 n (queue s) \<and>
      (\<forall>t\<in>set (queue s'). urgency s' t = urgency s t)"
begin

lemma serves_all:
  "ok s \<Longrightarrow> \<exists>ts s'. serve_n serve (length (queue s)) s = Some (map report ts, s') \<and>
     fair_order (urgency s) (queue s) ts \<and> ok s' \<and> queue s' = []"
proof (induction "length (queue s)" arbitrary: s)
  case 0
  then show ?case by (auto simp: fair_order_def)
next
  case (Suc n)
  then have "queue s \<noteq> []" by auto
  from serve_first [OF Suc.prems this] obtain t s1 where s1: "serve s = Some (report t, s1)"
    "first_max (urgency s) None (queue s) = Some t" "ok s1" "queue s1 = remove1 t (queue s)"
    "\<forall>t\<in>set (queue s1). urgency s1 t = urgency s t" by blast
  have "n = length (queue s1)"
    using Suc.hyps(2) first_max_in [OF s1(2)] s1(4) by (simp add: length_remove1)
  from Suc.hyps(1) [OF this s1(3)] obtain ts s' where s': "serve_n serve n s1 = Some (map report ts, s')"
    "fair_order (urgency s1) (queue s1) ts" "ok s'" "queue s' = []"
    using \<open>n = length (queue s1)\<close> by auto
  have "fair_order (urgency s) (queue s1) ts"
    using s1(5) by (intro fair_order_cong [OF _ s'(2)]) simp
  then have "fair_order (urgency s) (queue s) (t # ts)"
    using fair_order_step [OF s1(2)] s1(4) by simp
  with s1(1) s' Suc.hyps(2) [symmetric] show ?case
    by (intro exI [of _ "t # ts"] exI [of _ s']) simp
qed

end

subsection \<open>The semaphore\<close>

definition waiting :: "wref \<Rightarrow> kernel \<Rightarrow> tid list" where
  "waiting r s = map the (waiters s r)"

text \<open>
  Whom a release served: the tasks that waited for the object before it and are ready after it,
  out of the queue, with no timer running and with OS_SUCCESS as the result of their wait. For a
  mutex, who holds it afterwards is reported beside.
\<close>

definition granted :: "wref \<Rightarrow> kernel \<Rightarrow> kernel \<Rightarrow> tid list" where
  "granted r s s' = filter (\<lambda>t. wait_queue (os_tasks s ! t) = Some r \<and>
     state (os_tasks s' ! t) = READY \<and> wait_result (os_tasks s' ! t) = OS_SUCCESS \<and>
     wait_queue (os_tasks s' ! t) = None \<and> sleep_time (os_tasks s' ! t) = 0) [0..<tc s]"

definition serve_sem :: "saddr \<Rightarrow> kernel \<Rightarrow> (tid list \<times> kernel) option" where
  "serve_sem a s = do { s' \<leftarrow> os_semaphore_release a s; Some (granted (SemQ a) s s', s') }"

definition serve_mutex :: "maddr \<Rightarrow> kernel \<Rightarrow> ((tid list \<times> tid option) \<times> kernel) option" where
  "serve_mutex m s = do {
     s' \<leftarrow> os_mutex_release m s;
     Some ((granted (MutexQ m) s s', holder s' m), s') }"

lemma granted_one:
  assumes ok: "waits_ok s" and n: "n < tc s" "wait_queue (os_tasks s ! n) = Some r"
    and s': "os_tasks s' ! n = woken (os_tasks s ! n)"
      "\<And>t. t < tc s \<Longrightarrow> t \<noteq> n \<Longrightarrow> state (os_tasks s' ! t) = state (os_tasks s ! t)"
  shows "granted r s s' = [n]"
proof -
  have blocked: "state (os_tasks s' ! t) = BLOCKED"
    if "t < tc s" "t \<noteq> n" "wait_queue (os_tasks s ! t) = Some r" for t
    using waits_okD(4) [OF ok that(1)] that s'(2) by (simp add: task_ok_def)
  have "granted r s s' = filter (\<lambda>t. t = n) [0..<tc s]"
    unfolding granted_def
  proof (rule filter_cong [OF refl])
    fix t assume "t \<in> set [0..<tc s]"
    then show "(wait_queue (os_tasks s ! t) = Some r \<and> state (os_tasks s' ! t) = READY \<and>
        wait_result (os_tasks s' ! t) = OS_SUCCESS \<and> wait_queue (os_tasks s' ! t) = None \<and>
        sleep_time (os_tasks s' ! t) = 0) = (t = n)"
      using n s'(1) blocked [of t] by (cases "t = n") auto
  qed
  also have "\<dots> = [n]"
  proof -
    have "filter (\<lambda>t. t = n) [0..<k] = (if n < k then [n] else [])" for k by (induction k) auto
    with n(1) show ?thesis by simp
  qed
  finally show ?thesis .
qed

lemma waiting_remove1:
  assumes "waits_ok s" "\<forall>r. waiters s' r = remove1 (Some n) (waiters s r)"
  shows "waiting r s' = remove1 n (waiting r s)"
proof -
  have "map the (remove1 (Some n) xs) = remove1 n (map the xs)" if "\<forall>p\<in>set xs. \<exists>t. p = Some t" for xs
    using that by (induction xs) auto
  moreover have "\<forall>p\<in>set (waiters s r). \<exists>t. p = Some t" using waits_okD(7) [OF assms(1)] by blast
  ultimately show ?thesis using assms(2) by (simp add: waiting_def)
qed

lemma waiting_mem: "waits_ok s \<Longrightarrow> t \<in> set (waiting r s) \<longleftrightarrow> Some t \<in> set (waiters s r)"
  using waits_okD(7) [of s _ r] by (force simp: waiting_def)

text \<open>The count does not move: the token goes from the release to the waiter.\<close>

interpretation sem_service: wait_service
  "\<lambda>s. kinv s \<and> sems s a \<noteq> None \<and> tokens s = k" "waiting (SemQ a)" prio "serve_sem a" "\<lambda>t. [t]" for a k
proof unfold_locales
  fix s assume ok: "kinv s \<and> sems s a \<noteq> None \<and> tokens s = k" and ne: "waiting (SemQ a) s \<noteq> []"
  then obtain x where inv: "kinv s" and x: "sems s a = Some x" by auto
  obtain n where n: "next_waiter a s = Some n"
    using ne by (cases "next_waiter a s") (auto simp: next_waiter_def waiting_def)
  note picked = picked_waits [OF kinvD(1) [OF inv] n [unfolded next_waiter_def]]
  have len: "n < length (os_tasks s)" using picked(1) waits_okD(3) [OF kinvD(1) [OF inv]] by blast
  obtain s' where s': "os_semaphore_release a s = Some s'" "kinv s'"
    "os_tasks s' = (os_tasks s)[n := woken (os_tasks s ! n)]"
    "\<forall>r. waiters s' r = remove1 (Some n) (waiters s r)" "obj_cores s' = obj_cores s"
    by (rule sem_release_handoff [OF inv x n])
  have "sems s' a \<noteq> None" using x sem_core [OF s'(5) [symmetric] x] by auto
  moreover have "tokens s' = k" using same_cores(2) [OF s'(5)] ok by simp
  moreover have "granted (SemQ a) s s' = [n]"
    using picked waits_okD(8) [OF kinvD(1) [OF inv] picked(1)] len s'(3)
    by (intro granted_one [OF kinvD(1) [OF inv] picked(1)]) simp_all
  moreover have "prio s' t = prio s t" for t
    using s'(3) len by (cases "t = n") (simp_all add: prio_def woken_def)
  ultimately show "\<exists>n s'. serve_sem a s = Some ([n], s') \<and>
      first_max (prio s) None (waiting (SemQ a) s) = Some n \<and>
      (kinv s' \<and> sems s' a \<noteq> None \<and> tokens s' = k) \<and>
      waiting (SemQ a) s' = remove1 n (waiting (SemQ a) s) \<and>
      (\<forall>t\<in>set (waiting (SemQ a) s'). prio s' t = prio s t)"
    using s' n waiting_remove1 [OF kinvD(1) [OF inv] s'(4)]
    by (intro exI [of _ n] exI [of _ s']) (simp add: serve_sem_def next_waiter_def waiting_def)
qed

text \<open>The mutex ends up with the task that was served, not free in between.\<close>

interpretation mutex_service: wait_service "\<lambda>s. kinv s \<and> mutexes s m \<noteq> None" "waiting (MutexQ m)" prio
  "serve_mutex m" "\<lambda>t. ([t], Some t)" for m
proof unfold_locales
  fix s assume ok: "kinv s \<and> mutexes s m \<noteq> None" and ne: "waiting (MutexQ m) s \<noteq> []"
  then obtain x where inv: "kinv s" and x: "mutexes s m = Some x" by auto
  obtain n where n: "next_owner m s = Some n"
    using ne by (cases "next_owner m s") (auto simp: next_owner_def waiting_def)
  note picked = picked_waits [OF kinvD(1) [OF inv] n [unfolded next_owner_def]]
  have len: "n < length (os_tasks s)" using picked(1) waits_okD(3) [OF kinvD(1) [OF inv]] by blast
  obtain s' where s': "os_mutex_release m s = Some s'" "kinv s'"
    "os_tasks s' = (undonated (owner x) (os_tasks s))[n := woken (os_tasks s ! n)]"
    "\<forall>r. waiters s' r = remove1 (Some n) (waiters s r)" "\<exists>x'. mutexes s' m = Some x' \<and> lock x' = 1 \<and> owner x' = Some n"
    by (rule mutex_release_handoff [OF inv x n])
  have rest: "waiting (MutexQ m) s' = remove1 n (waiting (MutexQ m) s)"
    using waiting_remove1 [OF kinvD(1) [OF inv] s'(4)] .
  have pick: "first_max (prio s) None (waiting (MutexQ m) s) = Some n"
    using n by (simp add: next_owner_def waiting_def)
  have "granted (MutexQ m) s s' = [n]"
    using picked waits_okD(8) [OF kinvD(1) [OF inv] picked(1)] len s'(3)
    by (intro granted_one [OF kinvD(1) [OF inv] picked(1)]) (simp_all add: undonated_nth)
  moreover have "holder s' m = Some n" using s'(5) by (auto simp: holder_def)
  ultimately have serve: "serve_mutex m s = Some (([n], Some n), s')"
    using s'(1) by (simp add: serve_mutex_def)
  have same: "prio s' t = prio s t" if t: "t \<in> set (waiting (MutexQ m) s')" for t
  proof -
    have "t \<in> set (waiting (MutexQ m) s)" using t rest set_remove1_subset by fastforce
    then have "Some t \<in> set (waiters s (MutexQ m))" using waiting_mem [OF kinvD(1) [OF inv]] by simp
    then have "owner x \<noteq> Some t" using mutex_ok_owner(1) [OF inv x] by blast
    then show ?thesis
      using s'(3) len by (cases "t = n") (simp_all add: prio_def woken_def undonated_nth)
  qed
  show "\<exists>n s'. serve_mutex m s = Some (([n], Some n), s') \<and>
      first_max (prio s) None (waiting (MutexQ m) s) = Some n \<and> (kinv s' \<and> mutexes s' m \<noteq> None) \<and>
      waiting (MutexQ m) s' = remove1 n (waiting (MutexQ m) s) \<and>
      (\<forall>t\<in>set (waiting (MutexQ m) s'). prio s' t = prio s t)"
    using serve s'(2,5) pick rest same by (intro exI [of _ n] exI [of _ s']) auto
qed

end
