(* ===== verification/System_Properties.thy ===== *)
theory System_Properties
  imports Samples Wait_Service
begin

text \<open>
  The properties of the running kernel and of its mutexes and semaphores, each with an
  instance on a concrete kernel of the theory \<^verbatim>\<open>Samples\<close>.
\<close>

subsection \<open>Sample runs\<close>

lemma fresh_sys: "sys_inv 2 fresh"
proof -
  have three: "t < 3 \<longleftrightarrow> t = 0 \<or> t = 1 \<or> t = 2" for t :: nat by auto
  have "one_running fresh" by (auto simp: one_running_def fresh_def three)
  with kinv_fresh show ?thesis by (simp add: sys_inv_def fresh_def running_def runnable_def)
qed

lemma fresh_running: "running fresh 0"
  by (simp add: fresh_def running_def)

definition slept :: kernel where
  "slept = fresh\<lparr>os_tasks := (os_tasks fresh)[0 := asleep 3 (os_tasks fresh ! 0)], pendsv := True\<rparr>"

lemma slept_step: "step 2 fresh (Sleep 3) slept"
proof (rule step.exec)
  show "enabled 2 fresh (Sleep 3)"
    by (simp add: enabled_def running_def fresh_def)
  show "exec (Sleep 3) fresh = Some slept"
    using os_delay_effect(1) [OF kinv_fresh fresh_running, of 3] by (simp add: slept_def fresh_def)
qed

lemma slept_reachable: "reachable 2 fresh slept"
  using reachable.later [OF reachable.start slept_step] .

definition locked_run :: kernel where
  "locked_run = set_lock (Mutex_At 0) 1 (Some 0) fresh"

lemma locked_step: "step 2 fresh (Lock (Mutex_At 0) 5) locked_run"
proof (rule step.exec)
  show "enabled 2 fresh (Lock (Mutex_At 0) 5)"
    by (simp add: enabled_def running_def fresh_def)
  have "mutexes fresh (Mutex_At 0) = Some idle_mutex" "current_tcb fresh = Some 0"
    by (simp_all add: fresh_def)
  then show "exec (Lock (Mutex_At 0) 5) fresh = Some locked_run"
    using mutex_acquire_free [of fresh "Mutex_At 0" idle_mutex 5]
    by (simp add: locked_run_def idle_mutex_def)
qed

lemma locked_reachable: "reachable 2 fresh locked_run"
  using reachable.later [OF reachable.start locked_step] .

lemma locked_sleep_step:
  "step 2 locked_run (Sleep 3)
     (locked_run\<lparr>os_tasks := (os_tasks fresh)[0 := asleep 3 (os_tasks fresh ! 0)], pendsv := True\<rparr>)"
proof (rule step.exec)
  have sys: "sys_inv 2 locked_run" using reachable_sys_inv [OF locked_reachable fresh_sys] .
  have run: "running locked_run 0" by (simp add: locked_run_def running_def fresh_def)
  show "enabled 2 locked_run (Sleep 3)"
    using run by (simp add: enabled_def locked_run_def fresh_def)
  show "exec (Sleep 3) locked_run =
      Some (locked_run\<lparr>os_tasks := (os_tasks fresh)[0 := asleep 3 (os_tasks fresh ! 0)], pendsv := True\<rparr>)"
    using os_delay_effect(1) [OF _ run, of 3] sys by (simp add: sys_inv_def locked_run_def)
qed

subsection \<open>The system\<close>

text \<open>C1: Whatever the threads, the tick and the interrupts do, in whatever order, the kernel keeps
  its invariant: wait queues, wait pointers and BLOCKED states agree, no wait array overflows, locks,
  owners and token counts are consistent, only the current task is RUNNING, the idle task stays
  runnable, and whenever no switch is pending the current task is a RUNNING one.\<close>
theorem system_invariant:
  assumes "sys_inv idle s0" "reachable idle s0 s"
  shows "kinv s \<and> one_running s \<and> runnable_at s idle \<and>
    (halted_in s = None \<longrightarrow> \<not> pendsv s \<longrightarrow> (\<exists>c. running s c))"
  using reachable_sys_inv [OF assms(2,1)] by (simp add: sys_inv_def)

theorem system_invariant_witness:
  "kinv slept \<and> one_running slept \<and> runnable_at slept 2 \<and> state (os_tasks slept ! 0) = BLOCKED"
  using system_invariant [OF fresh_sys slept_reachable]
  by (simp add: slept_def fresh_def asleep_def)

text \<open>C3: No kernel call, tick or switch ever runs into undefined behaviour: in every reachable state,
  every event that can happen has a result; no array is indexed out of bounds and no null or dangling
  task pointer is followed.\<close>
theorem kernel_calls_defined:
  assumes "sys_inv idle s0" "reachable idle s0 s" "enabled idle s e"
  shows "\<exists>s'. exec e s = Some s' \<and> reachable idle s0 s'"
proof -
  obtain s' where s': "exec e s = Some s'"
    using exec_ok [OF reachable_sys_inv [OF assms(2,1)] assms(3)] .
  with assms(3) have "step idle s e s'" by (simp add: step_iff)
  with reachable.later [OF assms(2)] s' show ?thesis by blast
qed

theorem kernel_calls_defined_witness:
  "\<exists>s'. exec (Take (Sem_At 0) 7) fresh = Some s' \<and> reachable 2 fresh s'"
  by (rule kernel_calls_defined [OF fresh_sys reachable.start])
     (simp add: enabled_def fresh_def running_def)

text \<open>C2: Mutual exclusion. A task that holds a mutex keeps it through every event, ticks, switches,
  timeouts and the calls of other tasks included, until that mutex is released; meanwhile it is not
  among the mutex's waiters.\<close>
theorem mutex_exclusion:
  assumes "sys_inv idle s0" "reachable idle s0 s" "step idle s e s'"
    and "holder s m = Some t" "e \<noteq> Unlock m"
  shows "holder s' m = Some t \<and> t < tc s' \<and> Some t \<notin> set (waiters s' (MutexQ m))"
proof -
  have inv: "sys_inv idle s" by (rule reachable_sys_inv [OF assms(2,1)])
  have h: "holder s' m = Some t" by (rule holder_stable [OF inv assms(3-5)])
  have "kinv s'" using step_sys_inv [OF inv assms(3)] by (simp add: sys_inv_def)
  from holder_waits_not [OF this h] h show ?thesis by simp
qed

theorem mutex_exclusion_witness:
  "holder (locked_run\<lparr>os_tasks := (os_tasks fresh)[0 := asleep 3 (os_tasks fresh ! 0)], pendsv := True\<rparr>)
     (Mutex_At 0) = Some 0"
  using mutex_exclusion [OF fresh_sys locked_reachable locked_sleep_step, of "Mutex_At 0" 0]
  by (simp add: holder_def locked_run_def set_lock_mutexes fresh_def)

text \<open>C25: Every event changes the owners of mutexes and the token counts of semaphores only as the
  interface says: an acquire takes a free mutex for the caller, a release hands it to the most urgent
  waiter or frees it, a take uses up one token if there is one, a give adds one only if nobody waits
  and the maximum is not reached; ticks, switches, sleeps and stores change neither.\<close>
theorem objects_change_as_specified:
  assumes "sys_inv idle s0" "reachable idle s0 s" "step idle s e s'"
  shows "holder s' = holder_after s e \<and> tokens s' = tokens_after s e"
proof -
  have "views s e s'"
    using exec_views [OF reachable_sys_inv [OF assms(2,1)]] assms(3) by (simp add: step_iff)
  then show ?thesis by (simp add: views_def)
qed

theorem objects_change_as_specified_witness:
  "holder locked_run (Mutex_At 0) = Some 0 \<and> tokens locked_run (Sem_At 0) = 0"
  using objects_change_as_specified [OF fresh_sys reachable.start locked_step]
  by (simp add: holder_def tokens_def fresh_def idle_mutex_def sample_sem_def)

text \<open>A semaphore never has more tokens than the maximum it was initialised with.\<close>
theorem tokens_never_exceed_max:
  assumes "sys_inv idle s0" "reachable idle s0 s"
  shows "tokens s a \<le> max_tokens s0 a"
proof -
  have "kinv s" using reachable_sys_inv [OF assms(2,1)] by (simp add: sys_inv_def)
  from tokens_bounded [OF this, of a] max_tokens_const [OF assms(2,1)] show ?thesis by simp
qed

theorem tokens_never_exceed_max_witness: "tokens slept (Sem_At 0) \<le> 1"
  using tokens_never_exceed_max [OF fresh_sys slept_reachable, of "Sem_At 0"]
  by (simp add: max_tokens_def fresh_def sample_sem_def)

text \<open>C24: A context switch gives the CPU to a runnable task of the highest current priority, unless it
  finds the canary of the outgoing task overwritten, in which case it stops in the overflow hook and
  no task runs on.\<close>
theorem switch_picks_highest:
  assumes "sys_inv idle s" "current_tcb s = Some a" "context_switch c s = Some (c', s')"
  shows "(if context_mem c (mem s) (stackBase (os_tasks s ! a)) = STACK_CANARY
     then (\<exists>b. running s' b \<and> runnable_at s b \<and> (\<forall>t. runnable_at s t \<longrightarrow> prio s t \<le> prio s b))
     else halted_in s' = Some a)"
proof (cases rule: switch_effect [OF assms(1,2), where c = c])
  case (1 d t)
  with assms(3) have "s' = (saved c a s)\<lparr>halted_in := Some a\<rparr>" by simp
  with 1(3) show ?thesis by simp
next
  case (2 d t b)
  with assms(3) have "t = s'" by simp
  with 2 show ?thesis by auto
qed

definition sample_cpu :: cpu where
  "sample_cpu = \<lparr>r0 = 1, r1 = 2, r2 = 3, r3 = 4, r12 = 5, lr = 6, pc = 0x08000400, xpsr = 0x01000000,
     hi = [11, 12, 13, 14, 15, 16, 17, 18], psp = 0x20000700, control = 2\<rparr>"

lemma context_mem_sample: "context_mem sample_cpu (\<lambda>_. STACK_CANARY) 0x20000400 = STACK_CANARY"
  by (simp add: context_mem_def sample_cpu_def hw_words_def saved_sp_def)

theorem switch_picks_highest_witness:
  "\<exists>c' s'. context_switch sample_cpu fresh = Some (c', s') \<and> (\<exists>b. running s' b)"
proof -
  have cur: "current_tcb fresh = Some 0" by (simp add: fresh_def)
  obtain s' where "exec (Switch sample_cpu) fresh = Some s'" using switch_ok [OF fresh_sys] .
  then obtain c' where sw: "context_switch sample_cpu fresh = Some (c', s')" by auto
  have "stackBase (os_tasks fresh ! 0) = 0x20000400" "mem fresh = (\<lambda>_. STACK_CANARY)"
    by (simp_all add: fresh_def)
  with switch_picks_highest [OF fresh_sys cur sw] context_mem_sample sw show ?thesis by auto
qed

end
