(* ===== verification/Sync_Properties.thy ===== *)
theory Sync_Properties
  imports Samples Wait_Service
begin

text \<open>
  The properties of the mutex, the semaphore and the waiting they share: what each call
  does on every branch, who is served, priority inheritance, and how long a wait lasts.
\<close>

subsection \<open>Facts about the samples\<close>

lemma sample_objects:
  "mutexes fresh (Mutex_At 0) = Some idle_mutex" "sems fresh (Sem_At 0) = Some (sample_sem 0 1 [])"
  "mutexes contended (Mutex_At 0) = Some (held_mutex 1 [])"
  "mutexes queued (Mutex_At 0) = Some (held_mutex 2 [1, 0])"
  "sems starved (Sem_At 0) = Some (sample_sem 0 1 [1, 0])"
  by (simp_all add: fresh_def contended_def queued_def starved_def)

lemma sample_running: "running fresh 0" "running contended 0"
  by (simp_all add: running_def fresh_def contended_def)

lemma sample_waiting:
  "waiting (MutexQ (Mutex_At 0)) queued = [1, 0]" "waiting (SemQ (Sem_At 0)) starved = [1, 0]"
  by (simp_all add: waiting_def queued_def starved_def waiters_sample held_mutex_def sample_sem_def)

subsection \<open>The mutex\<close>

lemma mutex_acquire_parks:
  assumes "kinv s" "running s c" "mutexes s m = Some x" "owner x = Some w" "w \<noteq> c"
    and "timeout \<noteq> 0" "kernel_running s"
  shows "os_mutex_acquire m timeout s = Some (Parked, s\<lparr>pendsv := True,
      os_tasks := (os_tasks s)
        [w := (os_tasks s ! w)\<lparr>current_priority := max (prio s w) (prio s c)\<rparr>,
         c := parked (MutexQ m) timeout (os_tasks s ! c)],
      mutexes := (mutexes s)(m \<mapsto> x\<lparr>
        m_wait_queue := (m_wait_queue x)[unat (m_wait_count x) := Some c],
        m_wait_count := m_wait_count x + 1\<rparr>)\<rparr>)"
proof -
  have l: "lock x \<noteq> 0" using mutex_ok_owner(2) [OF assms(1,3)] assms(4) by auto
  have not_own: "owner x \<noteq> Some c" using assms(4,5) by simp
  have "mutex_ok s m x" using kinvD(2) [OF assms(1)] assms(3) by (simp add: objs_ok_def)
  then have s': "w < tc s" using assms(4) by (auto simp: mutex_ok_def)
  note D = waits_okD [OF kinvD(1) [OF assms(1)]]
  have w: "w < length (os_tasks s)" using s' D(3) by simp
  have c: "c < length (os_tasks s)" "current_tcb s = Some c" using assms(2) D(3) by (auto simp: running_def)
  have shape: "length (m_wait_queue x) = wait_capacity (MutexQ m)"
    "unat (m_wait_count x) \<le> wait_capacity (MutexQ m)"
    using D(5) [of "MutexQ m"] assms(3) by (simp_all add: wait_shape_def)
  have "length (waiters s (MutexQ m)) < MAX_WAITING_TASKS"
    using mutex_room [OF kinvD(1) [OF assms(1)] assms(2) s'] assms(4,5)
      mutex_ok_owner(1) [OF assms(1,3)] by auto
  then have room: "unat (m_wait_count x) < MAX_WAITING_TASKS"
    using assms(3) shape by (simp add: waiters_def)
  let ?s1 = "s\<lparr>primask := 1\<rparr>"
  have don: "donate_priority (owner x) ?s1 = Some (?s1\<lparr>os_tasks := donated c w (os_tasks s)\<rparr>)"
    using donate_priority_eq [of ?s1 c w] c w assms(4) by simp
  have same: "os_tasks s ! c = donated c w (os_tasks s) ! c" using assms(5) by (simp add: donated_def)
  show ?thesis
    using assms(3,6,7) l not_own c room shape(1) don
    by (simp add: os_mutex_acquire_def os_enter_critical_def block_current_def upd_tcb_def
        os_yield_def os_exit_critical_def parked_def same) (simp add: donated_def prio_def assms(5))
qed

text \<open>C19: Taking a mutex that another task holds. The caller is parked at the end of the mutex's
  queue, BLOCKED, with its timeout as sleep time (zero for WAIT_FOREVER); the holder's current
  priority is raised to the caller's if it was lower and otherwise kept; a context switch is
  requested. That is all: the state after the call is written out, so the holder and the lock, the
  token counts, the other queues, memory, PRIMASK and the current task are as they were.\<close>
theorem mutex_acquire_contended:
  assumes "kinv s" "running s c" "mutexes s m = Some x" "owner x = Some w" "w \<noteq> c"
    and "timeout \<noteq> 0" "kernel_running s"
  shows "\<exists>s'. os_mutex_acquire m timeout s = Some (Parked, s') \<and> kinv s' \<and>
    waiters s' (MutexQ m) = waiters s (MutexQ m) @ [Some c] \<and>
    s' = s\<lparr>pendsv := True,
      os_tasks := (os_tasks s)
        [w := (os_tasks s ! w)\<lparr>current_priority := max (prio s w) (prio s c)\<rparr>,
         c := parked (MutexQ m) timeout (os_tasks s ! c)],
      mutexes := (mutexes s)(m \<mapsto> x\<lparr>
        m_wait_queue := (m_wait_queue x)[unat (m_wait_count x) := Some c],
        m_wait_count := m_wait_count x + 1\<rparr>)\<rparr>"
proof -
  have l: "lock x \<noteq> 0" using mutex_ok_owner(2) [OF assms(1,3)] assms(4) by auto
  have "owner x \<noteq> Some c" using assms(4,5) by simp
  then obtain s' where s': "os_mutex_acquire m timeout s = Some (Parked, s')" "kinv s'"
    "\<forall>r. waiters s' r = (if r = MutexQ m then waiters s r @ [Some c] else waiters s r)"
    using mutex_acquire_block [OF assms(1-3) l _ assms(6,7)] by metis
  with mutex_acquire_parks [OF assms] show ?thesis by auto
qed

theorem mutex_acquire_contended_witness:
  "\<exists>s'. os_mutex_acquire (Mutex_At 0) 5 contended = Some (Parked, s') \<and>
     current_priority (os_tasks s' ! 1) = 2 \<and> sleep_time (os_tasks s' ! 0) = 5"
  using mutex_acquire_contended [OF kinv_contended sample_running(2) sample_objects(3), of 1 5]
  by (auto simp: held_mutex_def contended_def prio_def parked_def model_defs)

text \<open>The calls of \<^verbatim>\<open>os_mutex_acquire\<close> that return at once: a free mutex is taken
  for the caller, a recursive acquire by the holder fails, and with a zero timeout (or before the
  kernel runs) a held mutex is reported as a timeout; the last two leave the state untouched.\<close>
theorem mutex_acquire_immediate:
  assumes "kinv s" "mutexes s m = Some x" "current_tcb s = Some c"
  shows "(holder s m = None \<longrightarrow> os_mutex_acquire m timeout s =
      Some (Returned OS_SUCCESS, set_lock m 1 (Some c) s)) \<and>
    (holder s m = Some c \<longrightarrow> os_mutex_acquire m timeout s = Some (Returned OS_FAIL, s)) \<and>
    (holder s m \<notin> {None, Some c} \<longrightarrow> timeout = 0 \<or> \<not> kernel_running s \<longrightarrow>
      os_mutex_acquire m timeout s = Some (Returned OS_TIMEOUT, s))"
proof -
  have h: "holder s m = owner x" "holder s m = None \<Longrightarrow> lock x = 0"
    "holder s m \<noteq> None \<Longrightarrow> lock x \<noteq> 0"
    using mutex_ok_owner(2,3) [OF assms(1,2)] assms(2)
    by (cases "lock x = 0"; auto simp: holder_def)+
  show ?thesis
    using mutex_acquire_free [OF assms(2) h(2), of timeout] mutex_acquire_own [OF assms(2) h(3), of timeout]
      mutex_acquire_poll [OF assms(2) h(3), of timeout] h(1) assms(3) by auto
qed

theorem mutex_acquire_immediate_witness:
  "os_mutex_acquire (Mutex_At 0) 9 fresh = Some (Returned OS_SUCCESS, set_lock (Mutex_At 0) 1 (Some 0) fresh) \<and>
   os_mutex_acquire (Mutex_At 0) 0 contended = Some (Returned OS_TIMEOUT, contended)"
  using mutex_acquire_immediate [OF kinv_fresh sample_objects(1), of 0 9]
    mutex_acquire_immediate [OF kinv_contended sample_objects(3), of 0 0]
  by (simp add: holder_def fresh_def contended_def idle_mutex_def held_mutex_def)

text \<open>C20: Releasing a mutex with waiters hands it over without ever freeing it: the new owner is the
  first of the waiters with the highest current priority; it becomes READY with OS_SUCCESS and leaves
  the queue, the others keep their order; the old owner's donated priority is dropped; a switch is
  requested.\<close>
theorem mutex_release_hands_over:
  assumes "kinv s" "mutexes s m = Some x" "waiting (MutexQ m) s \<noteq> []"
  shows "\<exists>n s'. os_mutex_release m s = Some s' \<and> kinv s' \<and>
    first_max (prio s) None (waiting (MutexQ m) s) = Some n \<and> holder s' m = Some n \<and>
    waiting (MutexQ m) s' = remove1 n (waiting (MutexQ m) s) \<and>
    os_tasks s' = (undonated (owner x) (os_tasks s))[n := woken (os_tasks s ! n)] \<and>
    pendsv s' \<and> primask s' = primask s"
proof -
  obtain n where n: "next_owner m s = Some n"
    using assms(3) by (cases "next_owner m s") (auto simp: next_owner_def waiting_def)
  obtain s' where s': "os_mutex_release m s = Some s'" "kinv s'" "pendsv s'"
    "os_tasks s' = (undonated (owner x) (os_tasks s))[n := woken (os_tasks s ! n)]"
    "\<forall>r. waiters s' r = remove1 (Some n) (waiters s r)"
    "\<exists>x'. mutexes s' m = Some x' \<and> lock x' = 1 \<and> owner x' = Some n"
    "primask s' = primask s"
    by (rule mutex_release_handoff [OF assms(1,2) n])
  have "holder s' m = Some n" using s'(6) by (auto simp: holder_def)
  with s' n waiting_remove1 [OF kinvD(1) [OF assms(1)] s'(5)] show ?thesis
    by (auto simp: next_owner_def waiting_def)
qed

theorem mutex_release_hands_over_witness:
  "\<exists>s'. os_mutex_release (Mutex_At 0) queued = Some s' \<and> holder s' (Mutex_At 0) = Some 0 \<and>
     waiting (MutexQ (Mutex_At 0)) s' = [1] \<and> current_priority (os_tasks s' ! 2) = 0"
proof -
  have "prio queued 0 = 2" "prio queued 1 = 1" by (simp_all add: prio_def queued_def)
  moreover have "tc queued = 3" by (simp add: queued_def)
  ultimately show ?thesis
    using mutex_release_hands_over [OF kinv_queued sample_objects(4)] sample_waiting(1)
    by (auto simp: held_mutex_def undonated_def queued_def)
qed

text \<open>Releasing a mutex nobody waits for frees it and sets the old owner's priority back to its
  base; nothing else changes and no switch is requested.\<close>
theorem mutex_release_frees:
  assumes "kinv s" "mutexes s m = Some x" "waiting (MutexQ m) s = []"
  shows "\<exists>s'. os_mutex_release m s = Some s' \<and> kinv s' \<and> holder s' = (holder s)(m := None) \<and>
    os_tasks s' = undonated (owner x) (os_tasks s) \<and> pendsv s' = pendsv s \<and> primask s' = primask s"
proof -
  have none: "waiters s (MutexQ m) = []" using assms(3) by (simp add: waiting_def)
  let ?s1 = "s\<lparr>os_tasks := undonated (owner x) (os_tasks s)\<rparr>"
  have "holder (set_lock m 0 None ?s1) = (holder s)(m := None)"
    using holder_set_lock(1) [of ?s1 m x 0 None] assms(2) same_cores(1) [of ?s1 s]
    by (simp add: obj_cores_def)
  with mutex_release_last [OF assms(1,2) none] show ?thesis by auto
qed

theorem mutex_release_frees_witness:
  "\<exists>s'. os_mutex_release (Mutex_At 0) contended = Some s' \<and> holder s' (Mutex_At 0) = None"
proof -
  have "waiting (MutexQ (Mutex_At 0)) contended = []"
    by (simp add: waiting_def contended_def waiters_sample held_mutex_def)
  from mutex_release_frees [OF kinv_contended sample_objects(3) this] show ?thesis by auto
qed

subsection \<open>The semaphore\<close>

text \<open>C27: Taking a semaphore. With a token, the call takes exactly one and returns; without one
  and without time (or before the kernel runs) it reports a timeout and changes nothing; otherwise the
  caller is parked at the end of the queue with its timeout and a switch is requested. The wait array
  never overflows, so OS_FAIL is never returned.\<close>
theorem semaphore_acquire_outcomes:
  assumes "kinv s" "running s c" "sems s a = Some x"
  shows "(tokens s a \<noteq> 0 \<longrightarrow> os_semaphore_acquire a timeout s =
      Some (Returned OS_SUCCESS, set_tokens a (tokens s a - 1) s)) \<and>
    (tokens s a = 0 \<longrightarrow> timeout = 0 \<or> \<not> kernel_running s \<longrightarrow>
      os_semaphore_acquire a timeout s = Some (Returned OS_TIMEOUT, s)) \<and>
    (tokens s a = 0 \<longrightarrow> timeout \<noteq> 0 \<longrightarrow> kernel_running s \<longrightarrow>
      (\<exists>s'. os_semaphore_acquire a timeout s = Some (Parked, s') \<and> kinv s' \<and> pendsv s' \<and>
        waiters s' (SemQ a) = waiters s (SemQ a) @ [Some c] \<and>
        os_tasks s' = (os_tasks s)[c := parked (SemQ a) timeout (os_tasks s ! c)]))"
proof -
  have t: "tokens s a = sem_count x" using assms(3) by (simp add: tokens_def)
  have "\<exists>s'. os_semaphore_acquire a timeout s = Some (Parked, s') \<and> kinv s' \<and> pendsv s' \<and>
        waiters s' (SemQ a) = waiters s (SemQ a) @ [Some c] \<and>
        os_tasks s' = (os_tasks s)[c := parked (SemQ a) timeout (os_tasks s ! c)]"
    if none: "sem_count x = 0" "timeout \<noteq> 0" "kernel_running s"
    by (rule sem_acquire_block [OF assms none]) (use that in auto)
  with sem_acquire_token [OF assms(3), of timeout] sem_acquire_poll [OF assms(3), of timeout] t
  show ?thesis by simp
qed

theorem semaphore_acquire_outcomes_witness:
  "\<exists>s'. os_semaphore_acquire (Sem_At 0) WAIT_FOREVER fresh = Some (Parked, s') \<and>
     waiters s' (SemQ (Sem_At 0)) = [Some 0] \<and> sleep_time (os_tasks s' ! 0) = 0"
  using semaphore_acquire_outcomes [OF kinv_fresh sample_running(1) sample_objects(2), of WAIT_FOREVER]
  by (auto simp: tokens_def fresh_def sample_sem_def model_defs waiters_sample parked_def)

text \<open>C26: Giving a semaphore. With nobody waiting, the count goes up by one unless it is at the
  maximum; with waiters, the token goes straight to the first of those with the highest current
  priority, the count is not touched, and a switch is requested. This holds in every state, so it also
  describes a give from an interrupt handler.\<close>
theorem semaphore_release_outcomes:
  assumes "kinv s" "sems s a = Some x"
  shows "\<exists>s'. os_semaphore_release a s = Some s' \<and> kinv s' \<and> primask s' = primask s \<and>
    (if waiting (SemQ a) s = []
     then s' = (if tokens s a < max_tokens s a then set_tokens a (tokens s a + 1) s else s)
     else \<exists>n. first_max (prio s) None (waiting (SemQ a) s) = Some n \<and> tokens s' = tokens s \<and>
       waiting (SemQ a) s' = remove1 n (waiting (SemQ a) s) \<and>
       os_tasks s' = (os_tasks s)[n := woken (os_tasks s ! n)] \<and> pendsv s')"
proof (cases "next_waiter a s")
  case None
  then have none: "waiters s (SemQ a) = []" by (simp add: next_waiter_def)
  with sem_release_token [OF assms none] assms(2) show ?thesis
    by (auto simp: waiting_def tokens_def max_tokens_def)
next
  case (Some n)
  obtain s' where s': "os_semaphore_release a s = Some s'" "kinv s'" "pendsv s'"
    "os_tasks s' = (os_tasks s)[n := woken (os_tasks s ! n)]"
    "\<forall>r. waiters s' r = remove1 (Some n) (waiters s r)" "obj_cores s' = obj_cores s"
    "primask s' = primask s" by (rule sem_release_handoff [OF assms Some])
  have "waiting (SemQ a) s \<noteq> []" using Some by (auto simp: next_waiter_def waiting_def)
  with s' Some waiting_remove1 [OF kinvD(1) [OF assms(1)] s'(5)] same_cores(2) [OF s'(6)] show ?thesis
    by (auto simp: next_waiter_def waiting_def)
qed

theorem semaphore_release_outcomes_witness:
  "\<exists>s'. os_semaphore_release (Sem_At 0) starved = Some s' \<and> waiting (SemQ (Sem_At 0)) s' = [1] \<and>
     state (os_tasks s' ! 0) = READY \<and> tokens s' (Sem_At 0) = 0"
proof -
  have "prio starved 0 = 2" "prio starved 1 = 1" by (simp_all add: prio_def starved_def)
  moreover have "tokens starved (Sem_At 0) = 0" by (simp add: tokens_def starved_def sample_sem_def)
  moreover have "length (os_tasks starved) = 6" by (simp add: starved_def)
  ultimately show ?thesis
    using semaphore_release_outcomes [OF kinv_starved sample_objects(5)] sample_waiting(2)
    by (auto simp: woken_def)
qed

subsection \<open>The order of service\<close>

text \<open>C10: As many gives as there are waiters serve every waiter of a semaphore exactly once, in
  order of descending priority and first come first served among equals. Each give makes exactly one
  of the waiters READY, with OS_SUCCESS and no timer left, and none of them moves a token count.\<close>
theorem semaphore_serves_in_order:
  assumes "kinv s" "sems s a = Some x"
  shows "\<exists>ts s'. serve_n (serve_sem a) (length (waiting (SemQ a) s)) s = Some (map (\<lambda>t. [t]) ts, s') \<and>
    fair_order (prio s) (waiting (SemQ a) s) ts \<and> kinv s' \<and> waiting (SemQ a) s' = [] \<and>
    tokens s' = tokens s"
  using sem_service.serves_all [of s a "tokens s"] assms by auto

theorem semaphore_serves_in_order_witness:
  "\<exists>ts s'. serve_n (serve_sem (Sem_At 0)) 2 starved = Some (map (\<lambda>t. [t]) ts, s') \<and>
     fair_order (prio starved) [1, 0] ts \<and> waiting (SemQ (Sem_At 0)) s' = []"
  using semaphore_serves_in_order [OF kinv_starved sample_objects(5)]
  by (auto simp: sample_waiting numeral_2_eq_2)

text \<open>C9: Successive releases of a mutex hand it to every waiter exactly once, in order of
  descending priority and first come first served among equals. Each release makes exactly one of the
  waiters READY, with OS_SUCCESS and no timer left, and that task holds the mutex afterwards.\<close>
theorem mutex_serves_in_order:
  assumes "kinv s" "mutexes s m = Some x"
  shows "\<exists>ts s'. serve_n (serve_mutex m) (length (waiting (MutexQ m) s)) s =
      Some (map (\<lambda>t. ([t], Some t)) ts, s') \<and>
    fair_order (prio s) (waiting (MutexQ m) s) ts \<and> kinv s' \<and> waiting (MutexQ m) s' = []"
  using mutex_service.serves_all [of s m] assms by auto

theorem mutex_serves_in_order_witness:
  "\<exists>ts s'. serve_n (serve_mutex (Mutex_At 0)) 2 queued = Some (map (\<lambda>t. ([t], Some t)) ts, s') \<and>
     fair_order (prio queued) [1, 0] ts \<and> waiting (MutexQ (Mutex_At 0)) s' = []"
  using mutex_serves_in_order [OF kinv_queued sample_objects(4)]
  by (auto simp: sample_waiting numeral_2_eq_2)

subsection \<open>Waiting has an end\<close>

text \<open>C21: A task whose wait or sleep still has \<open>n\<close> ticks to go stays BLOCKED in the same queue
  through the next \<open>n - 1\<close> ticks, and the \<open>n\<close>-th makes it READY: out of every queue, with OS_TIMEOUT as the
  result if it was waiting for an object.\<close>
theorem timeout_exact:
  assumes "asleep_for n t s"
  shows "(\<forall>k<n. \<exists>s'. ticks k s = Some s' \<and> state (os_tasks s' ! t) = BLOCKED \<and>
      wait_queue (os_tasks s' ! t) = wait_queue (os_tasks s ! t)) \<and>
    (\<exists>s'. ticks n s = Some s' \<and> kinv s' \<and> state (os_tasks s' ! t) = READY \<and>
      (\<forall>r. Some t \<notin> set (waiters s' r)) \<and>
      (wait_queue (os_tasks s ! t) \<noteq> None \<longrightarrow> wait_result (os_tasks s' ! t) = OS_TIMEOUT))"
proof (intro conjI allI impI)
  fix k assume "k < n"
  from ticks_before [OF assms this] asleep_blocked
  show "\<exists>s'. ticks k s = Some s' \<and> state (os_tasks s' ! t) = BLOCKED \<and>
      wait_queue (os_tasks s' ! t) = wait_queue (os_tasks s ! t)" by blast
next
  show "\<exists>s'. ticks n s = Some s' \<and> kinv s' \<and> state (os_tasks s' ! t) = READY \<and>
      (\<forall>r. Some t \<notin> set (waiters s' r)) \<and>
      (wait_queue (os_tasks s ! t) \<noteq> None \<longrightarrow> wait_result (os_tasks s' ! t) = OS_TIMEOUT)"
    by (rule ticks_wake [OF assms]) blast
qed

theorem timeout_exact_witness:
  "(\<exists>s'. ticks 2 queued = Some s' \<and> state (os_tasks s' ! 0) = BLOCKED) \<and>
   (\<exists>s'. ticks 3 queued = Some s' \<and> state (os_tasks s' ! 0) = READY \<and>
      wait_result (os_tasks s' ! 0) = OS_TIMEOUT)"
proof -
  have "asleep_for 3 0 queued" by (simp add: asleep_for_def kinv_queued) (simp add: queued_def)
  note E = timeout_exact [OF this]
  have "wait_queue (os_tasks queued ! 0) \<noteq> None" by (simp add: queued_def)
  with conjunct1 [OF E, rule_format, of 2] conjunct2 [OF E] show ?thesis by auto
qed

end
