(* ===== verification/Sched_Properties.thy ===== *)
theory Sched_Properties
  imports Samples
begin

text \<open>
  The properties of task creation, the scheduler, time and the context switch, and the
  discipline every kernel call keeps with PRIMASK.
\<close>

subsection \<open>The scheduler\<close>

text \<open>C22: The scheduler picks, among the runnable tasks, one of the highest current priority, and
  among those the first in the cyclic order that starts one past the running task; it leaves that task
  RUNNING and current, a preempted one READY, and every other task as it was. With every task blocked
  it changes nothing.\<close>
theorem scheduler_decision:
  assumes "kinv s" "0 < tc s" "canary_intact s"
  shows "os_scheduler s = Some (case first_max (prio s) None
        (filter (\<lambda>t. runnable (os_tasks s ! t)) (scan_order s)) of
      None \<Rightarrow> s
    | Some b \<Rightarrow> s\<lparr>os_tasks := switched (current_tcb s) b (os_tasks s), current_tcb := Some b\<rparr>)"
proof -
  have "prio s = tcb_prio (os_tasks s)" by (simp add: prio_def fun_eq_iff)
  with os_scheduler_eq [OF kinv_sched_ready [OF assms(1,2)] assms(3)] show ?thesis
    by (simp add: sched_choice_def)
qed

theorem scheduler_decision_witness:
  "\<exists>s'. os_scheduler queued = Some s' \<and> current_tcb s' = Some 2"
proof -
  have "canary_intact queued" "0 < tc queued" by (simp_all add: queued_def)
  moreover have "filter (\<lambda>t. runnable (os_tasks queued ! t)) (scan_order queued) = [2]"
  proof -
    have "tc queued = 3" "scan_start queued = 3" by (simp_all add: queued_def scan_start_def)
    moreover have "[0..<3] = [0, 1, 2 :: nat]" by (simp add: upt_rec)
    ultimately have order: "scan_order queued = [0, 1, 2]" by (simp add: scan_order_def)
    have "runnable (os_tasks queued ! 0) = False" "runnable (os_tasks queued ! 1) = False"
      "runnable (os_tasks queued ! 2) = True" by (simp_all add: queued_def runnable_def)
    then show ?thesis unfolding order by simp
  qed
  ultimately show ?thesis using scheduler_decision [OF kinv_queued] by simp
qed

text \<open>C23: Round robin. While the set of runnable tasks does not change, a runnable task of the top
  priority gets the CPU after at most as many scheduling decisions as it is slots away from the
  running task, so equal-priority tasks cannot starve each other.\<close>
theorem round_robin:
  assumes "turn_in j t s"
  shows "\<exists>k s'. k \<le> j \<and> schedule_n (Suc k) s = Some s' \<and> current_tcb s' = Some t \<and>
    state (os_tasks s' ! t) = RUNNING"
  by (rule turn_comes [OF assms])

definition equals :: kernel where
  "equals = sample [task 0x20000400 1 RUNNING 0 None, task 0x20000800 1 READY 0 None,
     task 0x20000C00 1 READY 0 None] 0 idle_mutex (sample_sem 0 1 []) False"

lemma kinv_equals: "kinv equals"
  unfolding equals_def
  by (rule kinv_sample [where ms = "[]" and xs = "[]"]) (simp_all add: sample_eval)

theorem round_robin_witness:
  "\<exists>k s'. k \<le> 1 \<and> schedule_n (Suc k) equals = Some s' \<and> current_tcb s' = Some 2"
proof -
  have three: "t < 3 \<longleftrightarrow> t = 0 \<or> t = 1 \<or> t = 2" for t :: nat by auto
  have "sched_ready equals" by (rule kinv_sched_ready [OF kinv_equals]) (simp add: equals_def)
  then have "turn_in 1 2 equals"
    by (auto simp: turn_in_def equals_def three runnable_def prio_def)
  from round_robin [OF this] show ?thesis by blast
qed

text \<open>A task whose stack has grown over its canary is caught: the next scheduling decision enters
  the overflow hook for it instead of switching.\<close>
theorem overflow_detected:
  assumes "kinv s" "current_tcb s = Some c" "mem s (stackBase (os_tasks s ! c)) \<noteq> STACK_CANARY"
  shows "os_scheduler s = Some (s\<lparr>halted_in := Some c\<rparr>)"
proof -
  have "0 < tc s" using kinvD(3) [OF assms(1)] assms(2) by (auto simp: current_ok_def)
  with os_scheduler_overflow [OF kinv_sched_ready [OF assms(1)]] assms(2,3) show ?thesis by auto
qed

theorem overflow_detected_witness:
  "os_scheduler (fresh\<lparr>mem := (\<lambda>_. 0)\<rparr>) = Some (fresh\<lparr>mem := (\<lambda>_. 0), halted_in := Some 0\<rparr>)"
proof -
  have "kinv (fresh\<lparr>mem := (\<lambda>_. 0)\<rparr>)"
    using kinv_fresh by (simp add: kinv_def waits_ok_def objs_ok_def mutex_ok_def sem_ok_def
        current_ok_def wait_shape_def)
  from overflow_detected [OF this, of 0] show ?thesis by (simp add: fresh_def model_defs)
qed

subsection \<open>Task creation\<close>

text \<open>C31: A created task has a complete first frame: an 8-byte aligned stack top, the Thumb bit in
  xPSR, its entry point as PC, an LR no task may return to, and zeroed R4 to R11; the saved stack
  pointer points at the frame, the canary is in place, and the frame lies strictly above the canary and
  inside the stack.\<close>
theorem task_frame:
  assumes "kinv s" "tc s < MAX_TASKS" "taskptr \<noteq> 0" "64 \<le> stk_words"
    and "unat base + 4 * unat stk_words < 2 ^ 32"
  shows "\<exists>s'. os_task_create taskptr base stk_words p s = Some (True, s') \<and>
    (let sp = stackPtr (os_tasks s' ! tc s) in
      load_words (mem s') sp 8 = replicate 8 0 \<and>
      load_words (mem s') (sp + 32) 8 = rev (hw_frame taskptr) \<and>
      8 dvd unat sp \<and> unat base < unat sp \<and> unat sp + 64 \<le> unat base + 4 * unat stk_words \<and>
      mem s' base = STACK_CANARY)"
proof -
  let ?top = "stack_top base stk_words" and ?h = "(mem s)(base := STACK_CANARY)"
  let ?s' = "s\<lparr>os_tasks := (os_tasks s)[tc s := created base stk_words p (os_tasks s ! tc s)],
      mem := snd (os_task_init_stack taskptr ?top ?h),
      current_tcb := (case current_tcb s of None \<Rightarrow> Some (tc s) | Some c \<Rightarrow> Some c),
      task_count := task_count s + 1\<rparr>"
  note len = waits_okD(1) [OF kinvD(1) [OF assms(1)]]
  have run: "os_task_create taskptr base stk_words p s = Some (True, ?s')"
    using os_task_create_eq [OF len assms(2-4)] .
  have sp: "stackPtr (os_tasks ?s' ! tc s) = ?top - 64" using len assms(2) by simp
  have eight: "[0..<8] = [0, 1, 2, 3, 4, 5, 6, 7 :: nat]" by (simp add: upt_rec)
  have r4: "load_words (mem ?s') (?top - 64) 8 = replicate 8 0"
    by (simp add: load_words_def eight init_stack_mem numeral_eq_Suc)
  have hw: "load_words (mem ?s') (?top - 64 + 32) 8 = rev (hw_frame taskptr)"
    by (simp add: load_words_def eight init_stack_mem hw_frame_def)
  note top = stack_top_unat [OF assms(5)] and above = frame_addr_above [OF assms(5,4)]
  have low: "base \<noteq> ?top - k" if "0 < unat k" "unat k \<le> 64" for k
    using above(1) [OF that] by auto
  have canary: "mem ?s' base = STACK_CANARY"
    by (simp add: init_stack_mem low)
  have "64 \<le> unat stk_words" using assms(4) by (simp add: word_le_nat_alt)
  then have "64 \<le> ?top" using top(1) by (simp add: word_le_nat_alt)
  then have u: "unat (?top - 64) = unat ?top - 64" by (simp add: unat_sub)
  have "8 dvd unat ?top - 64" using top(3) by simp
  moreover have "unat base < unat (?top - 64)" using above(1) [of 64] by simp
  moreover have "unat ?top - 64 + 64 \<le> unat base + 4 * unat stk_words"
    using top(2) \<open>64 \<le> ?top\<close> by (simp add: word_le_nat_alt)
  ultimately show ?thesis
    using run r4 hw canary by (intro exI [of _ ?s']) (simp only: sp Let_def u)
qed

theorem task_frame_witness:
  "\<exists>s'. os_task_create 0x08000401 0x20001000 256 1 fresh = Some (True, s') \<and>
     mem s' 0x20001000 = STACK_CANARY \<and> 8 dvd unat (stackPtr (os_tasks s' ! 3))"
  using task_frame [OF kinv_fresh, of "0x08000401" 256 "0x20001000" 1]
  by (auto simp: fresh_def model_defs Let_def)

text \<open>C32: Task creation either rejects its arguments (no free TCB, no entry point, fewer than 64
  words of stack) and changes nothing, or registers exactly one more task, READY with its base priority,
  leaves every existing TCB alone, keeps the kernel invariant, and makes the first task created the
  current one.\<close>
theorem task_create_registers:
  assumes "kinv s"
  shows "\<exists>ok s'. os_task_create taskptr base stk_words p s = Some (ok, s') \<and> kinv s' \<and>
    (ok \<longleftrightarrow> tc s < MAX_TASKS \<and> taskptr \<noteq> 0 \<and> 64 \<le> stk_words) \<and>
    (if ok then tc s' = Suc (tc s) \<and> (\<forall>t<tc s. os_tasks s' ! t = os_tasks s ! t) \<and>
         state (os_tasks s' ! tc s) = READY \<and> current_priority (os_tasks s' ! tc s) = p \<and>
         base_priority (os_tasks s' ! tc s) = p \<and>
         current_tcb s' = (case current_tcb s of None \<Rightarrow> Some (tc s) | Some c \<Rightarrow> Some c)
     else s' = s)"
proof (cases "MAX_TASKS \<le> tc s \<or> taskptr = 0 \<or> stk_words < 64")
  case True
  with os_task_create_rejected [OF True] assms show ?thesis by auto
next
  case False
  note len = waits_okD(1) [OF kinvD(1) [OF assms]]
  from False have g: "tc s < MAX_TASKS" "taskptr \<noteq> 0" "64 \<le> stk_words" by auto
  have "unat (task_count s + 1) = Suc (tc s)"
    using g(1) by (intro unat_u8_inc) (simp add: model_defs)
  with os_task_create_eq [OF len g, of base p] g(1) len obtain s' where
    run: "os_task_create taskptr base stk_words p s = Some (True, s')"
    and s': "tc s' = Suc (tc s)" "\<forall>t<tc s. os_tasks s' ! t = os_tasks s ! t"
      "state (os_tasks s' ! tc s) = READY" "current_priority (os_tasks s' ! tc s) = p"
      "base_priority (os_tasks s' ! tc s) = p"
      "current_tcb s' = (case current_tcb s of None \<Rightarrow> Some (tc s) | Some c \<Rightarrow> Some c)"
    by simp
  from run s' kinv_task_create [OF assms run] g show ?thesis by auto
qed

theorem task_create_registers_witness:
  "\<exists>s'. os_task_create 0x08000401 0x20001000 256 7 fresh = Some (True, s') \<and> kinv s' \<and> tc s' = 4"
  using task_create_registers [OF kinv_fresh, of "0x08000401" "0x20001000" 256 7]
  by (auto simp: fresh_def model_defs)

subsection \<open>The context switch\<close>

text \<open>C11: A task that is switched out and, any number of switches later, back in finds every one of
  its registers as it left them: R0 to R12, LR, PC, xPSR and its stack pointer, whatever the alignment
  of its stack was, provided its saved frame was left alone in between.\<close>
theorem context_roundtrip:
  assumes "context_switch c s = Some (c1, s1)" "current_tcb s = Some a"
    and "length (hi c) = 8" "\<not> bit (xpsr c) 9"
    and "context_switch d t = Some (d', t')" "halted_in t' = None" "current_tcb t' = Some a"
    and "stackPtr (os_tasks t' ! a) = stackPtr (os_tasks s1 ! a)"
      "load_words (mem t') (stackPtr (os_tasks s1 ! a)) 16 =
       load_words (mem s1) (stackPtr (os_tasks s1 ! a)) 16"
  shows "d' = c\<lparr>control := control d\<rparr>"
  using context_preserved [OF assms] .

definition alone :: kernel where
  "alone = sample [task 0x20000400 2 RUNNING 0 None, task 0x20000800 1 BLOCKED 9 None,
     task 0x20000C00 0 BLOCKED 9 None] 0 idle_mutex (sample_sem 0 1 []) True"

definition alone_cpu :: cpu where
  "alone_cpu = \<lparr>r0 = 1, r1 = 2, r2 = 3, r3 = 4, r12 = 5, lr = 6, pc = 0x08000400, xpsr = 0x01000000,
     hi = [11, 12, 13, 14, 15, 16, 17, 18], psp = 0x20000704, control = 2\<rparr>"

lemma kinv_alone: "kinv alone"
  unfolding alone_def
  by (rule kinv_sample [where ms = "[]" and xs = "[]"]) (simp_all add: sample_eval)

theorem context_roundtrip_witness:
  "\<exists>s'. context_switch alone_cpu alone = Some (alone_cpu, s')"
proof -
  have three: "t < 3 \<longleftrightarrow> t = 0 \<or> t = 1 \<or> t = 2" for t :: nat by auto
  have "one_running alone" by (auto simp: one_running_def alone_def three)
  with kinv_alone have sys: "sys_inv 0 alone" by (simp add: sys_inv_def alone_def runnable_def)
  have cur: "current_tcb alone = Some 0" by (simp add: alone_def)
  have intact: "context_mem alone_cpu (mem alone) (stackBase (os_tasks alone ! 0)) = STACK_CANARY"
    by (simp add: context_mem_def alone_cpu_def hw_words_def saved_sp_def alone_def)
  show ?thesis
  proof (cases rule: switch_effect [OF sys cur, where c = alone_cpu])
    case 1
    with intact show ?thesis by simp
  next
    case (2 d s' b)
    have "b = 0" using 2(2) by (auto simp: alone_def three runnable_def)
    then have "current_tcb s' = Some 0" "halted_in s' = None" using 2(4) by (simp_all add: alone_def)
    with context_roundtrip [OF 2(1) cur _ _ 2(1)] 2(1) show ?thesis
      by (simp add: alone_cpu_def)
  qed
qed

text \<open>\<^verbatim>\<open>os_start_first_task\<close> enters a created task at its entry point, on the process
  stack, with the stack pointer at the aligned top of its stack and interrupts enabled.\<close>
theorem first_task_entry:
  assumes "kinv s" "os_task_create taskptr base stk_words p s = Some (True, s')"
    and "current_tcb s' = Some (tc s)"
  shows "os_start_first_task c s' = Some (c\<lparr>r0 := stack_top base stk_words, r1 := taskptr, r2 := 2,
    psp := stack_top base stk_words, control := 2, pc := taskptr\<rparr>, s'\<lparr>primask := 0\<rparr>)"
proof -
  note len = waits_okD(1) [OF kinvD(1) [OF assms(1)]]
  have g: "tc s < MAX_TASKS" "taskptr \<noteq> 0" "64 \<le> stk_words"
    using assms(2) by (auto simp: os_task_create_def split: if_splits)
  note s' = os_task_create_eq [OF len g, of base p, unfolded assms(2), simplified]
  have "mem s' (stack_top base stk_words - 8) = taskptr" by (simp add: s' init_stack_mem)
  then show ?thesis
    using start_first_task_eq [OF assms(3), of "stack_top base stk_words" taskptr c] s' len g(1) by simp
qed

theorem first_task_entry_witness:
  "\<exists>s'. os_task_create 0x08000401 0x20001000 256 1 (reset_state (\<lambda>_. 0) 0) = Some (True, s') \<and>
     (\<exists>c'. os_start_first_task alone_cpu s' = Some (c', s'\<lparr>primask := 0\<rparr>) \<and> pc c' = 0x08000401 \<and>
        psp c' = 0x20001400)"
proof -
  let ?s = "reset_state (\<lambda>_. 0) 0"
  have "length (os_tasks ?s) = MAX_TASKS" "tc ?s < MAX_TASKS" by (simp_all add: reset_state_def model_defs)
  then obtain s' where s': "os_task_create 0x08000401 0x20001000 256 1 ?s = Some (True, s')"
    "current_tcb s' = Some (tc ?s)"
    using os_task_create_eq [of ?s "0x08000401" 256 "0x20001000" 1] by (simp add: reset_state_def)
  have "stack_top 0x20001000 256 = 0x20001400" by (simp add: stack_top_def)
  with first_task_entry [OF kinv_reset s', of alone_cpu] s'(1) show ?thesis by auto
qed

subsection \<open>Critical sections\<close>

text \<open>C33: Every kernel call that disables interrupts puts PRIMASK back to what it found, on every
  path: success, failure, timeout, parking and handing over. Critical sections therefore nest.\<close>
theorem primask_restored:
  "(os_mutex_acquire m timeout s = Some (r, s') \<longrightarrow> primask s' = primask s) \<and>
   (os_mutex_release m s = Some s' \<longrightarrow> primask s' = primask s) \<and>
   (os_semaphore_acquire a timeout s = Some (r, s') \<longrightarrow> primask s' = primask s) \<and>
   (os_semaphore_release a s = Some s' \<longrightarrow> primask s' = primask s) \<and>
   (os_delay timeout s = Some s' \<longrightarrow> primask s' = primask s)"
  by (auto simp: os_mutex_acquire_def os_mutex_release_def os_semaphore_acquire_def
      os_semaphore_release_def os_delay_def os_enter_critical_def os_exit_critical_def os_yield_def
      Let_def Option.bind_eq_Some_conv split: if_splits prod.splits option.splits)

theorem primask_restored_witness:
  "\<exists>s'. os_semaphore_release (Sem_At 0) (fresh\<lparr>primask := 1\<rparr>) = Some s' \<and> primask s' = 1"
proof -
  have "sems (fresh\<lparr>primask := 1\<rparr>) (Sem_At 0) = Some (sample_sem 0 1 [])" by (simp add: fresh_def)
  from sem_release_uncontended [OF this] obtain s' where
    "os_semaphore_release (Sem_At 0) (fresh\<lparr>primask := 1\<rparr>) = Some s'" by (simp add: sample_sem_def)
  with primask_restored [where s = "fresh\<lparr>primask := 1\<rparr>" and a = "Sem_At 0" and s' = s'] show ?thesis
    by auto
qed

subsection \<open>Time\<close>

text \<open>C34: A tick advances the clock by one modulo 2^32, lowers every pending sleep by one, wakes
  exactly the tasks whose sleep ends and takes them out of their queues, leaves every other task alone,
  and requests a switch.\<close>
theorem tick_effect:
  assumes "kinv s"
  shows "\<exists>s'. SysTick_Handler s = Some s' \<and> kinv s' \<and> os_get_ticks s' = os_get_ticks s + 1 \<and> pendsv s' \<and>
    (\<forall>t<tc s. os_tasks s' ! t = ticked (os_tasks s ! t)) \<and>
    (\<forall>r. waiters s' r = filter (\<lambda>p. \<not> expired s (the p)) (waiters s r))"
  by (rule systick_effect [OF assms]) (auto simp: os_get_ticks_def)

theorem tick_effect_witness:
  "\<exists>s'. SysTick_Handler queued = Some s' \<and> sleep_time (os_tasks s' ! 0) = 2 \<and>
     waiters s' (MutexQ (Mutex_At 0)) = [Some 1, Some 0]"
proof -
  obtain s' where s': "SysTick_Handler queued = Some s'"
    "\<forall>t<tc queued. os_tasks s' ! t = ticked (os_tasks queued ! t)"
    "\<forall>r. waiters s' r = filter (\<lambda>p. \<not> expired queued (the p)) (waiters queued r)"
    using tick_effect [OF kinv_queued] by blast
  have "os_tasks s' ! 0 = ticked (os_tasks queued ! 0)" using s'(2) by (simp add: queued_def)
  with s'(1,3) show ?thesis
    by (simp add: queued_def ticked_def waiters_sample held_mutex_def expired_def)
qed

text \<open>C31: \<^verbatim>\<open>os_delay\<close> by the running task puts it to sleep for exactly the ticks asked
  for and requests a switch; a delay of zero, or one before the kernel runs, does nothing.\<close>
theorem delay_sleeps:
  assumes "kinv s" "running s c"
  shows "(ms = 0 \<or> \<not> kernel_running s \<longrightarrow> os_delay ms s = Some s) \<and>
    (ms \<noteq> 0 \<longrightarrow> kernel_running s \<longrightarrow> (\<exists>s'. os_delay ms s = Some s' \<and> pendsv s' \<and>
      asleep_for (unat ms) c s' \<and> (\<forall>t. t \<noteq> c \<longrightarrow> os_tasks s' ! t = os_tasks s ! t)))"
proof (intro conjI impI)
  assume "ms = 0 \<or> \<not> kernel_running s"
  then show "os_delay ms s = Some s" by (auto simp: os_delay_def)
next
  assume g: "ms \<noteq> 0" "kernel_running s"
  have "c < tc s" "c < length (os_tasks s)"
    using assms(2) waits_okD(3) [OF kinvD(1) [OF assms(1)]] by (auto simp: running_def)
  moreover have "0 < unat ms" using g(1) by (simp add: unat_gt_0)
  ultimately show "\<exists>s'. os_delay ms s = Some s' \<and> pendsv s' \<and> asleep_for (unat ms) c s' \<and>
      (\<forall>t. t \<noteq> c \<longrightarrow> os_tasks s' ! t = os_tasks s ! t)"
    using os_delay_effect [OF assms g(2,1)] by (simp add: asleep_for_def asleep_def)
qed

theorem delay_sleeps_witness:
  "\<exists>s'. os_delay 20 fresh = Some s' \<and> asleep_for 20 0 s'"
proof -
  have "running fresh 0" "kernel_running fresh" by (simp_all add: running_def fresh_def)
  with delay_sleeps [OF kinv_fresh, of 0 20] show ?thesis by auto
qed

end
