(* ===== verification/Machine_Frame.thy ===== *)
theory Machine_Frame
  imports Self_Test
begin

text \<open>
  What the calls of the kernel do not change. \<open>rest_of\<close> is everything but the tasks, the
  synchronisation objects and the pending switch; \<open>machine\<close> leaves out the rings and their memory
  too.
\<close>

definition rest_of :: "kernel \<Rightarrow> kernel" where
  "rest_of s = s\<lparr>os_tasks := [], mutexes := \<lambda>_. None, sems := \<lambda>_. None, pendsv := False\<rparr>"

definition machine :: "kernel \<Rightarrow> kernel" where
  "machine s = (rest_of s)\<lparr>queues := \<lambda>_. None, mem := \<lambda>_. 0\<rparr>"

lemma rest_of_fields:
  assumes "rest_of s' = rest_of s"
  shows "queues s' = queues s" "mem s' = mem s" "machine s' = machine s" "primask s' = primask s"
    "current_tcb s' = current_tcb s" "kernel_running s' = kernel_running s" "task_count s' = task_count s"
proof -
  show "queues s' = queues s" using arg_cong [OF assms, of queues] by (simp add: rest_of_def)
  show "mem s' = mem s" using arg_cong [OF assms, of mem] by (simp add: rest_of_def)
  show "machine s' = machine s" using assms by (simp add: machine_def)
  show "primask s' = primask s" using arg_cong [OF assms, of primask] by (simp add: rest_of_def)
  show "current_tcb s' = current_tcb s" using arg_cong [OF assms, of current_tcb] by (simp add: rest_of_def)
  show "kernel_running s' = kernel_running s" using arg_cong [OF assms, of kernel_running] by (simp add: rest_of_def)
  show "task_count s' = task_count s" using arg_cong [OF assms, of task_count] by (simp add: rest_of_def)
qed

lemma rest_of_updates [simp]:
  "rest_of (s\<lparr>os_tasks := ts\<rparr>) = rest_of s" "rest_of (s\<lparr>mutexes := ms\<rparr>) = rest_of s"
  "rest_of (s\<lparr>sems := ss\<rparr>) = rest_of s" "rest_of (s\<lparr>pendsv := b\<rparr>) = rest_of s"
  "rest_of (s\<lparr>primask := p\<rparr>) = (rest_of s)\<lparr>primask := p\<rparr>"
  "rest_of (put_wait_array r a s) = rest_of s" "rest_of (put_wait_count r c s) = rest_of s"
  "(rest_of s)\<lparr>primask := primask s\<rparr> = rest_of s"
  by (cases r; simp add: rest_of_def)+

lemma rest_of_upd:
  "upd_tcb t f s = Some s' \<Longrightarrow> rest_of s' = rest_of s"
  "upd_mutex m g s = Some s' \<Longrightarrow> rest_of s' = rest_of s"
  "upd_sem a h s = Some s' \<Longrightarrow> rest_of s' = rest_of s"
  by (auto simp: upd_tcb_def upd_mutex_def upd_sem_def Option.bind_eq_Some_conv)

lemma rest_of_remove: "wait_queue_remove t s = Some s' \<Longrightarrow> rest_of s' = rest_of s"
  by (cases "wait_queue (os_tasks s ! t)"; cases "wait_count (os_tasks s ! t)")
    (auto simp: wait_queue_remove_def get_tcb_def rd_Some_iff Option.bind_eq_Some_conv dest!: rest_of_upd)

lemma rest_of_wake: "wake_task t s = Some s' \<Longrightarrow> rest_of s' = rest_of s"
  by (auto simp: wake_task_def Option.bind_eq_Some_conv dest!: rest_of_remove rest_of_upd)

lemma rest_of_block: "block_current q k n timeout s = Some (ok, s') \<Longrightarrow> rest_of s' = rest_of s"
  by (auto simp: block_current_def Option.bind_eq_Some_conv dest!: rest_of_upd split: if_split_asm)

lemma rest_of_donate: "donate_priority w s = Some s' \<Longrightarrow> rest_of s' = rest_of s"
  by (auto simp: donate_priority_def Option.bind_eq_Some_conv dest!: rest_of_upd split: if_split_asm)

lemma rest_of_drop: "drop_donation w s = Some s' \<Longrightarrow> rest_of s' = rest_of s"
  by (auto simp: drop_donation_def dest!: rest_of_upd split: option.splits)

lemmas rest_of_steps = rest_of_upd rest_of_wake rest_of_block rest_of_donate rest_of_drop

lemma rest_of_calls:
  "os_semaphore_acquire a n s = Some (r, s') \<Longrightarrow> rest_of s' = rest_of s"
  "os_semaphore_release a s = Some s' \<Longrightarrow> rest_of s' = rest_of s"
  "os_mutex_acquire m n s = Some (r, s') \<Longrightarrow> rest_of s' = rest_of s"
  "os_mutex_release m s = Some s' \<Longrightarrow> rest_of s' = rest_of s"
  by (auto simp: os_semaphore_acquire_def os_semaphore_release_def os_mutex_acquire_def
      os_mutex_release_def os_enter_critical_def os_exit_critical_def os_yield_def
      Option.bind_eq_Some_conv dest!: rest_of_steps split: if_split_asm option.splits)

lemmas machine_calls = rest_of_calls [THEN rest_of_fields(3)]

lemma machine_ring [simp]:
  "machine (s\<lparr>queues := qs\<rparr>) = machine s" "machine (s\<lparr>mem := h\<rparr>) = machine s"
  "machine (s\<lparr>os_tasks := ts\<rparr>) = machine s" "machine (s\<lparr>mutexes := ms\<rparr>) = machine s"
  "machine (s\<lparr>sems := ss\<rparr>) = machine s"
  by (simp_all add: machine_def rest_of_def)

lemma machine_q_step: "q_step q p s = Some (p', s') \<Longrightarrow> machine s' = machine s"
proof -
  have after: "machine s' = machine s"
    if "map_option (after_acquire w k) x = Some (p', s')" "\<And>r u. x = Some (r, u) \<Longrightarrow> machine u = machine s" for w k x
  proof -
    from that(1) obtain r u where x: "x = Some (r, u)" "after_acquire w k (r, u) = (p', s')" by auto
    then have "s' = u" by (cases r) (simp_all add: after_acquire_def)
    with that(2) [OF x(1)] show ?thesis by simp
  qed
  show "q_step q p s = Some (p', s') \<Longrightarrow> machine s' = machine s"
    by (cases p) (auto simp: ring_write_def ring_read_def Let_def Option.bind_eq_Some_conv
        dest: machine_calls intro: after split: if_split_asm)
qed

lemma machine_q_run: "q_run q p s = Some (p', s') \<Longrightarrow> machine s' = machine s"
proof (induction q p s rule: q_run.induct)
  case (1 q p s)
  show ?case
  proof (cases "q_finished p \<or> q_waiting p")
    case False
    with "1.prems" obtain p1 s1 where 2: "q_step q p s = Some (p1, s1)" "q_run q p1 s1 = Some (p', s')"
      by (auto simp: q_run.simps [of q p s] split: option.splits)
    with "1.IH" False machine_q_step [OF 2(1)] show ?thesis by auto
  qed (use "1.prems" in \<open>auto simp: q_run.simps\<close>)
qed

lemma machine_post_loops:
  "post_sends q vs s = Some s' \<Longrightarrow> machine s' = machine s"
  "post_expect q vs s = Some (b, s') \<Longrightarrow> machine s' = machine s"
proof -
  show "post_sends q vs s = Some s' \<Longrightarrow> machine s' = machine s"
    by (induction vs arbitrary: s)
      (auto simp: os_queue_send_def Option.bind_eq_Some_conv dest!: machine_q_run)
  show "post_expect q vs s = Some (b, s') \<Longrightarrow> machine s' = machine s"
    by (induction vs arbitrary: s)
      (auto simp: os_queue_receive_def Option.bind_eq_Some_conv dest!: machine_q_run split: if_split_asm)
qed

lemma machine_receive: "os_queue_receive q n s = Some (p, s') \<Longrightarrow> machine s' = machine s"
  by (simp add: os_queue_receive_def machine_q_run)

lemma machine_test_queue:
  assumes "test_queue_basic q buf s = Some (r, s')"
  shows "machine s' = machine (os_queue_init q buf 4 s)"
proof -
  note loops = machine_post_loops machine_receive
  note [simp del] = post_sends.simps post_expect.simps
  from assms obtain s1 p s2 where 1: "post_sends q [0xDEADBEEF] (os_queue_init q buf 4 s) = Some s1"
    "os_queue_receive q 0 s1 = Some (p, s2)"
    by (auto simp: test_queue_basic_def Option.bind_eq_Some_conv)
  then have m2: "machine s2 = machine (os_queue_init q buf 4 s)" using loops by metis
  show ?thesis
  proof (cases "p = Q_done OS_SUCCESS (Some 0xDEADBEEF)")
    case False
    then have "s' = s2" using assms 1 by (cases p) (auto simp: test_queue_basic_def fail_def split: if_split_asm)
    with m2 show ?thesis by simp
  next
    case True
    with assms 1 obtain s3 b4 s4 where 2: "post_sends q [1, 2, 3, 4] s2 = Some s3"
      "post_expect q [1, 2, 3, 4] s3 = Some (b4, s4)"
      and rest: "(if \<not> b4 then fail ''FIFO order'' s4
            else do {
              (pc5, s5) \<leftarrow> os_queue_receive q 0 s4;
              if pc5 \<noteq> Q_done OS_TIMEOUT None then fail ''empty receive should time out'' s5
              else do {
                s6 \<leftarrow> post_sends q [1, 2, 3, 4, 5, 6] s5;
                (ok7, s7) \<leftarrow> post_expect q [3] s6;
                if \<not> ok7 then fail ''overwrite policy'' s7 else Some (Passed, s7) } }) = Some (r, s')"
      by (auto simp: test_queue_basic_def Option.bind_eq_Some_conv)
    have m4: "machine s4 = machine s2" using 2 loops by metis
    show ?thesis
    proof (cases b4)
      case False
      with rest m4 m2 show ?thesis by (simp add: fail_def)
    next
      case True
      with rest have "machine s' = machine s4"
        by (auto simp: fail_def Option.bind_eq_Some_conv dest!: loops split: if_split_asm)
      with m4 m2 show ?thesis by simp
    qed
  qed
qed

subsection \<open>What the self-test leaves\<close>

lemma rest_same:
  assumes "machine s' = machine s" "os_tasks s' = os_tasks s" "pendsv s' = pendsv s"
  shows "s' = s\<lparr>mutexes := mutexes s', sems := sems s', queues := queues s', mem := mem s'\<rparr>"
  using assms by (cases s; cases s') (simp add: machine_def rest_of_def)

lemma below_4: "(\<forall>i<4. b \<noteq> buf + 4 * of_nat i) \<longleftrightarrow> b \<notin> {buf, buf + 4, buf + 8, buf + 12}" for b buf :: u32
  by (auto simp: All_less_Suc eval_nat_numeral)

lemma run_post_frame:
  assumes "current_tcb s = None" and run: "os_run_post m a q buf s = Some (Passed, s')"
  shows "machine s' = machine s \<and>
    (\<forall>m'. m' \<notin> {m, Queue_Lock q} \<longrightarrow> mutexes s' m' = mutexes s m') \<and>
    (\<forall>a'. a' \<notin> {a, Queue_Empty q, Queue_Filled q} \<longrightarrow> sems s' a' = sems s a') \<and>
    (\<forall>q'. q' \<noteq> q \<longrightarrow> queues s' q' = queues s q') \<and>
    (\<forall>b. b \<notin> {buf, buf + 4, buf + 8, buf + 12} \<longrightarrow> mem s' b = mem s b)"
proof -
  let ?s2 = "os_semaphore_init a 2 2 (os_mutex_init m s)"
  let ?s3 = "os_queue_init q buf 4 ?s2"
  note init = os_queue_init_def os_mutex_init_def os_semaphore_init_def Let_def
  obtain s'' where s'': "test_queue_basic q buf ?s2 = Some (Passed, s'')" "q_from q ?s3 s''"
    by (rule test_queue_passes [of ?s2 q buf]) (use assms(1) in simp)
  moreover have "test_queue_basic q buf ?s2 = Some (Passed, s')"
    using run test_mutex_passes [OF assms(1), of m] test_semaphore_passes [of a "os_mutex_init m s"]
    by (simp add: os_run_post_def)
  ultimately have s': "q_from q ?s3 s'" "machine s' = machine ?s3"
    using machine_test_queue by auto
  have q3: "queues ?s3 = (queues s)(q \<mapsto> \<lparr>q_buffer = buf, q_capacity = 4, q_head = 0, q_tail = 0\<rparr>)"
    "mem ?s3 = mem s" "machine ?s3 = machine s"
    by (simp_all add: init)
  have m3: "mutexes ?s3 m' = mutexes s m'" if "m' \<notin> {m, Queue_Lock q}" for m'
    using that by (simp add: init)
  have a3: "sems ?s3 a' = sems s a'" if "a' \<notin> {a, Queue_Empty q, Queue_Filled q}" for a'
    using that by (simp add: init)
  have fr: "(\<forall>m'. m' \<noteq> Queue_Lock q \<longrightarrow> mutexes s' m' = mutexes ?s3 m') \<and>
    (\<forall>a'. a' \<noteq> Queue_Empty q \<and> a' \<noteq> Queue_Filled q \<longrightarrow> sems s' a' = sems ?s3 a') \<and>
    (\<forall>q'. q' \<noteq> q \<longrightarrow> queues s' q' = queues ?s3 q') \<and>
    (\<forall>b. (\<forall>i<4. b \<noteq> buf + 4 * of_nat i) \<longrightarrow> mem s' b = mem ?s3 b)"
    using s'(1) q3(1) by (auto simp: q_from_def q_frame_def ring_frame_def q_addr_def)
  show ?thesis using fr s'(2) q3 m3 a3 unfolding below_4 by simp
qed

end
