(* ===== verification/Send_Outcomes.thy ===== *)
theory Send_Outcomes
  imports Machine_Frame Wait_Service
begin

text \<open>
  What one call of \<^verbatim>\<open>os_queue_send\<close> does in every state it can be made in: the
  four outcomes as predicates on the state before and after, and for each the lemma that follows the
  call through its program points to it.
\<close>

subsection \<open>The outcomes\<close>

text \<open>The tokens of the free slots, after the send has taken one if there was one.\<close>

definition send_takes :: "nat \<Rightarrow> kernel \<Rightarrow> saddr \<Rightarrow> u32" where
  "send_takes q s = (if tokens s (Queue_Empty q) = 0 then tokens s
     else (tokens s)(Queue_Empty q := tokens s (Queue_Empty q) - 1))"

text \<open>The rings, their memory and the locks are as they were.\<close>

definition ring_same :: "kernel \<Rightarrow> kernel \<Rightarrow> bool" where
  "ring_same s s' \<longleftrightarrow> queues s' = queues s \<and> mem s' = mem s \<and> holder s' = holder s"

text \<open>Parked for a slot: the caller is the last to wait for one, with its timeout.\<close>

definition send_no_slot :: "nat \<Rightarrow> u32 \<Rightarrow> u32 \<Rightarrow> tid \<Rightarrow> kernel \<Rightarrow> q_pc \<Rightarrow> kernel \<Rightarrow> bool" where
  "send_no_slot q msg timeout c s p s' \<longleftrightarrow> p = S_take_wait msg \<and> ring_same s s' \<and> tokens s' = tokens s \<and>
     waiters s' = (waiters s)(SemQ (Queue_Empty q) := waiters s (SemQ (Queue_Empty q)) @ [Some c]) \<and>
     os_tasks s' = (os_tasks s)[c := parked (SemQ (Queue_Empty q)) timeout (os_tasks s ! c)]"

text \<open>Parked for the lock, without a timeout, with the slot taken if there was one; the holder of
  the lock runs at no less than the caller's priority.\<close>

definition send_no_lock :: "nat \<Rightarrow> u32 \<Rightarrow> tid \<Rightarrow> tid \<Rightarrow> kernel \<Rightarrow> q_pc \<Rightarrow> kernel \<Rightarrow> bool" where
  "send_no_lock q msg c w s p s' \<longleftrightarrow> p = S_lock_wait msg (tokens s (Queue_Empty q) \<noteq> 0) \<and>
     ring_same s s' \<and> tokens s' = send_takes q s \<and>
     waiters s' = (waiters s)(MutexQ (Queue_Lock q) := waiters s (MutexQ (Queue_Lock q)) @ [Some c]) \<and>
     os_tasks s' = (donated c w (os_tasks s))
       [c := parked (MutexQ (Queue_Lock q)) WAIT_FOREVER (os_tasks s ! c)]"

text \<open>The caller has the lock of the queue already: the call fails, and the slot is given back.\<close>

definition send_own_lock :: "kernel \<Rightarrow> q_pc \<Rightarrow> kernel \<Rightarrow> bool" where
  "send_own_lock s p s' \<longleftrightarrow> p = Q_done OS_FAIL None \<and> s' = s"

text \<open>
  The message is in the ring and the lock is free again. If a slot was taken, the first of the most
  urgent receivers waiting for a message is served, or else the count of messages goes up. The release
  of the lock has taken back what priority the caller was lent.
\<close>

definition send_serves :: "nat \<Rightarrow> kernel \<Rightarrow> tid option" where
  "send_serves q s = (if tokens s (Queue_Empty q) = 0 then None else next_waiter (Queue_Filled q) s)"

definition send_done :: "nat \<Rightarrow> u32 \<Rightarrow> os_message_queue \<Rightarrow> tid \<Rightarrow> kernel \<Rightarrow> q_pc \<Rightarrow> kernel \<Rightarrow> bool" where
  "send_done q msg x c s p s' \<longleftrightarrow> p = Q_done OS_SUCCESS None \<and> holder s' = holder s \<and>
     mem s' = (mem s)(q_addr x (q_head x) := msg) \<and>
     queues s' = (queues s)(q \<mapsto> written q x msg (tokens s (Queue_Empty q) \<noteq> 0)) \<and>
     (case send_serves q s of
       Some n \<Rightarrow> granted (SemQ (Queue_Filled q)) s s' = [n] \<and> tokens s' = send_takes q s \<and>
         os_tasks s' = (undonated (Some c) (os_tasks s))[n := woken (os_tasks s ! n)] \<and>
         (\<forall>r. waiters s' r = remove1 (Some n) (waiters s r))
     | None \<Rightarrow> granted (SemQ (Queue_Filled q)) s s' = [] \<and>
         tokens s' = (if tokens s (Queue_Empty q) \<noteq> 0 \<and> tokens s (Queue_Filled q) < max_tokens s (Queue_Filled q)
           then (send_takes q s)(Queue_Filled q := tokens s (Queue_Filled q) + 1) else send_takes q s) \<and>
         os_tasks s' = undonated (Some c) (os_tasks s) \<and> (\<forall>r. waiters s' r = waiters s r))"

subsection \<open>The way to them\<close>

lemma running_set_tokens [simp]: "running (set_tokens a n s) c = running s c"
  by (simp add: running_def)

lemma kinv_ring: "kinv (s\<lparr>mem := h, queues := qs\<rparr>) = kinv s"
  by (simp add: kinv_def waits_ok_def objs_ok_def mutex_ok_def sem_ok_def current_ok_def wait_shape_def)

text \<open>The part of a send from its first acquire to the lock.\<close>

lemma send_takes_slot:
  assumes inv: "kinv s" and e: "sems s (Queue_Empty q) = Some e"
    and now: "tokens s (Queue_Empty q) \<noteq> 0 \<or> timeout = 0"
  obtains u where "os_queue_send q msg timeout s = q_run q (S_lock msg (tokens s (Queue_Empty q) \<noteq> 0)) u"
    "kinv u" "u = (if tokens s (Queue_Empty q) = 0 then s
       else set_tokens (Queue_Empty q) (tokens s (Queue_Empty q) - 1) s)" "tokens u = send_takes q s"
proof -
  have t: "tokens s (Queue_Empty q) = sem_count e" using e by (simp add: tokens_def)
  show ?thesis
  proof (cases "sem_count e = 0")
    case True
    have "timeout = 0" using now t True by simp
    have "q_step q (S_take msg timeout) s = Some (S_lock msg False, s)"
      using sem_acquire_poll [OF e True, of timeout] \<open>timeout = 0\<close> by (simp add: after_acquire_def s_took_def OS_TIMEOUT_def OS_SUCCESS_def)
    from q_run_step [OF this] have "q_run q (S_take msg timeout) s = q_run q (S_lock msg False) s" by simp
    then show ?thesis
      by (intro that [of s]) (use inv t True in \<open>simp_all add: os_queue_send_def send_takes_def\<close>)
  next
    case False
    let ?u = "set_tokens (Queue_Empty q) (sem_count e - 1) s"
    have "q_step q (S_take msg timeout) s = Some (S_lock msg True, ?u)"
      using sem_acquire_token [OF e False] by (simp add: after_acquire_def s_took_def)
    from q_run_step [OF this] have "q_run q (S_take msg timeout) s = q_run q (S_lock msg True) ?u" by simp
    then show ?thesis
      by (intro that [of ?u]) (use kinv_sem_acquire_token [OF inv e False] tokens_set(1) [OF e] t False
        in \<open>simp_all add: os_queue_send_def send_takes_def\<close>)
  qed
qed

text \<open>The part from the lock on, when it is free.\<close>

lemma send_with_lock:
  assumes inv: "kinv u" and run: "running u c" and x: "queues u q = Some x" "q_head x < q_capacity x"
    and l: "mutexes u (Queue_Lock q) = Some l" "lock l = 0"
  obtains v where "q_run q (S_lock msg had) u = q_run q (S_post had) v" "kinv v"
    "os_tasks v = undonated (Some c) (os_tasks u)" "task_count v = task_count u"
    "queues v = (queues u)(q \<mapsto> written q x msg had)" "mem v = (mem u)(q_addr x (q_head x) := msg)"
    "sems v = sems u" "holder v = holder u" "\<forall>r. waiters v r = waiters u r"
proof -
  let ?L = "Queue_Lock q"
  have c: "current_tcb u = Some c" using run by (simp add: running_def)
  let ?u1 = "set_lock ?L 1 (Some c) u"
  let ?u2 = "?u1\<lparr>mem := (mem u)(q_addr x (q_head x) := msg), queues := (queues u)(q \<mapsto> written q x msg had)\<rparr>"
  let ?v = "set_lock ?L 0 None (?u2\<lparr>os_tasks := undonated (Some c) (os_tasks ?u2)\<rparr>)"
  have k1: "kinv ?u1" by (rule kinv_mutex_free [OF inv run l])
  then have k2: "kinv ?u2" by (simp add: kinv_ring)
  have l2: "mutexes ?u2 ?L = Some (l\<lparr>lock := 1, owner := Some c\<rparr>)" using l by (simp add: set_lock_mutexes)
  have none: "waiters ?u2 (MutexQ ?L) = []" using mutex_ok_owner(4) [OF inv l] by simp
  have "q_step q (S_lock msg had) u = Some (S_write msg had, ?u1)"
    using mutex_acquire_free [OF l] c by (simp add: after_acquire_def s_locked_def)
  from q_run_step [OF this] have 1: "q_run q (S_lock msg had) u = q_run q (S_write msg had) ?u1" by simp
  have "q_step q (S_write msg had) ?u1 = Some (S_unlock had, ?u2)"
    using x by (simp add: ring_write_def written_def Let_def not_le)
  from q_run_step [OF this] have 2: "q_run q (S_write msg had) ?u1 = q_run q (S_unlock had) ?u2" by simp
  have "q_step q (S_unlock had) ?u2 = Some (S_post had, ?v)"
    using mutex_release_last(1) [OF k2 l2 none] by (subst q_step.simps) simp
  from q_run_step [OF this] have 3: "q_run q (S_unlock had) ?u2 = q_run q (S_post had) ?v" by simp
  have kv: "kinv ?v" using mutex_release_last(2) [OF k2 l2 none] by simp
  have h: "holder ?v = holder u"
  proof -
    have "holder u ?L = None" using l by (simp add: holder_def)
    then show ?thesis
      using l by (auto simp: holder_def set_lock_mutexes fun_eq_iff set_lock_def split: option.splits)
  qed
  show ?thesis
    by (rule that [of ?v]) (use 1 2 3 kv h in \<open>simp_all\<close>)
qed

lemma send_posts:
  assumes inv: "kinv v" and f: "sems v (Queue_Filled q) = Some f"
  obtains s' where "q_run q (S_post True) v = Some (Q_done OS_SUCCESS None, s')"
    "os_semaphore_release (Queue_Filled q) v = Some s'" "kinv s'" "queues s' = queues v" "mem s' = mem v"
proof -
  obtain s' where s': "os_semaphore_release (Queue_Filled q) v = Some s'" "keeps {} v s'"
    by (rule keeps_give [OF inv f])
  have "q_step q (S_post True) v = Some (Q_done OS_SUCCESS None, s')" using s'(1) by simp
  from q_run_step [OF this] have "q_run q (S_post True) v = Some (Q_done OS_SUCCESS None, s')" by simp
  then show ?thesis using that [of s'] s' rest_of_fields(1,2) [OF rest_of_calls(2) [OF s'(1)]] by (simp add: keeps_def)
qed

lemma send_parks:
  assumes inv: "kinv s" and run: "running s c" and k: "kernel_running s"
    and e: "sems s (Queue_Empty q) = Some e"
    and empty: "tokens s (Queue_Empty q) = 0" and n: "timeout \<noteq> 0"
  shows "\<exists>p s'. os_queue_send q msg timeout s = Some (p, s') \<and> kinv s' \<and> send_no_slot q msg timeout c s p s'"
proof -
  have "sem_count e = 0" using empty e by (simp add: tokens_def)
  then obtain s' where s': "os_semaphore_acquire (Queue_Empty q) timeout s = Some (Parked, s')" "kinv s'"
    "os_tasks s' = (os_tasks s)[c := parked (SemQ (Queue_Empty q)) timeout (os_tasks s ! c)]"
    "\<forall>r. waiters s' r = (if r = SemQ (Queue_Empty q) then waiters s r @ [Some c] else waiters s r)"
    "obj_cores s' = obj_cores s"
    by (rule sem_acquire_block [OF inv run e _ n k])
  have "q_step q (S_take msg timeout) s = Some (S_take_wait msg, s')"
    using s'(1) by (simp add: after_acquire_def)
  from q_run_step [OF this] have "os_queue_send q msg timeout s = Some (S_take_wait msg, s')"
    by (simp add: os_queue_send_def q_run.simps)
  moreover have "waiters s' = (waiters s)(SemQ (Queue_Empty q) := waiters s (SemQ (Queue_Empty q)) @ [Some c])"
    using s'(4) by (simp add: fun_eq_iff)
  ultimately show ?thesis using s' same_cores [OF s'(5)] rest_of_fields(1,2) [OF rest_of_calls(1) [OF s'(1)]]
    by (auto simp: send_no_slot_def ring_same_def)
qed

lemma lock_held:
  assumes inv: "kinv u" and run: "running u c" and k: "kernel_running u"
    and l: "mutexes u (Queue_Lock q) = Some l" and w: "holder u (Queue_Lock q) = Some w" "w \<noteq> c"
  obtains s' where "q_run q (S_lock msg had) u = Some (S_lock_wait msg had, s')" "kinv s'" "ring_same u s'"
    "tokens s' = tokens u" "waiters s' = (waiters u)(MutexQ (Queue_Lock q) := waiters u (MutexQ (Queue_Lock q)) @ [Some c])"
    "os_tasks s' = (donated c w (os_tasks u))[c := parked (MutexQ (Queue_Lock q)) WAIT_FOREVER (os_tasks u ! c)]"
proof -
  have held: "lock l \<noteq> 0" "owner l = Some w" using l w(1) by (auto simp: holder_def split: if_splits)
  have forever: "WAIT_FOREVER \<noteq> 0" by (simp add: model_defs)
  have no: "owner l \<noteq> Some c" using held w(2) by simp
  obtain s' where s': "os_mutex_acquire (Queue_Lock q) WAIT_FOREVER u = Some (Parked, s')" "kinv s'"
    "os_tasks s' = (donated c w (os_tasks u))[c := parked (MutexQ (Queue_Lock q)) WAIT_FOREVER (os_tasks u ! c)]"
    "\<forall>r. waiters s' r = (if r = MutexQ (Queue_Lock q) then waiters u r @ [Some c] else waiters u r)"
    "obj_cores s' = obj_cores u"
    using mutex_acquire_block [OF inv run l held(1) no forever k] held(2) by (metis option.inject)
  have "q_step q (S_lock msg had) u = Some (S_lock_wait msg had, s')"
    using s'(1) by (simp add: after_acquire_def)
  from q_run_step [OF this] have "q_run q (S_lock msg had) u = Some (S_lock_wait msg had, s')"
    by (simp add: q_run.simps)
  moreover have "waiters s' = (waiters u)(MutexQ (Queue_Lock q) := waiters u (MutexQ (Queue_Lock q)) @ [Some c])"
    using s'(4) by (simp add: fun_eq_iff)
  ultimately show ?thesis
    using s' same_cores [OF s'(5)] rest_of_fields(1,2) [OF rest_of_calls(3) [OF s'(1)]] that [of s']
    by (simp add: ring_same_def)
qed

lemma lock_own:
  assumes inv: "kinv s" and c: "current_tcb s = Some c" and l: "mutexes s (Queue_Lock q) = Some l"
    and own: "holder s (Queue_Lock q) = Some c" and e: "sems s (Queue_Empty q) = Some e"
    and u: "kinv u" "u = (if tokens s (Queue_Empty q) = 0 then s
       else set_tokens (Queue_Empty q) (tokens s (Queue_Empty q) - 1) s)"
  shows "q_run q (S_lock msg (tokens s (Queue_Empty q) \<noteq> 0)) u = Some (Q_done OS_FAIL None, s)"
proof -
  let ?E = "Queue_Empty q" and ?had = "tokens s (Queue_Empty q) \<noteq> 0"
  have lu: "mutexes u (Queue_Lock q) = Some l" "current_tcb u = Some c" using l c u(2) by auto
  have held: "lock l \<noteq> 0" "owner l = Some c" using l own by (auto simp: holder_def split: if_splits)
  have "q_step q (S_lock msg ?had) u = Some (S_fail ?had, u)"
    using mutex_acquire_own [OF lu(1) held(1)] held(2) lu(2)
    by (simp add: after_acquire_def s_locked_def OS_FAIL_def OS_SUCCESS_def)
  from q_run_step [OF this] have 1: "q_run q (S_lock msg ?had) u = q_run q (S_fail ?had) u" by simp
  have t: "tokens s ?E = sem_count e" using e by (simp add: tokens_def)
  have "q_step q (S_fail ?had) u = Some (Q_done OS_FAIL None, s)"
  proof (cases ?had)
    case False
    then show ?thesis using u(2) by simp
  next
    case True
    have ok: "sem_ok s ?E e" using kinvD(2) [OF inv] e by (simp add: objs_ok_def)
    then have none: "waiters u (SemQ ?E) = []" using True t u(2) by (simp add: sem_ok_def)
    have eu: "sems u ?E = Some (e\<lparr>sem_count := sem_count e - 1\<rparr>)"
      using True u(2) e t by (simp add: set_tokens_sems)
    have "sem_count e - 1 < sem_max_count e"
    proof -
      have "sem_count e \<noteq> 0" "unat (sem_count e) \<le> unat (sem_max_count e)"
        using ok True t by (simp_all add: sem_ok_def word_le_nat_alt)
      moreover from this have "0 < unat (sem_count e)" by (simp add: unat_gt_0)
      ultimately have "unat (sem_count e - 1) < unat (sem_max_count e)"
        using unat_dec [of "sem_count e"] by linarith
      then show ?thesis by (simp add: word_less_nat_alt)
    qed
    moreover have "set_tokens ?E (sem_count e) u = s"
      using True u(2) e t by (cases s) (simp add: set_tokens_def fun_upd_idem_iff)
    ultimately have "os_semaphore_release ?E u = Some s"
      using sem_release_token(1) [OF u(1) eu none] by simp
    then show ?thesis using True by simp
  qed
  from q_run_step [OF this] 1 show ?thesis by simp
qed

text \<open>The end of the send: what the give of the message does.\<close>

lemma granted_none:
  assumes ok: "waits_ok s" and same: "\<And>t. t < tc s \<Longrightarrow> state (os_tasks s' ! t) = state (os_tasks s ! t)"
  shows "granted r s s' = []"
  unfolding granted_def using waits_okD(4) [OF ok] same by (auto simp: filter_empty_conv task_ok_def)

lemma posts_done:
  assumes inv: "kinv s" and run: "running s c" and v: "kinv v" "task_count v = task_count s"
    "os_tasks v = undonated (Some c) (os_tasks s)" "\<forall>r. waiters v r = waiters s r"
    and x: "queues v = (queues s)(q \<mapsto> written q x msg had)"
      "mem v = (mem s)(q_addr x (q_head x) := msg)" "holder v = holder s"
    and had: "had = (tokens s (Queue_Empty q) \<noteq> 0)"
    and tk: "tokens v = send_takes q s" "max_tokens v = max_tokens s"
    and f: "sems v (Queue_Filled q) = Some f"
  shows "\<exists>p s'. q_run q (S_post had) v = Some (p, s') \<and> kinv s' \<and> send_done q msg x c s p s'"
proof (cases had)
  case False
  have "q_step q (S_post had) v = Some (Q_done OS_SUCCESS None, v)" using False by simp
  from q_run_step [OF this] have "q_run q (S_post had) v = Some (Q_done OS_SUCCESS None, v)" by simp
  moreover have "granted (SemQ (Queue_Filled q)) s v = []"
    using v(3) by (intro granted_none [OF kinvD(1) [OF inv]]) (simp add: undonated_state)
  ultimately show ?thesis
    using v x tk had False by (auto simp: send_done_def send_takes_def send_serves_def)
next
  case True
  let ?F = "Queue_Filled q"
  obtain s' where s': "q_run q (S_post True) v = Some (Q_done OS_SUCCESS None, s')"
    "os_semaphore_release ?F v = Some s'" "kinv s'" "queues s' = queues v" "mem s' = mem v"
    by (rule send_posts [OF v(1) f])
  note views = give_views [OF v(1) f s'(2)]
  note D = waits_okD [OF kinvD(1) [OF inv]]
  have serves: "send_serves q s = next_waiter ?F s" using True had by (simp add: send_serves_def)
  have other: "t \<noteq> c" if "Some t \<in> set (waiters s (SemQ ?F))" for t
    using running_not_waiting [OF kinvD(1) [OF inv] run] that by auto
  have pick: "next_waiter ?F v = next_waiter ?F s"
  proof -
    have "prio v t = prio s t" if "t \<in> set (map the (waiters s (SemQ ?F)))" for t
    proof -
      from that D(7) have "Some t \<in> set (waiters s (SemQ ?F))" by force
      then have "t \<noteq> c" by (rule other)
      then show ?thesis using v(3) by (simp add: prio_def undonated_nth)
    qed
    then have "first_max (prio v) None (map the (waiters s (SemQ ?F))) =
        first_max (prio s) None (map the (waiters s (SemQ ?F)))"
      by (rule first_max_cong)
    then show ?thesis using v(4) by (simp add: next_waiter_def)
  qed
  show ?thesis
  proof (cases "next_waiter ?F s")
    case None
    then have none: "waiters v (SemQ ?F) = []" using v(4) by (simp add: next_waiter_def)
    then have "tokens s' = (if tokens s ?F < max_tokens s ?F
        then (send_takes q s)(?F := tokens s ?F + 1) else send_takes q s)"
      using views(2) tk by (auto simp: given_def send_takes_def)
    moreover have s'': "os_tasks s' = undonated (Some c) (os_tasks s)" "\<forall>r. waiters s' r = waiters s r"
      using sem_release_token(1) [OF v(1) f none] s'(2) v(3,4) by (auto split: if_split_asm)
    moreover have "granted (SemQ ?F) s s' = []"
      using s''(1) by (intro granted_none [OF kinvD(1) [OF inv]]) (simp add: undonated_state)
    ultimately have "send_done q msg x c s (Q_done OS_SUCCESS None) s'"
      using s'(4,5) views x None True had serves by (simp add: send_done_def)
    with s' True show ?thesis by auto
  next
    case (Some n)
    then have nv: "next_waiter ?F v = Some n" using pick by simp
    note picked = picked_waits [OF kinvD(1) [OF inv] Some [unfolded next_waiter_def]]
    obtain g where g: "os_semaphore_release ?F v = Some g"
      "os_tasks g = (os_tasks v)[n := woken (os_tasks v ! n)]"
      "\<forall>r. waiters g r = remove1 (Some n) (waiters v r)"
      by (rule sem_release_handoff [OF v(1) f nv])
    have nc: "n \<noteq> c" using other picked(2) by blast
    have len: "n < length (os_tasks s)" using D(3) [OF picked(1)] .
    have ts: "os_tasks s' = (undonated (Some c) (os_tasks s))[n := woken (os_tasks s ! n)]"
      using g(1,2) s'(2) v(3) nc by (simp add: undonated_nth)
    have "granted (SemQ ?F) s s' = [n]"
    proof (rule granted_one [OF kinvD(1) [OF inv] picked(1)])
      show "wait_queue (os_tasks s ! n) = Some (SemQ ?F)" using D(8) [OF picked(1)] picked(2) by blast
      show "os_tasks s' ! n = woken (os_tasks s ! n)" using ts len by simp
      show "state (os_tasks s' ! t) = state (os_tasks s ! t)" if "t \<noteq> n" for t
        using ts that by (simp add: undonated_state)
    qed
    moreover have "tokens s' = send_takes q s"
    proof -
      have "waiters v (SemQ ?F) \<noteq> []" using nv by (auto simp: next_waiter_def)
      then show ?thesis using views(2) tk(1) by (simp add: given_def)
    qed
    moreover have "\<forall>r. waiters s' r = remove1 (Some n) (waiters s r)"
      using g(1,3) s'(2) v(4) by simp
    ultimately have "send_done q msg x c s (Q_done OS_SUCCESS None) s'"
      using s'(4,5) views x Some True had serves ts by (simp add: send_done_def)
    with s' True show ?thesis by auto
  qed
qed

text \<open>The three cases of the lock, with the slot taken or the poll of it failed.\<close>

lemma slot_same:
  assumes "u = (if tokens s (Queue_Empty q) = 0 then s
      else set_tokens (Queue_Empty q) (tokens s (Queue_Empty q) - 1) s)"
    and e: "sems s (Queue_Empty q) = Some e"
  shows "running u t = running s t" "kernel_running u = kernel_running s" "queues u = queues s"
    "mem u = mem s" "mutexes u = mutexes s" "os_tasks u = os_tasks s" "task_count u = task_count s"
    "waiters u = waiters s" "holder u = holder s" "max_tokens u = max_tokens s"
  using assms(1) tokens_set [OF e] by (simp_all add: fun_eq_iff)

lemma send_lock_free:
  assumes inv: "kinv s" and run: "running s c" and x: "queues s q = Some x" "q_head x < q_capacity x"
    and obj: "mutexes s (Queue_Lock q) = Some l" "sems s (Queue_Empty q) = Some e"
      "sems s (Queue_Filled q) = Some f"
    and now: "tokens s (Queue_Empty q) \<noteq> 0 \<or> timeout = 0" and none: "holder s (Queue_Lock q) = None"
  shows "\<exists>p s'. os_queue_send q msg timeout s = Some (p, s') \<and> kinv s' \<and> send_done q msg x c s p s'"
proof -
  let ?had = "tokens s (Queue_Empty q) \<noteq> 0"
  obtain u where u: "os_queue_send q msg timeout s = q_run q (S_lock msg ?had) u" "kinv u"
    "u = (if tokens s (Queue_Empty q) = 0 then s
      else set_tokens (Queue_Empty q) (tokens s (Queue_Empty q) - 1) s)" "tokens u = send_takes q s"
    by (rule send_takes_slot [OF inv obj(2) now])
  note same = slot_same [OF u(3) obj(2)]
  have free: "lock l = 0"
    using mutex_ok_owner(3) [OF inv obj(1)] obj(1) none by (auto simp: holder_def split: if_splits)
  obtain v where v: "q_run q (S_lock msg ?had) u = q_run q (S_post ?had) v" "kinv v"
    "os_tasks v = undonated (Some c) (os_tasks u)" "task_count v = task_count u"
    "queues v = (queues u)(q \<mapsto> written q x msg ?had)" "mem v = (mem u)(q_addr x (q_head x) := msg)"
    "sems v = sems u" "holder v = holder u" "\<forall>r. waiters v r = waiters u r"
    by (rule send_with_lock [OF u(2) _ _ x(2) _ free]) (use same run x obj(1) in auto)
  have tk: "tokens v = send_takes q s" "max_tokens v = max_tokens s"
    using v(7) u(4) same(10) by (simp_all add: tokens_def max_tokens_def fun_eq_iff)
  have "\<exists>f'. sems v (Queue_Filled q) = Some f'"
    using v(7) u(3) obj(3) by (simp add: set_tokens_sems)
  then obtain f' where "sems v (Queue_Filled q) = Some f'" by blast
  from posts_done [OF inv run v(2) _ _ _ _ _ _ refl tk this, of x msg] v same u(1) show ?thesis by auto
qed

lemma send_lock_held:
  assumes inv: "kinv s" and run: "running s c" and k: "kernel_running s"
    and obj: "mutexes s (Queue_Lock q) = Some l" "sems s (Queue_Empty q) = Some e"
    and now: "tokens s (Queue_Empty q) \<noteq> 0 \<or> timeout = 0"
    and w: "holder s (Queue_Lock q) = Some w" "w \<noteq> c"
  shows "\<exists>p s'. os_queue_send q msg timeout s = Some (p, s') \<and> kinv s' \<and> send_no_lock q msg c w s p s'"
proof -
  let ?had = "tokens s (Queue_Empty q) \<noteq> 0"
  obtain u where u: "os_queue_send q msg timeout s = q_run q (S_lock msg ?had) u" "kinv u"
    "u = (if tokens s (Queue_Empty q) = 0 then s
      else set_tokens (Queue_Empty q) (tokens s (Queue_Empty q) - 1) s)" "tokens u = send_takes q s"
    by (rule send_takes_slot [OF inv obj(2) now])
  note same = slot_same [OF u(3) obj(2)]
  have at: "running u c" "kernel_running u" "mutexes u (Queue_Lock q) = Some l"
    "holder u (Queue_Lock q) = Some w" using same run k obj(1) w(1) by simp_all
  obtain s' where "q_run q (S_lock msg ?had) u = Some (S_lock_wait msg ?had, s')" "kinv s'"
    "ring_same u s'" "tokens s' = tokens u"
    "waiters s' = (waiters u)(MutexQ (Queue_Lock q) := waiters u (MutexQ (Queue_Lock q)) @ [Some c])"
    "os_tasks s' = (donated c w (os_tasks u))[c := parked (MutexQ (Queue_Lock q)) WAIT_FOREVER (os_tasks u ! c)]"
    by (rule lock_held [OF u(2) at w(2), where msg = msg and had = ?had])
  then show ?thesis using same u(1,4) by (auto simp: send_no_lock_def ring_same_def)
qed

lemma send_lock_own:
  assumes inv: "kinv s" and run: "running s c"
    and obj: "mutexes s (Queue_Lock q) = Some l" "sems s (Queue_Empty q) = Some e"
    and now: "tokens s (Queue_Empty q) \<noteq> 0 \<or> timeout = 0" and own: "holder s (Queue_Lock q) = Some c"
  shows "os_queue_send q msg timeout s = Some (Q_done OS_FAIL None, s)"
proof -
  have c: "current_tcb s = Some c" using run by (simp add: running_def)
  obtain u where u: "os_queue_send q msg timeout s = q_run q (S_lock msg (tokens s (Queue_Empty q) \<noteq> 0)) u"
    "kinv u" "u = (if tokens s (Queue_Empty q) = 0 then s
      else set_tokens (Queue_Empty q) (tokens s (Queue_Empty q) - 1) s)"
    by (rule send_takes_slot [OF inv obj(2) now])
  with lock_own [OF inv c obj(1) own obj(2) u(2,3)] show ?thesis by simp
qed

lemma machine_send: "os_queue_send q msg n s = Some (p, s') \<Longrightarrow> machine s' = machine s"
  by (simp add: os_queue_send_def machine_q_run)

end
