(* ===== verification/Queue_Properties.thy ===== *)
theory Queue_Properties
  imports Samples Send_Outcomes
begin

text \<open>
  The properties of the message queue and of the power-on self-test.
\<close>

subsection \<open>A sample queue\<close>

definition with_queue :: kernel where
  "with_queue = os_queue_init 0 0x20000200 2 fresh"

lemma with_queue_ok: "q_ok 0 with_queue" "contents 0 with_queue = []" "q_size 0 with_queue = 2"
  "kernel_running with_queue" "kinv with_queue"
proof -
  show "q_ok 0 with_queue" "contents 0 with_queue = []" "q_size 0 with_queue = 2"
    using q_ok_init [of 2 fresh 0 "0x20000200"] by (auto simp: with_queue_def fresh_def)
  show "kernel_running with_queue" by (simp add: with_queue_def os_queue_init_def fresh_def)
  have "waiters fresh (MutexQ (Queue_Lock 0)) = []" "waiters fresh (SemQ (Queue_Empty 0)) = []"
    "waiters fresh (SemQ (Queue_Filled 0)) = []" by (simp_all add: fresh_def waiters_sample)
  then show "kinv with_queue"
    unfolding with_queue_def by (rule kinv_queue_init [OF kinv_fresh])
qed

lemma one_message:
  obtains s where "q_ok 0 s" "contents 0 s = [7]" "q_size 0 s = 2" "q_frame 0 with_queue s"
  using send_free [OF with_queue_ok(1), of 7 0] with_queue_ok(2,3) by auto

lemma two_messages:
  obtains s where "q_ok 0 s" "contents 0 s = [7, 8]" "q_size 0 s = 2"
proof -
  obtain s where "q_ok 0 s" "contents 0 s = [7]" "q_size 0 s = 2" "q_frame 0 with_queue s"
    by (rule one_message)
  then show ?thesis using send_free [of 0 s 8 0] that by auto
qed

subsection \<open>The queue\<close>

text \<open>C8: The queue is a lossy FIFO. A producer that sends any list of messages without waiting, and a
  consumer that then drains the queue, see exactly the last messages that fit, oldest first, none lost
  but the oldest, none duplicated, none reordered; the next receive finds the queue empty. The kernel
  keeps its invariant throughout.\<close>
theorem queue_streams:
  assumes "q_ok q s" "kinv s"
  shows "\<exists>s1 s2. feed (poll_send q) ms s = Some s1 \<and>
    drain (poll_receive q) (min (q_size q s) (length (contents q s) + length ms)) s1 =
      Some (map Some (last_n (q_size q s) (contents q s @ ms)), s2) \<and>
    contents q s2 = [] \<and> poll_receive q s2 = Some (None, s2) \<and> kinv s2"
proof -
  from os_queue.stream_ok [OF q_from_refl [OF assms(1)], of ms] obtain s1 s2 where r:
    "feed (poll_send q) ms s = Some s1"
    "drain (poll_receive q) (min (q_size q s) (length (contents q s) + length ms)) s1 =
      Some (map Some (last_n (q_size q s) (contents q s @ ms)), s2)"
    "q_from q s s2" "contents q s2 = []" "poll_receive q s2 = Some (None, s2)" by blast
  then have "kinv s2" using kinv_q_frame [OF assms(2) _ assms(1)] assms(2) by (auto simp: q_from_def)
  with r show ?thesis by blast
qed

theorem queue_streams_witness:
  "\<exists>s1 s2. feed (poll_send 0) [1, 2, 3] with_queue = Some s1 \<and>
     drain (poll_receive 0) 2 s1 = Some ([Some 2, Some 3], s2) \<and> contents 0 s2 = []"
  using queue_streams [OF with_queue_ok(1,5), of "[1, 2, 3]"] with_queue_ok(2,3)
  by (auto simp: last_n_def numeral_2_eq_2 simp del: feed.simps drain.simps)

text \<open>Sending to a queue with room appends the message, whatever the timeout; sending to a full
  queue without waiting drops the oldest message and appends the new one. Either way the call reports
  success, the queue stays consistent, and nothing but the queue and the caller's donated priority
  changes.\<close>
theorem queue_send:
  assumes "q_ok q s"
  shows "(length (contents q s) < q_size q s \<longrightarrow>
      (\<exists>s'. os_queue_send q msg timeout s = Some (Q_done OS_SUCCESS None, s') \<and> q_ok q s' \<and>
        contents q s' = contents q s @ [msg] \<and> q_frame q s s')) \<and>
    (length (contents q s) = q_size q s \<longrightarrow> timeout = 0 \<longrightarrow>
      (\<exists>s'. os_queue_send q msg timeout s = Some (Q_done OS_SUCCESS None, s') \<and> q_ok q s' \<and>
        contents q s' = tl (contents q s) @ [msg] \<and> q_frame q s s'))"
  using send_free [OF assms, of msg timeout] send_full [OF assms, of timeout msg] by blast

theorem queue_send_witness:
  "\<exists>s s'. os_queue_send 0 9 0 s = Some (Q_done OS_SUCCESS None, s') \<and> contents 0 s = [7, 8] \<and>
     contents 0 s' = [8, 9]"
proof -
  obtain s where s: "q_ok 0 s" "contents 0 s = [7, 8]" "q_size 0 s = 2" by (rule two_messages)
  with queue_send [OF s(1), of 9 0] show ?thesis by auto
qed

text \<open>Receiving from a queue with messages returns the oldest one and removes it, whatever the
  timeout; receiving from an empty queue without waiting reports a timeout and changes nothing.\<close>
theorem queue_receive:
  assumes "q_ok q s"
  shows "(\<forall>v vs. contents q s = v # vs \<longrightarrow>
      (\<exists>s'. os_queue_receive q timeout s = Some (Q_done OS_SUCCESS (Some v), s') \<and> q_ok q s' \<and>
        contents q s' = vs \<and> q_frame q s s')) \<and>
    (contents q s = [] \<longrightarrow> timeout = 0 \<longrightarrow>
      os_queue_receive q timeout s = Some (Q_done OS_TIMEOUT None, s))"
proof (intro conjI allI impI)
  fix v vs assume c: "contents q s = v # vs"
  then have "contents q s \<noteq> []" by simp
  from receive_some [OF assms this, of timeout] c
  show "\<exists>s'. os_queue_receive q timeout s = Some (Q_done OS_SUCCESS (Some v), s') \<and> q_ok q s' \<and>
      contents q s' = vs \<and> q_frame q s s'" by auto
next
  assume "contents q s = []" "timeout = 0"
  then show "os_queue_receive q timeout s = Some (Q_done OS_TIMEOUT None, s)"
    using receive_empty [OF assms] by simp
qed

theorem queue_receive_witness:
  "\<exists>s s'. os_queue_receive 0 5 s = Some (Q_done OS_SUCCESS (Some 7), s') \<and> contents 0 s' = [8]"
proof -
  obtain s where s: "q_ok 0 s" "contents 0 s = [7, 8]" by (rule two_messages)
  with queue_receive [OF s(1), of 5] show ?thesis by auto
qed



subsection \<open>The self-test\<close>

text \<open>C28: The power-on self-test passes. Run before any task exists, \<^verbatim>\<open>os_run_post\<close>
  returns with every check met, in memory of any content, and keeps the kernel invariant. It leaves the
  machine as it was, tasks, current task, clock, PRIMASK and the pending switch included, but for the
  test's own objects: no mutex changes but the test's and the lock of its queue, no semaphore but the
  test's and the two of its queue, no other queue, and no word of memory but the four of its buffer.\<close>
theorem post_passes:
  assumes "kinv s" "current_tcb s = None" "waiters s (MutexQ m) = []" "waiters s (SemQ a) = []"
    and "waiters s (MutexQ (Queue_Lock q)) = []" "waiters s (SemQ (Queue_Empty q)) = []"
      "waiters s (SemQ (Queue_Filled q)) = []"
  shows "\<exists>s'. os_run_post m a q buf s = Some (Passed, s') \<and> kinv s' \<and>
    s' = s\<lparr>mutexes := mutexes s', sems := sems s', queues := queues s', mem := mem s'\<rparr> \<and>
    (\<forall>m'. m' \<notin> {m, Queue_Lock q} \<longrightarrow> mutexes s' m' = mutexes s m') \<and>
    (\<forall>a'. a' \<notin> {a, Queue_Empty q, Queue_Filled q} \<longrightarrow> sems s' a' = sems s a') \<and>
    (\<forall>q'. q' \<noteq> q \<longrightarrow> queues s' q' = queues s q') \<and>
    (\<forall>b. b \<notin> {buf, buf + 4, buf + 8, buf + 12} \<longrightarrow> mem s' b = mem s b)"
proof -
  obtain s' where s': "os_run_post m a q buf s = Some (Passed, s')" "kinv s'" "os_tasks s' = os_tasks s"
    "pendsv s' = pendsv s"
    by (rule run_post_ok [OF assms, of buf])
  note frame = run_post_frame [OF assms(2) s'(1)]
  from frame have "s' = s\<lparr>mutexes := mutexes s', sems := sems s', queues := queues s', mem := mem s'\<rparr>"
    using s'(3,4) by (intro rest_same) simp_all
  with frame s' show ?thesis by blast
qed

theorem post_passes_witness:
  "\<exists>s'. os_run_post (Mutex_At 1) (Sem_At 1) 1 0x2001FF00
      (os_kernel_init (reset_state (\<lambda>_. 0xA5A5A5A5) 0)) = Some (Passed, s') \<and>
    primask s' = 1 \<and> mem s' 0x2001FF10 = 0xA5A5A5A5"
proof -
  let ?k = "os_kernel_init (reset_state (\<lambda>_. 0xA5A5A5A5) 0)"
  have "waiters ?k r = []" for r
    by (cases r) (simp_all add: waiters_def reset_state_def os_kernel_init_def)
  moreover have "kinv ?k" by (rule kinv_boot)
  ultimately obtain s' where s': "os_run_post (Mutex_At 1) (Sem_At 1) 1 0x2001FF00 ?k = Some (Passed, s')"
    "s' = ?k\<lparr>mutexes := mutexes s', sems := sems s', queues := queues s', mem := mem s'\<rparr>"
    "\<forall>b. b \<notin> {0x2001FF00, 0x2001FF00 + 4, 0x2001FF00 + 8, 0x2001FF00 + 12} \<longrightarrow> mem s' b = mem ?k b"
    using post_passes [of ?k "Mutex_At 1" "Sem_At 1" 1 "0x2001FF00"] by (auto simp: os_kernel_init_def)
  from arg_cong [OF s'(2), of primask] have "primask s' = 1" by (simp add: os_kernel_init_def)
  moreover have "mem s' 0x2001FF10 = 0xA5A5A5A5"
    using s'(3) by (simp add: os_kernel_init_def reset_state_def)
  ultimately show ?thesis using s'(1) by blast
qed

end
