(* ===== verification/Device.thy ===== *)
theory Device
  imports Prelude
begin

text \<open>
  Memory-mapped registers as the drivers use them. A driver is a function on the list of
  accesses made so far; what a register reads as after a given history is up to the
  hardware, which is a parameter. The bit masks that come from the CMSIS headers are a
  parameter too, a record of the constants the drivers name.
\<close>

subsection \<open>Registers\<close>

text \<open>
  The structure members the drivers access; a GPIO port is the base address of its
  register block. \<open>GPIO_AFR p i\<close> is \<^verbatim>\<open>port->AFR[i]\<close>.
\<close>

datatype timer = TIM2 | TIM3

datatype reg =
    RCC_AHB1ENR | RCC_APB1ENR | RCC_APB2ENR
  | GPIO_MODER u32 | GPIO_OTYPER u32 | GPIO_OSPEEDR u32 | GPIO_PUPDR u32 | GPIO_IDR u32
  | GPIO_ODR u32 | GPIO_BSRR u32 | GPIO_AFR u32 u8
  | USART2_SR | USART2_DR | USART2_BRR | USART2_CR1
  | TIM_CR1 timer | TIM_DIER timer | TIM_SR timer | TIM_EGR timer | TIM_CCMR1 timer
  | TIM_CCER timer | TIM_PSC timer | TIM_ARR timer | TIM_CCR1 timer | TIM_CCR2 timer
  | ADC_CCR | ADC1_SR | ADC1_CR1 | ADC1_CR2 | ADC1_SMPR1 | ADC1_SMPR2 | ADC1_SQR1
  | ADC1_SQR3 | ADC1_DR
  | I2C1_CR1 | I2C1_CR2 | I2C1_DR | I2C1_SR1 | I2C1_SR2 | I2C1_CCR | I2C1_TRISE
  | SPI1_CR1 | SPI1_SR | SPI1_DR
  | COREDEBUG_DEMCR | DWT_CYCCNT | DWT_CTRL

text \<open>An access, a history and a hardware.\<close>

datatype access = Rd reg | Wr reg u32 | Nvic_priority u32 u32 | Nvic_enable u32 | Pause u32 | Wfi

type_synonym history = "access list"
type_synonym hardware = "history \<Rightarrow> reg \<Rightarrow> u32"

definition load :: "hardware \<Rightarrow> reg \<Rightarrow> history \<Rightarrow> u32 \<times> history" where
  "load hw r h = (hw h r, h @ [Rd r])"

definition store :: "reg \<Rightarrow> u32 \<Rightarrow> history \<Rightarrow> history" where
  "store r v h = h @ [Wr r v]"

text \<open>\<^verbatim>\<open>REG |= m\<close>, \<^verbatim>\<open>REG &= ~m\<close> and \<^verbatim>\<open>REG ^= m\<close>: a load and a store.\<close>

definition modify :: "hardware \<Rightarrow> reg \<Rightarrow> (u32 \<Rightarrow> u32) \<Rightarrow> history \<Rightarrow> history" where
  "modify hw r f h = (case load hw r h of (v, h1) \<Rightarrow> store r (f v) h1)"

abbreviation set_bits :: "hardware \<Rightarrow> reg \<Rightarrow> u32 \<Rightarrow> history \<Rightarrow> history" where
  "set_bits hw r m \<equiv> modify hw r (\<lambda>v. v OR m)"

abbreviation clear_bits :: "hardware \<Rightarrow> reg \<Rightarrow> u32 \<Rightarrow> history \<Rightarrow> history" where
  "clear_bits hw r m \<equiv> modify hw r (\<lambda>v. v AND NOT m)"

text \<open>\<^verbatim>\<open>while (!(REG & bits)) { }\<close>, which spins as long as the hardware lets it.\<close>

partial_function (option) await :: "hardware \<Rightarrow> reg \<Rightarrow> u32 \<Rightarrow> history \<Rightarrow> history option" where
  "await hw r bits h =
     (case load hw r h of (v, h1) \<Rightarrow> if v AND bits \<noteq> 0 then Some h1 else await hw r bits h1)"

subsection \<open>CMSIS\<close>

record cmsis =
  GPIOA_BASE :: u32
  GPIOA :: u32
  GPIOB :: u32
  RCC_APB1ENR_TIM2EN :: u32
  RCC_APB1ENR_TIM3EN :: u32
  RCC_APB1ENR_I2C1EN :: u32
  RCC_APB2ENR_ADC1EN :: u32
  RCC_APB2ENR_SPI1EN :: u32
  TIM_CCMR1_OC1M :: u32
  TIM_CCMR1_OC1M_1 :: u32
  TIM_CCMR1_OC1M_2 :: u32
  TIM_CCMR1_OC1PE :: u32
  TIM_CCMR1_CC2S :: u32
  TIM_CCMR1_CC2S_0 :: u32
  TIM_CR1_ARPE :: u32
  TIM_CR1_CEN :: u32
  TIM_CCER_CC1E :: u32
  TIM_CCER_CC2E :: u32
  TIM_CCER_CC2P :: u32
  TIM_CCER_CC2NP :: u32
  TIM_EGR_UG :: u32
  TIM_DIER_CC2IE :: u32
  TIM_SR_CC2IF :: u32
  TIM2_IRQn :: u32
  ADC_CR2_ADON :: u32
  ADC_CR2_SWSTART :: u32
  ADC_SR_EOC :: u32
  I2C_CR1_SWRST :: u32
  I2C_CR1_PE :: u32
  I2C_CR1_START :: u32
  I2C_CR1_STOP :: u32
  I2C_CR1_ACK :: u32
  I2C_SR1_SB :: u32
  I2C_SR1_ADDR :: u32
  I2C_SR1_TXE :: u32
  I2C_SR1_RXNE :: u32
  I2C_SR1_BTF :: u32
  I2C_SR2_BUSY :: u32
  SPI_CR1_BR_Pos :: nat
  SPI_CR1_CPHA :: u32
  SPI_CR1_CPOL :: u32
  SPI_CR1_MSTR :: u32
  SPI_CR1_SSM :: u32
  SPI_CR1_SSI :: u32
  SPI_CR1_SPE :: u32
  SPI_SR_TXE :: u32
  SPI_SR_RXNE :: u32
  CoreDebug_DEMCR_TRCENA_Msk :: u32
  DWT_CTRL_CYCCNTENA_Msk :: u32

subsection \<open>What a history did\<close>

text \<open>The stores to a register, in order.\<close>

fun writes :: "reg \<Rightarrow> history \<Rightarrow> u32 list" where
  "writes r [] = []"
| "writes r (Wr r' v # h) = (if r' = r then v # writes r h else writes r h)"
| "writes r (_ # h) = writes r h"

lemma writes_append [simp]: "writes r (h @ h') = writes r h @ writes r h'"
  by (induction r h rule: writes.induct) simp_all

lemma writes_load [simp]: "load hw r h = (v, h') \<Longrightarrow> writes r' h' = writes r' h"
  by (auto simp: load_def)

lemma writes_store [simp]: "writes r' (store r v h) = (if r' = r then writes r' h @ [v] else writes r' h)"
  by (simp add: store_def)

lemma writes_modify [simp]:
  "writes r' (modify hw r f h) = (if r' = r then writes r' h @ [f (hw h r)] else writes r' h)"
  by (simp add: modify_def load_def)

text \<open>The values read from a register, in order.\<close>

definition reads :: "hardware \<Rightarrow> reg \<Rightarrow> history \<Rightarrow> u32 list" where
  "reads hw r h = map (\<lambda>i. hw (take i h) r) (filter (\<lambda>i. h ! i = Rd r) [0..<length h])"

lemma reads_snoc [simp]:
  "reads hw r (h @ [a]) = reads hw r h @ (if a = Rd r then [hw h r] else [])"
proof -
  have "filter (\<lambda>i. (h @ [a]) ! i = Rd r) [0..<length h] = filter (\<lambda>i. h ! i = Rd r) [0..<length h]"
    by (rule filter_cong) (simp_all add: nth_append)
  then show ?thesis by (simp add: reads_def)
qed

lemma reads_store [simp]: "reads hw r (store r' v h) = reads hw r h"
  by (simp add: store_def)

lemma reads_modify [simp]:
  "reads hw r (modify hw r' f h) = reads hw r h @ (if r' = r then [hw h r] else [])"
  by (simp add: modify_def load_def)

text \<open>
  What a history did apart from polling: everything but the reads of registers other than
  \<open>r\<close>, in order.
\<close>

definition seen :: "reg \<Rightarrow> history \<Rightarrow> access list" where
  "seen r h = filter (\<lambda>a. a = Rd r \<or> (\<forall>r'. a \<noteq> Rd r')) h"

lemma seen_simps [simp]:
  "seen r [] = []" "seen r (h @ h') = seen r h @ seen r h'"
  "seen r (a # h) = (if a = Rd r \<or> (\<forall>r'. a \<noteq> Rd r') then a # seen r h else seen r h)"
  by (simp_all add: seen_def)

lemma seen_store [simp]: "seen r (store r' v h) = seen r h @ [Wr r' v]"
  by (simp add: store_def)

lemma seen_modify [simp]: "r' \<noteq> r \<Longrightarrow> seen r (modify hw r' f h) = seen r h @ [Wr r' (f (hw h r'))]"
  by (simp add: modify_def load_def)

lemma length_store [simp]: "length (store r v h) = Suc (length h)"
  by (simp add: store_def)

lemma length_modify [simp]: "length (modify hw r f h) = Suc (Suc (length h))"
  by (simp add: modify_def load_def)

text \<open>
  The hypothesis that a register is plain storage for a driver: it reads as what was last
  written to it, or as its reset value.
\<close>

definition held :: "u32 \<Rightarrow> reg \<Rightarrow> history \<Rightarrow> u32" where
  "held v r h = (if writes r h = [] then v else last (writes r h))"

definition plain :: "hardware \<Rightarrow> reg \<Rightarrow> bool" where
  "plain hw r \<longleftrightarrow> (\<exists>v. \<forall>h. hw h r = held v r h)"

lemma plain_read: "plain hw r \<Longrightarrow> hw (h @ [Rd r']) r = hw h r"
  by (auto simp: plain_def held_def)

lemma plain_store [simp]: "plain hw r \<Longrightarrow> hw (store r' v h) r = (if r' = r then v else hw h r)"
  by (auto simp: plain_def held_def)

lemma plain_modify [simp]:
  "plain hw r \<Longrightarrow> hw (modify hw r' f h) r = (if r' = r then f (hw h r) else hw h r)"
  by (auto simp: modify_def load_def plain_read)

lemma plain_other: "plain hw r \<Longrightarrow> hw (h @ [Nvic_priority n p]) r = hw h r"
    "plain hw r \<Longrightarrow> hw (h @ [Nvic_enable n]) r = hw h r" "plain hw r \<Longrightarrow> hw (h @ [Pause k]) r = hw h r"
  by (auto simp: plain_def held_def)

lemma plain_same: "plain hw r \<Longrightarrow> writes r h' = writes r h \<Longrightarrow> hw h' r = hw h r"
  by (auto simp: plain_def held_def)

text \<open>A hardware of plain registers only.\<close>

definition memory_like :: "(reg \<Rightarrow> u32) \<Rightarrow> hardware" where
  "memory_like v h r = held (v r) r h"

lemma plain_memory_like [simp]: "plain (memory_like v) r"
  by (auto simp: plain_def memory_like_def held_def)

subsection \<open>Spinning\<close>

text \<open>
  \<open>n\<close> further reads find the flag clear. If the flag is set after them, the loop ends, and
  it has done nothing but read.
\<close>

lemma await_ends:
  assumes "hw (h @ replicate n (Rd r)) r AND bits \<noteq> 0"
  shows "\<exists>k\<le>n. await hw r bits h = Some (h @ replicate (Suc k) (Rd r))"
  using assms
proof (induction n arbitrary: h)
  case 0
  then show ?case by (subst await.simps) (simp add: load_def)
next
  case (Suc n)
  show ?case
  proof (cases "hw h r AND bits \<noteq> 0")
    case True
    then show ?thesis by (subst await.simps) (auto simp: load_def)
  next
    case False
    have "h @ replicate (Suc n) (Rd r) = (h @ [Rd r]) @ replicate n (Rd r)" by simp
    with Suc.prems have "hw ((h @ [Rd r]) @ replicate n (Rd r)) r AND bits \<noteq> 0" by metis
    from Suc.IH [OF this] obtain k where "k \<le> n"
      "await hw r bits (h @ [Rd r]) = Some ((h @ [Rd r]) @ replicate (Suc k) (Rd r))" by blast
    with False show ?thesis
      by (intro exI [of _ "Suc k"]) (subst await.simps, simp add: load_def)
  qed
qed

lemma await_writes: "await hw r bits h = Some h' \<Longrightarrow> writes r' h' = writes r' h"
  by (erule await.raw_induct [where P = "\<lambda>hw r bits h h'. writes r' h' = writes r' h", rotated])
    (fastforce simp: load_def split: if_splits)

lemma writes_replicate_Rd [simp]: "writes r (replicate n (Rd r')) = []"
  by (induction n) simp_all

text \<open>Hardware that sets a flag sooner or later, whatever was done before.\<close>

definition responsive :: "hardware \<Rightarrow> reg \<Rightarrow> u32 \<Rightarrow> bool" where
  "responsive hw r bits \<longleftrightarrow> (\<forall>h. \<exists>n. hw (h @ replicate n (Rd r)) r AND bits \<noteq> 0)"

lemma reads_replicate_Rd: "r \<noteq> r' \<Longrightarrow> reads hw r (h @ replicate n (Rd r')) = reads hw r h"
proof (induction n)
  case (Suc n)
  have "h @ replicate (Suc n) (Rd r') = (h @ replicate n (Rd r')) @ [Rd r']"
    by (simp add: replicate_append_same)
  then have "reads hw r (h @ replicate (Suc n) (Rd r')) = reads hw r ((h @ replicate n (Rd r')) @ [Rd r'])"
    by (rule arg_cong)
  with Suc show ?case unfolding reads_snoc by simp
qed simp

lemma await_responsive:
  assumes "responsive hw r bits"
  obtains h' where "await hw r bits h = Some h'" "\<forall>r'. writes r' h' = writes r' h"
    "\<forall>r'. r' \<noteq> r \<longrightarrow> reads hw r' h' = reads hw r' h"
proof -
  obtain n where "hw (h @ replicate n (Rd r)) r AND bits \<noteq> 0"
    using assms by (auto simp: responsive_def)
  then obtain k where "await hw r bits h = Some (h @ replicate (Suc k) (Rd r))"
    using await_ends [of hw h n r bits] by blast
  then show ?thesis by (rule that) (simp_all add: reads_replicate_Rd del: replicate_Suc)
qed

lemma responsive_memory_like: "v r AND bits \<noteq> 0 \<Longrightarrow> r \<noteq> r' \<Longrightarrow> responsive (\<lambda>h q. if q = r then v r else memory_like v h q) r bits"
  by (simp add: responsive_def)

subsection \<open>Bit fields\<close>

text \<open>
  \<^verbatim>\<open>v << n\<close> on 32 bits, which is undefined for a count of 32 or more, and the \<open>i\<close>-th
  field of \<open>w\<close> bits of a register value.
\<close>

definition shl :: "u32 \<Rightarrow> nat \<Rightarrow> u32 option" where
  "shl v n = (if n < 32 then Some (push_bit n v) else None)"

definition field :: "nat \<Rightarrow> nat \<Rightarrow> u32 \<Rightarrow> u32" where
  "field w i v = take_bit w (drop_bit (w * i) v)"

definition put_field :: "nat \<Rightarrow> nat \<Rightarrow> u32 \<Rightarrow> u32 \<Rightarrow> u32" where
  "put_field w i x v = (v AND NOT (push_bit (w * i) (mask w))) OR push_bit (w * i) x"

lemma shl_in [simp]: "n < 32 \<Longrightarrow> shl v n = Some (push_bit n v)"
  by (simp add: shl_def)

lemma bit_put_field:
  "bit (put_field w i x v) n \<longleftrightarrow>
     n < 32 \<and> (if w * i \<le> n \<and> n < w * i + w then bit x (n - w * i)
               else bit v n \<or> w * i \<le> n \<and> bit x (n - w * i))"
  by (auto simp: put_field_def bit_simps)

lemma high_bits_clear: "take_bit w x = x \<Longrightarrow> w \<le> n \<Longrightarrow> \<not> bit x n" for x :: u32
  by (metis bit_take_bit_iff not_less)

lemma field_slots_apart:
  fixes w :: nat
  assumes "i \<noteq> j" "k < w"
  shows "\<not> (w * i \<le> w * j + k \<and> w * j + k < w * i + w)"
proof
  assume "w * i \<le> w * j + k \<and> w * j + k < w * i + w"
  then have "(w * j + k) div w = i" by (intro div_nat_eqI) (simp_all add: algebra_simps)
  with assms show False by simp
qed

lemma field_put_field:
  assumes x: "take_bit w x = x" and i: "w * i + w \<le> 32"
  shows "field w j (put_field w i x v) = (if j = i then x else field w j v)"
proof (rule bit_eqI)
  fix k
  show "bit (field w j (put_field w i x v)) k \<longleftrightarrow> bit (if j = i then x else field w j v) k"
  proof (cases "k < w")
    case True
    have "\<not> bit x (w * j + k - w * i)" if "j \<noteq> i" "w * i \<le> w * j + k"
      using field_slots_apart [of i j k w] that True high_bits_clear [OF x, of "w * j + k - w * i"]
      by fastforce
    then show ?thesis
      using True i field_slots_apart [of i j k w] bit_imp_le_length [of v "w * j + k"]
      by (auto simp: field_def bit_take_bit_iff bit_drop_bit_eq bit_put_field)
  next
    case False
    with high_bits_clear [OF x] show ?thesis by (simp add: field_def bit_take_bit_iff)
  qed
qed

lemma put_fieldI:
  "(v AND NOT (push_bit n (mask w))) OR push_bit n x = put_field w i x v" if "n = w * i"
  using that by (simp add: put_field_def)

end
