(* ===== verification/Uart.thy ===== *)
theory Uart
  imports Device
begin

text \<open>
  The UART driver, \<^verbatim>\<open>Drivers/Src/uart.c\<close>: initialisation, polled transmission of a
  character, printing of strings and of decimal numbers. A C string is a character list; its
  end, or a NUL character in it, is where the C code stops.
\<close>

subsection \<open>The model\<close>

definition GPIOAEN :: u32 where "GPIOAEN = push_bit 0 1"
definition UART2EN :: u32 where "UART2EN = push_bit 17 1"
definition DBG_UART_BAUDRATE :: u32 where "DBG_UART_BAUDRATE = 115200"
definition APB1_CLK :: u32 where "APB1_CLK = 16000000"
definition CR1_TE :: u32 where "CR1_TE = push_bit 3 1"
definition CR1_UE :: u32 where "CR1_UE = push_bit 13 1"
definition SR_TXE :: u32 where "SR_TXE = push_bit 7 1"

definition uart_write :: "hardware \<Rightarrow> u32 \<Rightarrow> history \<Rightarrow> history option" where
  "uart_write hw ch h = do {
     h1 \<leftarrow> await hw USART2_SR SR_TXE h;
     Some (store USART2_DR (ch AND 0xFF) h1) }"

definition io_putchar :: "hardware \<Rightarrow> u32 \<Rightarrow> history \<Rightarrow> (u32 \<times> history) option" where
  "io_putchar hw ch h = do {
     let (v, h1) = load hw USART2_CR1 h;
     if v AND CR1_UE = 0 then Some (- 1, h1)
     else do {
       h2 \<leftarrow> uart_write hw ch h1;
       Some (ch, h2) } }"

definition compute_uart_baud :: "u32 \<Rightarrow> u32 \<Rightarrow> u16 option" where
  "compute_uart_baud periph_clk baud_rate =
     (if baud_rate = 0 then None else Some (ucast ((periph_clk + baud_rate div 2) div baud_rate)))"

definition uart_set_baud_rate :: "u32 \<Rightarrow> u32 \<Rightarrow> history \<Rightarrow> history option" where
  "uart_set_baud_rate periph_clk baud_rate h = do {
     b \<leftarrow> compute_uart_baud periph_clk baud_rate;
     Some (store USART2_BRR (ucast b) h) }"

definition uart_init :: "cmsis \<Rightarrow> hardware \<Rightarrow> history \<Rightarrow> history option" where
  "uart_init c hw h = do {
     let h = set_bits hw RCC_AHB1ENR GPIOAEN h;
     let h = clear_bits hw (GPIO_MODER (GPIOA c)) (push_bit 4 1) h;
     let h = set_bits hw (GPIO_MODER (GPIOA c)) (push_bit 5 1) h;
     let h = set_bits hw (GPIO_AFR (GPIOA c) 0) (push_bit 8 1) h;
     let h = set_bits hw (GPIO_AFR (GPIOA c) 0) (push_bit 9 1) h;
     let h = set_bits hw (GPIO_AFR (GPIOA c) 0) (push_bit 10 1) h;
     let h = clear_bits hw (GPIO_AFR (GPIOA c) 0) (push_bit 11 1) h;
     let h = set_bits hw RCC_APB1ENR UART2EN h;
     h \<leftarrow> uart_set_baud_rate APB1_CLK DBG_UART_BAUDRATE h;
     let h = set_bits hw USART2_CR1 CR1_UE h;
     Some (set_bits hw USART2_CR1 CR1_TE h) }"

definition char_code :: "char \<Rightarrow> u32" where
  "char_code ch = of_nat (of_char ch)"

fun uart_print :: "hardware \<Rightarrow> string \<Rightarrow> history \<Rightarrow> history option" where
  "uart_print hw [] h = Some h"
| "uart_print hw (ch # str) h =
     (if ch = CHR 0x00 then Some h
      else do { (_, h1) \<leftarrow> io_putchar hw (char_code ch) h; uart_print hw str h1 })"

text \<open>
  The two loops of \<^verbatim>\<open>uart_print_number\<close>. The buffer starts with indeterminate entries; a
  write outside it and a read of an indeterminate entry are undefined.
\<close>

function number_digits :: "u32 \<Rightarrow> nat \<Rightarrow> u8 option list \<Rightarrow> (nat \<times> u8 option list) option" where
  "number_digits num i buffer =
     (if num > 0 then do {
        buffer1 \<leftarrow> wr buffer i (Some (ucast (48 + num mod 10)));
        number_digits (num div 10) (i + 1) buffer1 }
      else Some (i, buffer))"
  by pat_completeness auto

lemma unat_div10: "unat (num div 10) = unat num div 10" for num :: u32
  by (simp add: unat_div)

termination number_digits
proof (relation "measure (\<lambda>(num, _). unat num)")
  fix num :: u32 and i :: nat and buffer buffer1 :: "u8 option list"
  assume "num > 0"
  then have "unat num > 0" by (simp add: word_less_nat_alt)
  then have "unat num div 10 < unat num" by simp
  then show "((num div 10, i + 1, buffer1), num, i, buffer) \<in> measure (\<lambda>(num, _). unat num)"
    by (simp add: unat_div10)
qed simp

declare number_digits.simps [simp del]

fun number_print :: "hardware \<Rightarrow> u8 option list \<Rightarrow> nat \<Rightarrow> history \<Rightarrow> history option" where
  "number_print hw buffer 0 h = Some h"
| "number_print hw buffer (Suc i) h = do {
     entry \<leftarrow> rd buffer i;
     ch \<leftarrow> entry;
     (_, h1) \<leftarrow> io_putchar hw (ucast ch) h;
     number_print hw buffer i h1 }"

definition uart_print_number :: "hardware \<Rightarrow> u32 \<Rightarrow> history \<Rightarrow> history option" where
  "uart_print_number hw num h =
     (if num = 0 then uart_print hw ''0'' h
      else do {
        (i, buffer) \<leftarrow> number_digits num 0 (replicate 10 None);
        number_print hw buffer i h })"

subsection \<open>Transmitting\<close>

text \<open>
  The UART is on: its enable bit is set in a plain control register, and the transmit
  register becomes empty sooner or later.
\<close>

definition uart_ready :: "hardware \<Rightarrow> history \<Rightarrow> bool" where
  "uart_ready hw h \<longleftrightarrow> plain hw USART2_CR1 \<and> responsive hw USART2_SR SR_TXE \<and> hw h USART2_CR1 AND CR1_UE \<noteq> 0"

text \<open>\<open>sends bs h h'\<close>: from \<open>h\<close> to \<open>h'\<close> the bytes \<open>bs\<close> are transmitted and nothing else is written.\<close>

definition sends :: "u32 list \<Rightarrow> history \<Rightarrow> history \<Rightarrow> bool" where
  "sends bs h h' \<longleftrightarrow> writes USART2_DR h' = writes USART2_DR h @ bs \<and>
     (\<forall>r. r \<noteq> USART2_DR \<longrightarrow> writes r h' = writes r h)"

lemma sends_Nil [simp]: "sends [] h h"
  by (simp add: sends_def)

lemma sends_trans [trans]: "sends bs h h1 \<Longrightarrow> sends cs h1 h2 \<Longrightarrow> sends (bs @ cs) h h2"
  by (simp add: sends_def)

lemma sends_ready: "uart_ready hw h \<Longrightarrow> sends bs h h' \<Longrightarrow> uart_ready hw h'"
  using plain_same [of hw USART2_CR1 h' h] by (simp add: uart_ready_def sends_def)

lemma uart_ready_quiet:
  "uart_ready hw h \<Longrightarrow> writes USART2_CR1 h' = writes USART2_CR1 h \<Longrightarrow> uart_ready hw h'"
  using plain_same [of hw USART2_CR1 h' h] by (simp add: uart_ready_def)

lemma io_putchar_sends:
  assumes "uart_ready hw h"
  obtains h' where "io_putchar hw ch h = Some (ch, h')" "sends [ch AND 0xFF] h h'"
proof -
  from assms have resp: "responsive hw USART2_SR SR_TXE" and on: "hw h USART2_CR1 AND CR1_UE \<noteq> 0"
    by (simp_all add: uart_ready_def)
  obtain h1 where h1: "await hw USART2_SR SR_TXE (h @ [Rd USART2_CR1]) = Some h1"
    "\<forall>r. writes r h1 = writes r (h @ [Rd USART2_CR1])"
    "\<forall>r. r \<noteq> USART2_SR \<longrightarrow> reads hw r h1 = reads hw r (h @ [Rd USART2_CR1])" by (rule await_responsive [OF resp, of "h @ [Rd USART2_CR1]"])
  show ?thesis
    by (rule that [of "store USART2_DR (ch AND 0xFF) h1"])
      (use h1 on in \<open>simp_all add: io_putchar_def uart_write_def load_def sends_def\<close>)
qed

lemma io_putchar_off:
  "hw h USART2_CR1 AND CR1_UE = 0 \<Longrightarrow> io_putchar hw ch h = Some (- 1, h @ [Rd USART2_CR1])"
  by (simp add: io_putchar_def load_def)

lemma of_char_less: "of_char ch < (256 :: nat)"
  by (metis mod_less_divisor of_char_mod_256 zero_less_numeral)

lemma char_code_byte [simp]: "char_code ch AND 0xFF = char_code ch"
proof -
  have "(0xFF :: u32) = mask 8" by (simp add: mask_eq_exp_minus_1)
  moreover have "unat (char_code ch) = of_char ch"
    by (simp add: char_code_def unat_of_nat less_trans [OF of_char_less])
  then have "take_bit 8 (char_code ch) = char_code ch"
    by (simp add: word_unat_eq_iff unsigned_take_bit_eq take_bit_nat_eq_self of_char_less)
  ultimately show ?thesis by (simp add: take_bit_eq_mask)
qed

lemma uart_print_sends:
  assumes "uart_ready hw h"
  obtains h' where "uart_print hw str h = Some h'"
    "sends (map char_code (takeWhile (\<lambda>c. c \<noteq> CHR 0x00) str)) h h'"
  using assms
proof (induction str arbitrary: h thesis)
  case (Cons ch str)
  show ?case
  proof (cases "ch = CHR 0x00")
    case False
    obtain h1 where h1: "io_putchar hw (char_code ch) h = Some (char_code ch, h1)" "sends [char_code ch] h h1"
      using io_putchar_sends [OF Cons.prems(2), of "char_code ch"] by (metis char_code_byte)
    obtain h' where h': "uart_print hw str h1 = Some h'"
      "sends (map char_code (takeWhile (\<lambda>c. c \<noteq> CHR 0x00) str)) h1 h'"
      by (rule Cons.IH [OF _ sends_ready [OF Cons.prems(2) h1(2)]])
    show ?thesis
      by (rule Cons.prems(1) [of h']) (use False h1 h' sends_trans [OF h1(2) h'(2)] in simp_all)
  qed (use Cons.prems in simp)
qed simp

text \<open>Printing writes no register but the data register, whether or not the UART is on.\<close>

lemma io_putchar_writes: "io_putchar hw ch h = Some (x, h') \<Longrightarrow> r \<noteq> USART2_DR \<Longrightarrow> writes r h' = writes r h"
  by (auto simp: io_putchar_def uart_write_def load_def Option.bind_eq_Some_conv split: if_splits
      dest!: await_writes [where r' = r])

lemma uart_print_writes: "uart_print hw str h = Some h' \<Longrightarrow> r \<noteq> USART2_DR \<Longrightarrow> writes r h' = writes r h"
proof (induction str arbitrary: h)
  case (Cons ch str)
  then show ?case
    by (fastforce simp: Option.bind_eq_Some_conv split: if_splits dest: io_putchar_writes)
qed simp

subsection \<open>Decimal numbers\<close>

fun decimal :: "nat \<Rightarrow> nat list" where
  "decimal n = (if n = 0 then [] else decimal (n div 10) @ [n mod 10])"

declare decimal.simps [simp del]

lemma decimal_0 [simp]: "decimal 0 = []"
  by (subst decimal.simps) simp

lemma decimal_pos: "n \<noteq> 0 \<Longrightarrow> decimal n = decimal (n div 10) @ [n mod 10]"
  by (subst decimal.simps) simp

definition digit :: "nat \<Rightarrow> u8" where
  "digit d = 48 + of_nat d"

definition parse_decimal :: "u32 list \<Rightarrow> nat" where
  "parse_decimal = foldl (\<lambda>a b. 10 * a + (unat b - 48)) 0"

lemma decimal_digits: "d \<in> set (decimal n) \<Longrightarrow> d < 10"
  by (induction n rule: decimal.induct) (subst (asm) (2) decimal.simps, auto split: if_splits)

lemma decimal_length: "n < 10 ^ k \<Longrightarrow> length (decimal n) \<le> k"
proof (induction k arbitrary: n)
  case (Suc k)
  then have "length (decimal (n div 10)) \<le> k" by (intro Suc.IH) simp
  then show ?case by (cases "n = 0") (simp_all add: decimal_pos)
qed simp

lemma decimal_head: "0 < n \<Longrightarrow> decimal n \<noteq> [] \<and> hd (decimal n) \<noteq> 0"
proof (induction n rule: decimal.induct)
  case (1 n)
  then show ?case by (cases "n div 10 = 0") (simp_all add: decimal_pos [of n] div_eq_0_iff)
qed

lemma digit_value: "d < 10 \<Longrightarrow> unat (ucast (digit d) :: u32) = 48 + d"
  by (simp add: digit_def unsigned_ucast_eq unat_word_ariths unat_of_nat take_bit_nat_eq_self)

lemma parse_decimal_decimal:
  "parse_decimal (map (\<lambda>d. ucast (digit d)) (decimal n)) = n"
proof (induction n rule: decimal.induct)
  case (1 n)
  have "unat (ucast (digit (n mod 10)) :: u32) = 48 + n mod 10" by (simp add: digit_value)
  with 1 show ?case by (cases "n = 0") (simp_all add: decimal_pos parse_decimal_def)
qed

text \<open>The first loop leaves the digits in the buffer, the least significant first.\<close>

lemma number_digits_eq:
  "i + length (decimal (unat num)) \<le> length buffer \<Longrightarrow>
   number_digits num i buffer =
     Some (i + length (decimal (unat num)),
           take i buffer @ map (\<lambda>d. Some (digit d)) (rev (decimal (unat num))) @
           drop (i + length (decimal (unat num))) buffer)"
proof (induction num i buffer rule: number_digits.induct)
  case (1 num i buffer)
  show ?case
  proof (cases "num = 0")
    case False
    then have pos: "0 < num" and n: "unat num \<noteq> 0" by (simp_all add: word_greater_zero_iff unat_eq_zero)
    let ?b = "buffer[i := Some (ucast (48 + num mod 10) :: u8)]"
    have dec: "decimal (unat num) = decimal (unat (num div 10)) @ [unat num mod 10]"
      using n by (simp add: decimal_pos unat_div10)
    with "1.prems" have i: "i < length buffer" by simp
    have entry: "ucast (48 + num mod 10) = digit (unat num mod 10)"
      by (simp add: digit_def word_unat_eq_iff unsigned_ucast_eq unat_word_ariths unat_of_nat unat_mod
          take_bit_nat_eq_self)
    have "number_digits (num div 10) (i + 1) ?b = Some (i + 1 + length (decimal (unat (num div 10))),
        take (i + 1) ?b @ map (\<lambda>d. Some (digit d)) (rev (decimal (unat (num div 10)))) @
        drop (i + 1 + length (decimal (unat (num div 10)))) ?b)"
      using "1.IH" [OF pos, of ?b] "1.prems" i dec by simp
    then show ?thesis
      using pos i by (subst number_digits.simps) (simp add: dec entry take_Suc_update)
  qed (subst number_digits.simps, simp)
qed

lemma number_print_sends:
  assumes "uart_ready hw h" "i \<le> length buffer"
  and "take i buffer = map Some bs"
  obtains h' where "number_print hw buffer i h = Some h'" "sends (map ucast (rev bs)) h h'"
  using assms
proof (induction i arbitrary: h bs thesis)
  case 0
  then show ?case by simp
next
  case (Suc i)
  obtain cs b where bs: "bs = cs @ [b]"
    using Suc.prems(3,4) by (cases bs rule: rev_cases) auto
  have b: "rd buffer i = Some (Some b)" and cs: "take i buffer = map Some cs"
    using Suc.prems(3,4) by (auto simp: bs take_Suc_conv_app_nth)
  have byte: "ucast b AND 0xFF = (ucast b :: u32)"
  proof -
    have "(0xFF :: u32) = mask 8" by (simp add: mask_eq_exp_minus_1)
    moreover have "take_bit 8 (ucast b :: u32) = ucast b"
      by (simp add: word_unat_eq_iff unsigned_take_bit_eq unsigned_ucast_eq take_bit_nat_eq_self less_trans [OF unat_u8_less])
    ultimately show ?thesis by (simp add: take_bit_eq_mask)
  qed
  obtain h1 where h1: "io_putchar hw (ucast b) h = Some (ucast b, h1)" "sends [ucast b] h h1"
    using io_putchar_sends [OF Suc.prems(2), of "ucast b"] byte by metis
  obtain h' where h': "number_print hw buffer i h1 = Some h'" "sends (map ucast (rev cs)) h1 h'"
    using Suc.IH [OF _ sends_ready [OF Suc.prems(2) h1(2)] _ cs] Suc.prems(3) by (metis Suc_leD)
  show ?case
    by (rule Suc.prems(1) [of h']) (use b h1 h' sends_trans [OF h1(2) h'(2)] in \<open>simp_all add: bs\<close>)
qed

lemma uart_print_number_sends:
  assumes "uart_ready hw h"
  obtains h' where "uart_print_number hw num h = Some h'"
    "sends (map (\<lambda>d. ucast (digit d)) (if num = 0 then [0] else decimal (unat num))) h h'"
proof (cases "num = 0")
  case True
  obtain h' where "uart_print hw ''0'' h = Some h'" "sends (map char_code ''0'') h h'"
    using uart_print_sends [OF assms, of "''0''"] by auto
  with that True show ?thesis by (simp add: uart_print_number_def char_code_def digit_def)
next
  case False
  let ?ds = "decimal (unat num)"
  have "unat num < 10 ^ 10" using unat_u32_less [of num] by simp
  then have len: "length ?ds \<le> 10" by (rule decimal_length)
  define B where "B = map (\<lambda>d. Some (digit d)) (rev ?ds) @ drop (length ?ds) (replicate 10 None)"
  from len have num: "number_digits num 0 (replicate 10 None) = Some (length ?ds, B)"
    by (simp add: number_digits_eq B_def)
  have fits: "length ?ds \<le> length B" and filled: "take (length ?ds) B = map Some (map digit (rev ?ds))"
    by (simp_all add: B_def)
  obtain h' where "number_print hw B (length ?ds) h = Some h'"
    "sends (map ucast (rev (map digit (rev ?ds)))) h h'"
    by (rule number_print_sends [OF assms fits filled])
  then show ?thesis
    using that num False by (simp add: uart_print_number_def rev_map o_def)
qed

text \<open>The bytes sent for a number.\<close>

definition number_bytes :: "u32 \<Rightarrow> u32 list" where
  "number_bytes num = map (\<lambda>d. ucast (digit d)) (if num = 0 then [0] else decimal (unat num))"

lemma number_bytes_digit:
  assumes "b \<in> set (number_bytes num)"
  obtains d where "b = ucast (digit d)" "d < 10" "unat b = 48 + d"
proof -
  obtain d where d: "b = ucast (digit d)" "d \<in> set (if num = 0 then [0] else decimal (unat num))"
    using assms by (auto simp: number_bytes_def)
  then have "d < 10" using decimal_digits by (auto split: if_splits)
  with that d(1) digit_value show ?thesis by blast
qed

lemma number_bytes_parse: "parse_decimal (number_bytes num) = unat num"
  using parse_decimal_decimal [of "unat num"] digit_value [of 0]
  by (simp add: number_bytes_def parse_decimal_def)

lemma number_bytes_length: "0 < length (number_bytes num)" "length (number_bytes num) \<le> 10"
proof -
  have "unat num < 10 ^ 10" using unat_u32_less [of num] by simp
  then have "length (decimal (unat num)) \<le> 10" by (rule decimal_length)
  then show "length (number_bytes num) \<le> 10" by (simp add: number_bytes_def)
  show "0 < length (number_bytes num)"
    using decimal_head [of "unat num"] by (simp add: number_bytes_def unat_gt_0)
qed

lemma one_digit: "unat num < 10 \<Longrightarrow> length (number_bytes num) = 1"
  using decimal_length [of "unat num" 1] number_bytes_length(1) [of num] by (auto simp: number_bytes_def le_Suc_eq split: if_splits)

lemma number_bytes_head: "num \<noteq> 0 \<Longrightarrow> hd (number_bytes num) \<noteq> 48"
proof
  assume num: "num \<noteq> 0" and "hd (number_bytes num) = 48"
  have ds: "decimal (unat num) \<noteq> []" "hd (decimal (unat num)) \<noteq> 0"
    using decimal_head [of "unat num"] num by (simp_all add: unat_gt_0)
  then have "hd (decimal (unat num)) < 10" using decimal_digits [OF hd_in_set] by blast
  moreover have "hd (number_bytes num) = ucast (digit (hd (decimal (unat num))))"
    using ds(1) num by (simp add: number_bytes_def list.map_sel(1))
  ultimately have "unat (48 :: u32) = 48 + hd (decimal (unat num))"
    using digit_value \<open>hd (number_bytes num) = 48\<close> by metis
  with ds(2) show False by simp
qed

text \<open>A literal without a NUL character, and a number.\<close>

definition codes :: "string \<Rightarrow> u32 list" where
  "codes str = map char_code (takeWhile (\<lambda>c. c \<noteq> CHR 0x00) str)"

lemma print_codes:
  assumes "uart_ready hw h"
  obtains h' where "uart_print hw str h = Some h'" "sends (codes str) h h'" "uart_ready hw h'"
  using uart_print_sends [OF assms, of str] sends_ready [OF assms] unfolding codes_def by metis

lemma print_number_bytes:
  assumes "uart_ready hw h"
  obtains h' where "uart_print_number hw num h = Some h'" "sends (number_bytes num) h h'" "uart_ready hw h'"
  using uart_print_number_sends [OF assms, of num] sends_ready [OF assms] unfolding number_bytes_def by metis

end
