(* ===== verification/Gpio.thy ===== *)
theory Gpio
  imports Device
begin

text \<open>
  The GPIO driver, \<^verbatim>\<open>Drivers/Src/gpio.c\<close>. A port is the base address of its registers.
  An operation has no result when the C code shifts by more than the width of a register,
  which it does for a pin above 15 or a port outside the AHB1 range.
\<close>

subsection \<open>The model\<close>

datatype gpio_mode = GPIO_INPUT | GPIO_OUTPUT | GPIO_AF | GPIO_ANALOG
datatype gpio_pull = GPIO_NOPULL | GPIO_PULLUP | GPIO_PULLDOWN

fun mode_code :: "gpio_mode \<Rightarrow> u32" where
  "mode_code GPIO_INPUT = 0"
| "mode_code GPIO_OUTPUT = 1"
| "mode_code GPIO_AF = 2"
| "mode_code GPIO_ANALOG = 3"

fun pull_code :: "gpio_pull \<Rightarrow> u32" where
  "pull_code GPIO_NOPULL = 0"
| "pull_code GPIO_PULLUP = 1"
| "pull_code GPIO_PULLDOWN = 2"

definition gpio_clock_enable :: "cmsis \<Rightarrow> hardware \<Rightarrow> u32 \<Rightarrow> history \<Rightarrow> history option" where
  "gpio_clock_enable c hw port h = do {
     let index = (port - GPIOA_BASE c) div 0x400;
     b \<leftarrow> shl 1 (unat index);
     Some (set_bits hw RCC_AHB1ENR b h) }"

definition gpio_config ::
    "cmsis \<Rightarrow> hardware \<Rightarrow> u32 \<Rightarrow> u8 \<Rightarrow> gpio_mode \<Rightarrow> u8 \<Rightarrow> gpio_pull \<Rightarrow> history \<Rightarrow> history option" where
  "gpio_config c hw port pin mode af pull h = do {
     h1 \<leftarrow> gpio_clock_enable c hw port h;
     m \<leftarrow> shl 0x3 (unat pin * 2);
     let h2 = clear_bits hw (GPIO_MODER port) m h1;
     m \<leftarrow> shl (mode_code mode) (unat pin * 2);
     let h3 = set_bits hw (GPIO_MODER port) m h2;
     m \<leftarrow> shl 0x3 (unat pin * 2);
     let h4 = clear_bits hw (GPIO_PUPDR port) m h3;
     m \<leftarrow> shl (pull_code pull) (unat pin * 2);
     let h5 = set_bits hw (GPIO_PUPDR port) m h4;
     if mode = GPIO_AF then do {
       let reg = drop_bit 3 pin;
       let shift = (pin AND 0x7) * 4;
       m \<leftarrow> shl 0xF (unat shift);
       let h6 = clear_bits hw (GPIO_AFR port reg) m h5;
       m \<leftarrow> shl (ucast af) (unat shift);
       Some (set_bits hw (GPIO_AFR port reg) m h6) }
     else Some h5 }"

definition gpio_set_open_drain :: "hardware \<Rightarrow> u32 \<Rightarrow> u8 \<Rightarrow> history \<Rightarrow> history option" where
  "gpio_set_open_drain hw port pin h = do {
     m \<leftarrow> shl 1 (unat pin);
     let h1 = set_bits hw (GPIO_OTYPER port) m h;
     m \<leftarrow> shl 0x3 (unat pin * 2);
     Some (set_bits hw (GPIO_OSPEEDR port) m h1) }"

definition gpio_write :: "u32 \<Rightarrow> u8 \<Rightarrow> bool \<Rightarrow> history \<Rightarrow> history option" where
  "gpio_write port pin value h = do {
     m \<leftarrow> (if value then shl 1 (unat pin) else shl 1 (unat pin + 16));
     Some (store (GPIO_BSRR port) m h) }"

definition gpio_toggle :: "hardware \<Rightarrow> u32 \<Rightarrow> u8 \<Rightarrow> history \<Rightarrow> history option" where
  "gpio_toggle hw port pin h = do {
     m \<leftarrow> shl 1 (unat pin);
     Some (modify hw (GPIO_ODR port) (\<lambda>v. v XOR m) h) }"

definition gpio_read :: "hardware \<Rightarrow> u32 \<Rightarrow> u8 \<Rightarrow> history \<Rightarrow> (bool \<times> history) option" where
  "gpio_read hw port pin h = do {
     m \<leftarrow> shl 1 (unat pin);
     let (v, h1) = load hw (GPIO_IDR port) h;
     Some (v AND m \<noteq> 0, h1) }"

subsection \<open>Configuring a pin\<close>

lemma take_bit_mode_code [simp]: "take_bit 2 (mode_code m) = mode_code m"
  by (cases m) simp_all

lemma take_bit_pull_code [simp]: "take_bit 2 (pull_code p) = pull_code p"
  by (cases p) simp_all

text \<open>The registers of a pin's configuration, and a port the clock register covers.\<close>

definition port_ok :: "cmsis \<Rightarrow> u32 \<Rightarrow> bool" where
  "port_ok c port \<longleftrightarrow> unat ((port - GPIOA_BASE c) div 0x400) < 32"

definition config_regs :: "u32 \<Rightarrow> reg set" where
  "config_regs port = {RCC_AHB1ENR, GPIO_MODER port, GPIO_PUPDR port, GPIO_AFR port 0, GPIO_AFR port 1}"

lemma low_pin: "pin < 16 \<Longrightarrow> drop_bit 3 pin = (if pin < 8 then 0 else 1 :: u8)"
    and pin_shift: "pin < 16 \<Longrightarrow> unat ((pin AND 7) * 4) = 4 * (unat pin mod 8)"
    and pin_nat: "pin < 16 \<Longrightarrow> unat pin < 16" for pin :: u8
proof -
  assume "pin < 16"
  then have n: "unat pin < 16" by (simp add: word_less_nat_alt)
  then show "unat pin < 16" .
  have "unat (drop_bit 3 pin) = unat pin div 8" by (simp add: drop_bit_eq_div unat_div)
  with n show "drop_bit 3 pin = (if pin < 8 then 0 else 1 :: u8)"
    by (auto simp: word_less_nat_alt word_unat_eq_iff)
  have "pin AND 7 = take_bit 3 pin" by (simp add: take_bit_eq_mask mask_eq_exp_minus_1)
  then have "unat (pin AND 7) = unat pin mod 8" by (simp add: take_bit_eq_mod unat_mod)
  then show "unat ((pin AND 7) * 4) = 4 * (unat pin mod 8)"
    by (simp add: unat_word_ariths)
qed

text \<open>
  With plain registers the calls are stores of updated fields. \<open>af_fields\<close> is the
  alternate-function register pair after the call.
\<close>

lemma gpio_config_eq:
  assumes pin: "pin < 16" and ok: "port_ok c port"
  obtains h' where "gpio_config c hw port pin mode af pull h = Some h'"
    "\<And>r. r \<notin> config_regs port \<Longrightarrow> writes r h' = writes r h"
    "plain hw (GPIO_MODER port) \<Longrightarrow>
       hw h' (GPIO_MODER port) = put_field 2 (unat pin) (mode_code mode) (hw h (GPIO_MODER port))"
    "plain hw (GPIO_PUPDR port) \<Longrightarrow>
       hw h' (GPIO_PUPDR port) = put_field 2 (unat pin) (pull_code pull) (hw h (GPIO_PUPDR port))"
    "mode = GPIO_AF \<Longrightarrow> plain hw (GPIO_AFR port (drop_bit 3 pin)) \<Longrightarrow>
       hw h' (GPIO_AFR port (drop_bit 3 pin)) =
         put_field 4 (unat pin mod 8) (ucast af) (hw h (GPIO_AFR port (drop_bit 3 pin)))"
proof -
  have s: "unat pin * 2 < 32" "unat ((pin AND 7) * 4) < 32"
    using pin_nat [OF pin] pin_shift [OF pin] mod_less_divisor [of 8 "unat pin"] by simp_all
  have d: "drop_bit 3 pin = 0 \<or> drop_bit 3 pin = 1" using low_pin [OF pin] by simp
  have m: "(3 :: u32) = mask 2" "(15 :: u32) = mask 4" by (simp_all add: mask_eq_exp_minus_1)
  note f2 = put_fieldI [where w = 2 and i = "unat pin" and n = "unat pin * 2"]
  note f4 = put_fieldI [where w = 4 and i = "unat pin mod 8" and n = "unat ((pin AND 7) * 4)", OF pin_shift [OF pin]]
  show ?thesis
  proof (cases "mode = GPIO_AF")
    case True
    show ?thesis
      using s d ok True
      by (intro that)
        (simp add: gpio_config_def gpio_clock_enable_def port_ok_def Let_def, auto simp: config_regs_def m f2 f4)
  next
    case False
    show ?thesis
      using s ok False
      by (intro that)
        (simp add: gpio_config_def gpio_clock_enable_def port_ok_def Let_def, auto simp: config_regs_def m f2 f4)
  qed
qed

lemma gpio_config_writes:
  assumes "pin < 16" "port_ok c port" "r \<notin> config_regs port"
  shows "\<exists>h'. gpio_config c hw port pin mode af pull h = Some h' \<and> writes r h' = writes r h"
  by (rule gpio_config_eq [OF assms(1,2), of hw mode af pull h]) (use assms(3) in blast)

end
