(* ===== verification/Servo.thy ===== *)
theory Servo
  imports Gpio
begin

text \<open>
  The servo and the PWM timer under it, \<^verbatim>\<open>Drivers/Src/pwm.c\<close> and \<^verbatim>\<open>Drivers/Src/servo.c\<close>. The
  driver's one variable, the period \<^verbatim>\<open>pwm_period_us\<close>, is passed explicitly.
\<close>

subsection \<open>The model\<close>

definition PWM_TIMER_CLK_HZ :: u32 where "PWM_TIMER_CLK_HZ = 16000000"
definition SERVO_MIN_US :: u32 where "SERVO_MIN_US = 1000"
definition SERVO_MAX_US :: u32 where "SERVO_MAX_US = 2000"

definition pwm_init :: "cmsis \<Rightarrow> hardware \<Rightarrow> u32 \<Rightarrow> history \<Rightarrow> (u32 \<times> history) option" where
  "pwm_init c hw period_us h = do {
     let pwm_period_us = period_us;
     let h = set_bits hw RCC_APB1ENR (RCC_APB1ENR_TIM3EN c) h;
     h \<leftarrow> gpio_config c hw (GPIOA c) 6 GPIO_AF 2 GPIO_NOPULL h;
     let h = store (TIM_PSC TIM3) (PWM_TIMER_CLK_HZ div 1000000 - 1) h;
     let h = store (TIM_ARR TIM3) (period_us - 1) h;
     let h = clear_bits hw (TIM_CCMR1 TIM3) (TIM_CCMR1_OC1M c) h;
     let h = set_bits hw (TIM_CCMR1 TIM3)
               (TIM_CCMR1_OC1M_2 c OR TIM_CCMR1_OC1M_1 c OR TIM_CCMR1_OC1PE c) h;
     let h = set_bits hw (TIM_CR1 TIM3) (TIM_CR1_ARPE c) h;
     let h = set_bits hw (TIM_CCER TIM3) (TIM_CCER_CC1E c) h;
     let h = set_bits hw (TIM_EGR TIM3) (TIM_EGR_UG c) h;
     Some (pwm_period_us, set_bits hw (TIM_CR1 TIM3) (TIM_CR1_CEN c) h) }"

definition pwm_set_pulse_us :: "u32 \<Rightarrow> u32 \<Rightarrow> history \<Rightarrow> history" where
  "pwm_set_pulse_us pwm_period_us pulse_us h =
     (let pulse_us = (if pulse_us > pwm_period_us then pwm_period_us else pulse_us)
      in store (TIM_CCR1 TIM3) pulse_us h)"

definition servo_init :: "cmsis \<Rightarrow> hardware \<Rightarrow> history \<Rightarrow> (u32 \<times> history) option" where
  "servo_init c hw h = do {
     (period, h1) \<leftarrow> pwm_init c hw 20000 h;
     Some (period, pwm_set_pulse_us period ((SERVO_MIN_US + SERVO_MAX_US) div 2) h1) }"

definition servo_set_angle :: "u32 \<Rightarrow> u16 \<Rightarrow> history \<Rightarrow> history" where
  "servo_set_angle pwm_period_us degrees h =
     (let degrees = (if degrees > 180 then 180 else degrees);
          pulse_us = SERVO_MIN_US + (ucast degrees * (SERVO_MAX_US - SERVO_MIN_US)) div 180
      in pwm_set_pulse_us pwm_period_us pulse_us h)"

subsection \<open>The pulse\<close>

text \<open>The pulse for an angle, on the numbers: 1000 us plus 1000/180 us a degree up to 180.\<close>

definition pulse_of :: "nat \<Rightarrow> nat" where
  "pulse_of d = 1000 + min d 180 * 1000 div 180"

lemma pulse_of_bounds: "1000 \<le> pulse_of d" "pulse_of d \<le> 2000"
proof -
  have "min d 180 * 1000 div 180 \<le> 180 * 1000 div 180"
    by (intro div_le_mono mult_le_mono1) simp
  then show "1000 \<le> pulse_of d" "pulse_of d \<le> 2000" by (simp_all add: pulse_of_def)
qed

lemma pulse_of_mono: "d \<le> e \<Longrightarrow> pulse_of d \<le> pulse_of e"
  by (simp add: pulse_of_def div_le_mono)

lemma servo_set_angle_eq:
  assumes "2000 \<le> unat period"
  shows "servo_set_angle period d h = store (TIM_CCR1 TIM3) (of_nat (pulse_of (unat d))) h"
proof -
  let ?d = "if d > 180 then 180 else d"
  let ?p = "SERVO_MIN_US + (ucast ?d * (SERVO_MAX_US - SERVO_MIN_US)) div 180"
  have d: "unat ?d = min (unat d) 180" by (auto simp: word_less_nat_alt not_less)
  then have u: "unat (ucast ?d :: u32) = min (unat d) 180"
    by (simp add: unsigned_ucast_eq take_bit_nat_eq_self)
  have "unat (ucast ?d * (SERVO_MAX_US - SERVO_MIN_US)) = min (unat d) 180 * 1000"
    using u by (simp add: SERVO_MAX_US_def SERVO_MIN_US_def unat_word_ariths)
  then have p: "unat ?p = pulse_of (unat d)"
    using pulse_of_bounds(2) [of "unat d"]
    by (simp add: unat_word_ariths unat_div SERVO_MIN_US_def pulse_of_def)
  then have "\<not> ?p > period"
    using assms pulse_of_bounds(2) [of "unat d"] by (simp add: word_less_nat_alt)
  moreover have "?p = of_nat (pulse_of (unat d))" unfolding p [symmetric] by simp
  ultimately show ?thesis by (simp add: servo_set_angle_def pwm_set_pulse_us_def Let_def)
qed

end
