(* ===== verification/Ultrasonic.thy ===== *)
theory Ultrasonic
  imports Gpio Kernel_System
begin

text \<open>
  The ultrasonic ranger, \<^verbatim>\<open>Drivers/Src/ultrasonic.c\<close>: a trigger pulse, a capture interrupt
  that stores the two edges of the echo and posts a semaphore, and the blocking read that
  turns the pulse width into centimetres. The interrupt and the read meet in the driver's
  variables (\<open>echo\<close>) and in the kernel's semaphore \<^verbatim>\<open>echo_ready\<close>.
\<close>

subsection \<open>The model\<close>

definition US_PER_CM :: u32 where "US_PER_CM = 58"
definition TRIG_PIN :: u8 where "TRIG_PIN = 0"
definition ECHO_PIN :: u8 where "ECHO_PIN = 1"
definition ULTRASONIC_NO_ECHO :: u32 where "ULTRASONIC_NO_ECHO = 0xFFFFFFFF"

definition echo_ready :: saddr where "echo_ready = Sem_At 0"

record echo =
  time_start :: u32
  time_end :: u32
  waiting_for_rising :: u8

definition echo_zero :: echo where
  "echo_zero = \<lparr>time_start = 0, time_end = 0, waiting_for_rising = 1\<rparr>"

definition ultrasonic_init :: "cmsis \<Rightarrow> hardware \<Rightarrow> history \<Rightarrow> history option" where
  "ultrasonic_init c hw h = do {
     let h = set_bits hw RCC_APB1ENR (RCC_APB1ENR_TIM2EN c) h;
     h \<leftarrow> gpio_config c hw (GPIOA c) TRIG_PIN GPIO_OUTPUT 0 GPIO_NOPULL h;
     h \<leftarrow> gpio_config c hw (GPIOA c) ECHO_PIN GPIO_AF 1 GPIO_NOPULL h;
     let h = store (TIM_PSC TIM2) 15 h;
     let h = store (TIM_ARR TIM2) 0xFFFFFFFF h;
     let h = clear_bits hw (TIM_CCMR1 TIM2) (TIM_CCMR1_CC2S c) h;
     let h = set_bits hw (TIM_CCMR1 TIM2) (TIM_CCMR1_CC2S_0 c) h;
     let h = set_bits hw (TIM_CCER TIM2) (TIM_CCER_CC2P c OR TIM_CCER_CC2NP c) h;
     let h = set_bits hw (TIM_CCER TIM2) (TIM_CCER_CC2E c) h;
     let h = set_bits hw (TIM_DIER TIM2) (TIM_DIER_CC2IE c) h;
     let h = h @ [Nvic_priority (TIM2_IRQn c) 5, Nvic_enable (TIM2_IRQn c)];
     Some (set_bits hw (TIM_CR1 TIM2) (TIM_CR1_CEN c) h) }"

definition ultrasonic_trigger :: "cmsis \<Rightarrow> echo \<times> kernel \<times> history \<Rightarrow> (echo \<times> kernel \<times> history) option" where
  "ultrasonic_trigger c = (\<lambda>(e, s, h). do {
     let (p, s) = os_enter_critical s;
     let e = e\<lparr>waiting_for_rising := 1\<rparr>;
     let s = os_exit_critical p s;
     h \<leftarrow> gpio_write (GPIOA c) TRIG_PIN True h;
     let h = h @ [Pause 40];
     h \<leftarrow> gpio_write (GPIOA c) TRIG_PIN False h;
     Some (e, s, h) })"

text \<open>
  The read, up to where it returns or parks: the result is \<open>Returned\<close> with the outcome of the
  acquire, or \<open>Parked\<close>; \<open>echo_cm\<close> is what it returns on that outcome, and
  \<open>ultrasonic_resume\<close> is its end in a task that was parked and runs again.
\<close>

definition echo_cm :: "u8 \<Rightarrow> echo \<Rightarrow> u32" where
  "echo_cm r e = (if r \<noteq> OS_SUCCESS then ULTRASONIC_NO_ECHO
                  else (time_end e - time_start e) div US_PER_CM)"

definition ultrasonic_read_cm ::
    "cmsis \<Rightarrow> u32 \<Rightarrow> echo \<times> kernel \<times> history \<Rightarrow> (u32 option \<times> echo \<times> kernel \<times> history) option" where
  "ultrasonic_read_cm c timeout_ms w = do {
     (e, s, h) \<leftarrow> ultrasonic_trigger c w;
     (r, s) \<leftarrow> os_semaphore_acquire echo_ready timeout_ms s;
     Some (case r of Returned code \<Rightarrow> Some (echo_cm code e) | Parked \<Rightarrow> None, e, s, h) }"

definition ultrasonic_resume :: "echo \<times> kernel \<times> history \<Rightarrow> u32 option" where
  "ultrasonic_resume = (\<lambda>(e, s, h). do { code \<leftarrow> os_resume_result s; Some (echo_cm code e) })"

definition TIM2_IRQHandler ::
    "cmsis \<Rightarrow> hardware \<Rightarrow> echo \<times> kernel \<times> history \<Rightarrow> (echo \<times> kernel \<times> history) option" where
  "TIM2_IRQHandler c hw = (\<lambda>(e, s, h). do {
     let (sr, h) = load hw (TIM_SR TIM2) h;
     if sr AND TIM_SR_CC2IF c = 0 then Some (e, s, h)
     else do {
       let (captured, h) = load hw (TIM_CCR2 TIM2) h;
       if waiting_for_rising e \<noteq> 0
       then Some (e\<lparr>time_start := captured, waiting_for_rising := 0\<rparr>, s, h)
       else do {
         let e = e\<lparr>time_end := captured, waiting_for_rising := 1\<rparr>;
         s \<leftarrow> os_semaphore_release echo_ready s;
         Some (e, s, h) } } })"

subsection \<open>One capture\<close>

text \<open>\<open>edge_at c hw h t\<close>: after \<open>h\<close> the capture flag is set and the counter value \<open>t\<close> is latched.\<close>

definition edge_at :: "cmsis \<Rightarrow> hardware \<Rightarrow> history \<Rightarrow> u32 \<Rightarrow> bool" where
  "edge_at c hw h t \<longleftrightarrow> hw h (TIM_SR TIM2) AND TIM_SR_CC2IF c \<noteq> 0 \<and> hw (h @ [Rd (TIM_SR TIM2)]) (TIM_CCR2 TIM2) = t"

definition after_edge :: "history \<Rightarrow> history" where
  "after_edge h = h @ [Rd (TIM_SR TIM2), Rd (TIM_CCR2 TIM2)]"

lemma rising_edge:
  "edge_at c hw h t \<Longrightarrow> waiting_for_rising e \<noteq> 0 \<Longrightarrow>
   TIM2_IRQHandler c hw (e, s, h) =
     Some (e\<lparr>time_start := t, waiting_for_rising := 0\<rparr>, s, after_edge h)"
  by (simp add: TIM2_IRQHandler_def edge_at_def load_def after_edge_def)

lemma falling_edge:
  "edge_at c hw h t \<Longrightarrow> waiting_for_rising e = 0 \<Longrightarrow>
   TIM2_IRQHandler c hw (e, s, h) =
     map_option (\<lambda>s'. (e\<lparr>time_end := t, waiting_for_rising := 1\<rparr>, s', after_edge h))
       (os_semaphore_release echo_ready s)"
  by (cases "os_semaphore_release echo_ready s")
    (simp_all add: TIM2_IRQHandler_def edge_at_def load_def after_edge_def)

lemma spurious_edge:
  "hw h (TIM_SR TIM2) AND TIM_SR_CC2IF c = 0 \<Longrightarrow>
   TIM2_IRQHandler c hw (e, s, h) = Some (e, s, h @ [Rd (TIM_SR TIM2)])"
  by (simp add: TIM2_IRQHandler_def load_def)

lemma ultrasonic_trigger_eq:
  "ultrasonic_trigger c (e, s, h) = Some (e\<lparr>waiting_for_rising := 1\<rparr>, s,
     h @ [Wr (GPIO_BSRR (GPIOA c)) 1, Pause 40, Wr (GPIO_BSRR (GPIOA c)) 0x10000])"
  by (simp add: ultrasonic_trigger_def os_enter_critical_def os_exit_critical_def gpio_write_def
      TRIG_PIN_def store_def)

text \<open>The width of a pulse of \<open>d\<close> microseconds, whatever the counter did meanwhile.\<close>

lemma echo_cm_width:
  assumes "d < 2 ^ 32" "time_end e = time_start e + of_nat d"
  shows "unat (echo_cm OS_SUCCESS e) = d div 58"
  using assms by (simp add: echo_cm_def US_PER_CM_def unat_div unat_of_nat)

text \<open>The kernel's side of the second edge: the parked task is handed the semaphore.\<close>

lemma park_then_post:
  assumes inv: "kinv s" and run: "running s r" and k: "kernel_running s" and ms: "timeout \<noteq> 0"
    and x: "sems s echo_ready = Some x" "sem_count x = 0"
    and none: "waiters s (SemQ echo_ready) = []"
  obtains s1 s2 where "os_semaphore_acquire echo_ready timeout s = Some (Parked, s1)"
    "os_semaphore_release echo_ready s1 = Some s2" "kinv s2"
    "state (os_tasks s1 ! r) = BLOCKED"
    "state (os_tasks s2 ! r) = READY" "wait_result (os_tasks s2 ! r) = OS_SUCCESS"
    "\<forall>t. t \<noteq> r \<longrightarrow> os_tasks s2 ! t = os_tasks s ! t" "r < length (os_tasks s2)"
    "current_tcb s2 = Some r" "waiters s2 (SemQ echo_ready) = []" "\<exists>x'. sems s2 echo_ready = Some x' \<and> sem_count x' = 0"
proof -
  obtain s1 where s1: "os_semaphore_acquire echo_ready timeout s = Some (Parked, s1)" "kinv s1" "pendsv s1"
    "os_tasks s1 = (os_tasks s)[r := parked (SemQ echo_ready) timeout (os_tasks s ! r)]"
    "\<forall>q. waiters s1 q = (if q = SemQ echo_ready then waiters s q @ [Some r] else waiters s q)"
    "obj_cores s1 = obj_cores s" "current_tcb s1 = current_tcb s"
    by (rule sem_acquire_block [OF inv run x ms k])
  obtain x1 where x1: "sems s1 echo_ready = Some x1" "sem_count x1 = 0"
    using sem_core [OF s1(6) [symmetric] x(1)] x(2) by auto
  have next_r: "next_waiter echo_ready s1 = Some r" using s1(5) none by (simp add: next_waiter_def)
  obtain s2 where s2: "os_semaphore_release echo_ready s1 = Some s2" "kinv s2" "pendsv s2"
    "os_tasks s2 = (os_tasks s1)[r := woken (os_tasks s1 ! r)]"
    "\<forall>q. waiters s2 q = remove1 (Some r) (waiters s1 q)" "obj_cores s2 = obj_cores s1"
    "current_tcb s2 = current_tcb s1" by (rule sem_release_handoff [OF s1(2) x1(1) next_r])
  obtain x2 where "sems s2 echo_ready = Some x2" "sem_count x2 = 0"
    using sem_core [OF s2(6) [symmetric] x1(1)] x1(2) by auto
  moreover have "r < length (os_tasks s)"
    using run waits_okD(3) [OF kinvD(1) [OF inv]] by (simp add: running_def)
  moreover have "current_tcb s2 = Some r" using s1(7) s2(7) run by (simp add: running_def)
  ultimately show ?thesis
    using that [OF s1(1) s2(1,2)] s1(4,5) s2(4,5) none by (simp add: woken_def)
qed

text \<open>
  A token left by an echo that came after a read had timed out: the next read consumes it
  and returns the old pulse at once, whatever the new trigger measures.
\<close>

lemma stale_echo:
  assumes "sems s echo_ready = Some x" "sem_count x \<noteq> 0"
  shows "\<exists>e' s' h'. ultrasonic_read_cm c timeout (e, s, h) =
    Some (Some ((time_end e - time_start e) div US_PER_CM), e', s', h')"
  using sem_acquire_token [OF assms, of timeout]
  by (simp add: ultrasonic_read_cm_def ultrasonic_trigger_eq echo_cm_def)

end
