(* ===== verification/Tasks.thy ===== *)
theory Tasks
  imports Uart Servo Ultrasonic Msg_Queue
begin

text \<open>
  The application tasks, \<^verbatim>\<open>Tasks/tasks.c\<close>. A task is a step function on a program counter,
  whose points lie between its calls of the kernel and of the drivers: the steps of other
  tasks and of interrupt handlers may come between any two of its own. A call that parks the
  task ends its step; the next step is the one after the call returns.
\<close>

subsection \<open>The board\<close>

text \<open>The state the tasks share: the kernel, the drivers' variables and the access history.\<close>

record board =
  krn :: kernel
  ech :: echo
  pwm_period_us :: u32
  hst :: history

definition SWEEP_STEP_DEG :: u16 where "SWEEP_STEP_DEG = 5"
definition SWEEP_PERIOD_MS :: u32 where "SWEEP_PERIOD_MS = 20"
definition RADAR_PERIOD_MS :: u32 where "RADAR_PERIOD_MS = 100"

definition uart_lock :: maddr where "uart_lock = Mutex_At 0"
definition sweep_queue :: nat where "sweep_queue = 0"

text \<open>A kernel call, a print and a delay on the board.\<close>

definition on_kernel :: "(kernel \<Rightarrow> kernel option) \<Rightarrow> board \<Rightarrow> board option" where
  "on_kernel f b = map_option (\<lambda>s. b\<lparr>krn := s\<rparr>) (f (krn b))"

definition on_history :: "(history \<Rightarrow> history option) \<Rightarrow> board \<Rightarrow> board option" where
  "on_history f b = map_option (\<lambda>h. b\<lparr>hst := h\<rparr>) (f (hst b))"

text \<open>\<^verbatim>\<open>os_mutex_acquire(&uart_lock, WAIT_FOREVER)\<close>, whose result the callers ignore.\<close>

definition lock_uart :: "board \<Rightarrow> board option" where
  "lock_uart = on_kernel (\<lambda>s. map_option snd (os_mutex_acquire uart_lock WAIT_FOREVER s))"

definition unlock_uart :: "board \<Rightarrow> board option" where
  "unlock_uart = on_kernel (os_mutex_release uart_lock)"

text \<open>What \<^verbatim>\<open>log_line\<close> prints between taking and giving back the lock.\<close>

definition log_print ::
    "hardware \<Rightarrow> string \<Rightarrow> u32 \<Rightarrow> string option \<Rightarrow> u32 \<Rightarrow> history \<Rightarrow> history option" where
  "log_print hw label a label2 b h = do {
     h \<leftarrow> uart_print hw label h;
     h \<leftarrow> uart_print_number hw a h;
     h \<leftarrow> (case label2 of
            Some l2 \<Rightarrow> do { h \<leftarrow> uart_print hw l2 h; uart_print_number hw b h }
          | None \<Rightarrow> Some h);
     uart_print hw [CHR 0x0D, CHR 0x0A] h }"

subsection \<open>The idle task\<close>

text \<open>One turn of its loop.\<close>

definition os_idle_task :: "board \<Rightarrow> board" where
  "os_idle_task b = b\<lparr>hst := hst b @ [Wfi]\<rparr>"

subsection \<open>The sweep task\<close>

text \<open>
  The points of \<^verbatim>\<open>sweep_task\<close>: the banner under the lock, the homing loop with its variable
  \<^verbatim>\<open>a\<close>, and the sweep with \<^verbatim>\<open>angle\<close> and \<^verbatim>\<open>step\<close>, both 16-bit signed.
\<close>

datatype sweep_pc =
    W_lock | W_banner | W_unlock
  | W_home u16
  | W_home_delay u16
  | W_set u16 u16
  | W_send u16 u16 q_pc
  | W_delay u16 u16

definition banner :: string where
  "banner = ''[Servo] Gradual homing sequence...'' @ [CHR 0x0D, CHR 0x0A]"

text \<open>\<^verbatim>\<open>angle += step\<close> and the reversal at the ends.\<close>

definition sweep_turn :: "u16 \<times> u16 \<Rightarrow> u16 \<times> u16" where
  "sweep_turn = (\<lambda>(angle, stp).
     let angle = angle + stp in
     if sint angle \<ge> 180 then (180, - SWEEP_STEP_DEG)
     else if sint angle \<le> 0 then (0, SWEEP_STEP_DEG)
     else (angle, stp))"

fun sweep_step :: "hardware \<Rightarrow> sweep_pc \<Rightarrow> board \<Rightarrow> (sweep_pc \<times> board) option" where
  "sweep_step hw W_lock b = do { b \<leftarrow> lock_uart b; Some (W_banner, b) }"
| "sweep_step hw W_banner b = do { b \<leftarrow> on_history (uart_print hw banner) b; Some (W_unlock, b) }"
| "sweep_step hw W_unlock b = do { b \<leftarrow> unlock_uart b; Some (W_home 90, b) }"
| "sweep_step hw (W_home a) b =
     (if sint a \<ge> 0
      then Some (W_home_delay a, b\<lparr>hst := servo_set_angle (pwm_period_us b) a (hst b)\<rparr>)
      else do { b \<leftarrow> on_kernel (os_delay 500) b; Some (W_set 0 SWEEP_STEP_DEG, b) })"
| "sweep_step hw (W_home_delay a) b =
     do { b \<leftarrow> on_kernel (os_delay 50) b; Some (W_home (a - SWEEP_STEP_DEG), b) }"
| "sweep_step hw (W_set angle stp) b =
     Some (W_send angle stp (S_take (scast angle) 0),
           b\<lparr>hst := servo_set_angle (pwm_period_us b) angle (hst b)\<rparr>)"
| "sweep_step hw (W_send angle stp q) b =
     (if q_finished q then (case sweep_turn (angle, stp) of (angle, stp) \<Rightarrow> Some (W_delay angle stp, b))
      else do { (q, s) \<leftarrow> q_step sweep_queue q (krn b); Some (W_send angle stp q, b\<lparr>krn := s\<rparr>) })"
| "sweep_step hw (W_delay angle stp) b =
     do { b \<leftarrow> on_kernel (os_delay SWEEP_PERIOD_MS) b; Some (W_set angle stp, b) }"

subsection \<open>The radar task\<close>

datatype radar_pc =
    P_ping u32
  | P_take u32
  | P_echo u32
  | P_got u32 u32
  | P_recv u32 u32 q_pc
  | P_lock u32 u32
  | P_print u32 u32
  | P_unlock u32
  | P_delay u32

fun radar_step :: "cmsis \<Rightarrow> hardware \<Rightarrow> radar_pc \<Rightarrow> board \<Rightarrow> (radar_pc \<times> board) option" where
  "radar_step c hw (P_ping angle) b = do {
     (e, s, h) \<leftarrow> ultrasonic_trigger c (ech b, krn b, hst b);
     Some (P_take angle, b\<lparr>ech := e, krn := s, hst := h\<rparr>) }"
| "radar_step c hw (P_take angle) b = do {
     (r, s) \<leftarrow> os_semaphore_acquire echo_ready 60 (krn b);
     Some (case r of Returned code \<Rightarrow> P_got angle (echo_cm code (ech b)) | Parked \<Rightarrow> P_echo angle,
           b\<lparr>krn := s\<rparr>) }"
| "radar_step c hw (P_echo angle) b = do {
     distance \<leftarrow> ultrasonic_resume (ech b, krn b, hst b);
     Some (P_got angle distance, b) }"
| "radar_step c hw (P_got angle distance) b =
     Some (if distance \<noteq> ULTRASONIC_NO_ECHO then P_recv angle distance (R_take 0) else P_delay angle, b)"
| "radar_step c hw (P_recv angle distance q) b =
     (case q of
        Q_done code v \<Rightarrow>
          if code = OS_SUCCESS
          then (case v of Some angle' \<Rightarrow> Some (P_lock angle' distance, b) | None \<Rightarrow> None)
          else Some (P_delay angle, b)
      | _ \<Rightarrow> do {
          (q, s) \<leftarrow> q_step sweep_queue q (krn b);
          Some (P_recv angle distance q, b\<lparr>krn := s\<rparr>) })"
| "radar_step c hw (P_lock angle distance) b = do { b \<leftarrow> lock_uart b; Some (P_print angle distance, b) }"
| "radar_step c hw (P_print angle distance) b = do {
     b \<leftarrow> on_history (log_print hw ''[Radar] Angle: '' angle (Some '' | Dist (cm): '') distance) b;
     Some (P_unlock angle, b) }"
| "radar_step c hw (P_unlock angle) b = do { b \<leftarrow> unlock_uart b; Some (P_delay angle, b) }"
| "radar_step c hw (P_delay angle) b = do {
     b \<leftarrow> on_kernel (os_delay RADAR_PERIOD_MS) b; Some (P_ping angle, b) }"

text \<open>The first two points are \<^verbatim>\<open>ultrasonic_read_cm(60)\<close>, with room for the echo between them.\<close>

lemma radar_reads:
  "do { (pt, b') \<leftarrow> radar_step c hw (P_ping angle) b; radar_step c hw pt b' } =
   do { (r, e, s, h) \<leftarrow> ultrasonic_read_cm c 60 (ech b, krn b, hst b);
        Some (case r of Some distance \<Rightarrow> P_got angle distance | None \<Rightarrow> P_echo angle,
              b\<lparr>ech := e, krn := s, hst := h\<rparr>) }"
  by (simp add: ultrasonic_read_cm_def ultrasonic_trigger_eq split: Option.bind_split outcome.split prod.split)

subsection \<open>The line of the radar\<close>

lemma log_print_sends:
  assumes "uart_ready hw h"
  obtains h' where "log_print hw label a (Some label2) b h = Some h'" "uart_ready hw h'"
    "sends (codes label @ number_bytes a @ codes label2 @ number_bytes b @ [13, 10]) h h'"
proof -
  obtain h1 where h1: "uart_print hw label h = Some h1" "sends (codes label) h h1" "uart_ready hw h1"
    by (rule print_codes [OF assms])
  obtain h2 where h2: "uart_print_number hw a h1 = Some h2" "sends (number_bytes a) h1 h2" "uart_ready hw h2"
    by (rule print_number_bytes [OF h1(3)])
  obtain h3 where h3: "uart_print hw label2 h2 = Some h3" "sends (codes label2) h2 h3" "uart_ready hw h3"
    by (rule print_codes [OF h2(3)])
  obtain h4 where h4: "uart_print_number hw b h3 = Some h4" "sends (number_bytes b) h3 h4" "uart_ready hw h4"
    by (rule print_number_bytes [OF h3(3)])
  obtain h5 where h5: "uart_print hw [CHR 0x0D, CHR 0x0A] h4 = Some h5"
    "sends (codes [CHR 0x0D, CHR 0x0A]) h4 h5" "uart_ready hw h5"
    by (rule print_codes [OF h4(3)])
  have crlf: "codes [CHR 0x0D, CHR 0x0A] = [13, 10]" by (simp add: codes_def char_code_def)
  note chain = sends_trans [OF h1(2) sends_trans [OF h2(2) sends_trans [OF h3(2) sends_trans [OF h4(2) h5(2)]]]]
  show ?thesis
    by (rule that [OF _ h5(3)]) (use h1(1) h2(1) h3(1) h4(1) h5(1) chain crlf in \<open>simp_all add: log_print_def\<close>)
qed

subsection \<open>The angles of the sweep\<close>

text \<open>
  The reference: homing from 90 degrees down to 0, then a triangle wave between 0 and 180,
  always in steps of 5.
\<close>

definition triangle :: "nat \<Rightarrow> nat" where
  "triangle k = (let j = k mod 72 in if j \<le> 36 then 5 * j else 5 * (72 - j))"

definition sweep_angle :: "nat \<Rightarrow> nat" where
  "sweep_angle i = (if i < 19 then 90 - 5 * i else triangle (i - 19))"

definition orbit :: "nat \<Rightarrow> u16 \<times> u16" where
  "orbit k = (sweep_turn ^^ k) (0, SWEEP_STEP_DEG)"

lemma orbit_0 [simp]: "orbit 0 = (0, SWEEP_STEP_DEG)"
  by (simp add: orbit_def)

lemma orbit_Suc: "orbit (Suc k) = sweep_turn (orbit k)"
  by (simp add: orbit_def)

text \<open>One period of the wave, computed, and the wave from it.\<close>

fun orbits_match :: "nat \<Rightarrow> nat \<Rightarrow> u16 \<times> u16 \<Rightarrow> bool" where
  "orbits_match 0 k p \<longleftrightarrow> p = (0, 5)"
| "orbits_match (Suc n) k p \<longleftrightarrow> unat (fst p) = triangle k \<and> orbits_match n (Suc k) (sweep_turn p)"

lemma orbits_match_numeral:
  "orbits_match (numeral n) k p \<longleftrightarrow>
     unat (fst p) = triangle k \<and> orbits_match (pred_numeral n) (Suc k) (sweep_turn p)"
  by (simp add: numeral_eq_Suc)

lemma one_period: "orbits_match 72 0 (0, 5)"
  by (simp add: orbits_match_numeral sweep_turn_def triangle_def SWEEP_STEP_DEG_def)

lemma orbits_match_orbit:
  "orbits_match n k (orbit k) \<Longrightarrow> orbit (k + n) = (0, 5) \<and> (\<forall>i<n. unat (fst (orbit (k + i))) = triangle (k + i))"
proof (induction n arbitrary: k)
  case (Suc n)
  then have "orbits_match n (Suc k) (orbit (Suc k))" by (simp add: orbit_Suc)
  from Suc.IH [OF this] have IH: "orbit (Suc k + n) = (0, 5)" "\<forall>i<n. unat (fst (orbit (Suc k + i))) = triangle (Suc k + i)"
    by blast+
  have "unat (fst (orbit (k + i))) = triangle (k + i)" if "i < Suc n" for i
    using that IH(2) Suc.prems by (cases i) simp_all
  with IH(1) show ?case by simp
qed simp

lemma orbit_period: "orbit (k + 72) = orbit k"
proof -
  have "orbit 72 = (0, SWEEP_STEP_DEG)"
    using orbits_match_orbit [of 72 0] one_period by (simp add: SWEEP_STEP_DEG_def)
  then show ?thesis by (simp add: orbit_def funpow_add)
qed

lemma orbit_triangle: "unat (fst (orbit k)) = triangle k"
proof (induction k rule: less_induct)
  case (less k)
  show ?case
  proof (cases "k < 72")
    case True
    then show ?thesis using orbits_match_orbit [of 72 0] one_period by (simp add: SWEEP_STEP_DEG_def)
  next
    case False
    then have k: "k = (k - 72) + 72" by simp
    have "unat (fst (orbit (k - 72))) = triangle (k - 72)" using False by (intro less) simp
    moreover have "triangle ((k - 72) + 72) = triangle (k - 72)" by (simp add: triangle_def)
    ultimately show ?thesis using k orbit_period by metis
  qed
qed

text \<open>
  Runs of the sweep task with any interference: each step starts on any board with the PWM
  period set. The list holds the pulse widths the task has commanded.
\<close>

definition pulses_between :: "board \<Rightarrow> board \<Rightarrow> u32 list" where
  "pulses_between b b' = drop (length (writes (TIM_CCR1 TIM3) (hst b))) (writes (TIM_CCR1 TIM3) (hst b'))"

inductive sweep_run :: "hardware \<Rightarrow> sweep_pc \<Rightarrow> u32 list \<Rightarrow> bool" for hw where
  start: "sweep_run hw W_lock []"
| later: "sweep_run hw pt ps \<Longrightarrow> 2000 \<le> unat (pwm_period_us b) \<Longrightarrow> sweep_step hw pt b = Some (pt', b') \<Longrightarrow>
    sweep_run hw pt' (ps @ pulses_between b b')"

text \<open>Where the task is after \<open>n\<close> pulses.\<close>

fun sweep_at :: "sweep_pc \<Rightarrow> nat \<Rightarrow> bool" where
  "sweep_at (W_home a) n \<longleftrightarrow> n \<le> 19 \<and> a = 90 - 5 * of_nat n"
| "sweep_at (W_home_delay a) n \<longleftrightarrow> 0 < n \<and> n \<le> 19 \<and> a = 95 - 5 * of_nat n"
| "sweep_at (W_set a d) n \<longleftrightarrow> 19 \<le> n \<and> (a, d) = orbit (n - 19)"
| "sweep_at (W_send a d _) n \<longleftrightarrow> 20 \<le> n \<and> (a, d) = orbit (n - 20)"
| "sweep_at (W_delay a d) n \<longleftrightarrow> 20 \<le> n \<and> (a, d) = orbit (n - 19)"
| "sweep_at _ n \<longleftrightarrow> n = 0"

definition pulse_word :: "nat \<Rightarrow> u32" where
  "pulse_word i = of_nat (pulse_of (sweep_angle i))"

text \<open>The homing angles, computed.\<close>

lemma below_20: "n \<le> 19 \<Longrightarrow> n \<in> {0, 1, 2, 3, 4, 5, 6, 7, 8, 9, 10, 11, 12, 13, 14, 15, 16, 17, 18, 19 :: nat}"
  by (simp add: atLeastAtMost_insertL [symmetric] le_Suc_eq eval_nat_numeral)

lemma homing_sign: "n \<le> 19 \<Longrightarrow> 0 \<le> sint (90 - 5 * of_nat n :: u16) \<longleftrightarrow> n < 19"
  by (drule below_20) (elim insertE emptyE; simp)

lemma homing_value:
  assumes "n < 19" shows "unat (90 - 5 * of_nat n :: u16) = 90 - 5 * n"
  using assms below_20 [OF less_imp_le [OF assms]] by (elim insertE emptyE; simp)

lemma on_history_writes:
  "on_history (uart_print hw str) b = Some b' \<Longrightarrow> writes (TIM_CCR1 TIM3) (hst b') = writes (TIM_CCR1 TIM3) (hst b)"
  using uart_print_writes [of hw str "hst b" _ "TIM_CCR1 TIM3"] by (auto simp: on_history_def)

lemma on_kernel_writes: "on_kernel f b = Some b' \<Longrightarrow> hst b' = hst b"
  by (auto simp: on_kernel_def)

lemma servo_pulse:
  assumes "2000 \<le> unat (pwm_period_us b)" "unat d = sweep_angle i"
  shows "pulses_between b (b\<lparr>hst := servo_set_angle (pwm_period_us b) d (hst b)\<rparr>) = [pulse_word i]"
  using assms by (simp add: servo_set_angle_eq pulses_between_def pulse_word_def)

text \<open>A step adds no pulse or the next one.\<close>

lemma sweep_step_at:
  assumes at: "sweep_at pt n" and b: "2000 \<le> unat (pwm_period_us b)"
    and step: "sweep_step hw pt b = Some (pt', b')"
  shows "pulses_between b b' = [] \<and> sweep_at pt' n \<or>
    pulses_between b b' = [pulse_word n] \<and> sweep_at pt' (Suc n)"
proof (cases pt)
  case W_lock
  with at step show ?thesis
    by (auto simp: lock_uart_def pulses_between_def Option.bind_eq_Some_conv dest: on_kernel_writes)
next
  case W_banner
  with at step show ?thesis
    by (auto simp: pulses_between_def Option.bind_eq_Some_conv dest: on_history_writes)
next
  case W_unlock
  with at step show ?thesis
    by (auto simp: unlock_uart_def pulses_between_def Option.bind_eq_Some_conv dest: on_kernel_writes)
next
  case (W_home a)
  with at have n: "n \<le> 19" and a: "a = 90 - 5 * of_nat n" by simp_all
  show ?thesis
  proof (cases "n < 19")
    case True
    with n a have "unat a = sweep_angle n" by (simp add: homing_value [of n] sweep_angle_def)
    with True n a step W_home homing_sign [OF n] servo_pulse [OF b] show ?thesis by auto
  next
    case False
    with n a step W_home homing_sign [OF n] show ?thesis
      by (auto simp: pulses_between_def Option.bind_eq_Some_conv dest: on_kernel_writes)
  qed
next
  case (W_home_delay a)
  with at step show ?thesis
    by (auto simp: pulses_between_def Option.bind_eq_Some_conv SWEEP_STEP_DEG_def dest: on_kernel_writes)
next
  case (W_set a d)
  with at have n: "19 \<le> n" and a: "a = fst (orbit (n - 19))" "(a, d) = orbit (n - 19)"
    by (simp_all, metis fst_conv)
  have "unat a = sweep_angle n" using n a(1) orbit_triangle by (simp add: sweep_angle_def)
  with n a(2) step W_set servo_pulse [OF b] show ?thesis by auto
next
  case (W_send a d q)
  with at have n: "20 \<le> n" and a: "(a, d) = orbit (n - 20)" by simp_all
  have next_turn: "orbit (n - 19) = sweep_turn (a, d)"
  proof -
    have "n - 19 = Suc (n - 20)" using n by simp
    then show ?thesis using a orbit_Suc [of "n - 20"] by simp
  qed
  show ?thesis
    using n a step W_send next_turn
    by (auto simp: pulses_between_def Option.bind_eq_Some_conv split: if_splits prod.splits)
next
  case (W_delay a d)
  with at step show ?thesis
    by (auto simp: pulses_between_def Option.bind_eq_Some_conv dest: on_kernel_writes)
qed

lemma pulse_word_bounds: "1000 \<le> pulse_word i" "pulse_word i \<le> 2000"
proof -
  have "unat (pulse_word i) = pulse_of (sweep_angle i)"
    using pulse_of_bounds(2) [of "sweep_angle i"] by (simp add: pulse_word_def unat_of_nat)
  with pulse_of_bounds [of "sweep_angle i"] show "1000 \<le> pulse_word i" "pulse_word i \<le> 2000"
    by (simp_all add: word_le_nat_alt)
qed

lemma sweep_run_inv: "sweep_run hw pt ps \<Longrightarrow> sweep_at pt (length ps) \<and> ps = map pulse_word [0..<length ps]"
proof (induction rule: sweep_run.induct)
  case (later pt ps b pt' b')
  from sweep_step_at [OF conjunct1 [OF later.IH] later.hyps(2,3)] later.IH show ?case by auto
qed simp

end
