(* ===== verification/Hardware_Samples.thy ===== *)
theory Hardware_Samples
  imports Device
begin

text \<open>
  The hardware on which the properties of the drivers are exercised: \<open>board_cmsis\<close> has the
  constants of the STM32F411, and the registers are plain storage except for the status
  flags that a witness names.
\<close>

subsection \<open>Concrete hardware\<close>

definition board_cmsis :: cmsis where
  "board_cmsis = \<lparr>GPIOA_BASE = 0x40020000, GPIOA = 0x40020000, GPIOB = 0x40020400,
     RCC_APB1ENR_TIM2EN = 1, RCC_APB1ENR_TIM3EN = 2, RCC_APB1ENR_I2C1EN = 0x200000,
     RCC_APB2ENR_ADC1EN = 0x100, RCC_APB2ENR_SPI1EN = 0x1000,
     TIM_CCMR1_OC1M = 0x70, TIM_CCMR1_OC1M_1 = 0x20, TIM_CCMR1_OC1M_2 = 0x40, TIM_CCMR1_OC1PE = 8,
     TIM_CCMR1_CC2S = 0x300, TIM_CCMR1_CC2S_0 = 0x100, TIM_CR1_ARPE = 0x80, TIM_CR1_CEN = 1,
     TIM_CCER_CC1E = 1, TIM_CCER_CC2E = 0x10, TIM_CCER_CC2P = 0x20, TIM_CCER_CC2NP = 0x80,
     TIM_EGR_UG = 1, TIM_DIER_CC2IE = 4, TIM_SR_CC2IF = 4, TIM2_IRQn = 28,
     ADC_CR2_ADON = 1, ADC_CR2_SWSTART = 0x40000000, ADC_SR_EOC = 2,
     I2C_CR1_SWRST = 0x8000, I2C_CR1_PE = 1, I2C_CR1_START = 0x100, I2C_CR1_STOP = 0x200,
     I2C_CR1_ACK = 0x400, I2C_SR1_SB = 1, I2C_SR1_ADDR = 2, I2C_SR1_TXE = 0x80, I2C_SR1_RXNE = 0x40,
     I2C_SR1_BTF = 4, I2C_SR2_BUSY = 2, SPI_CR1_BR_Pos = 3, SPI_CR1_CPHA = 1, SPI_CR1_CPOL = 2,
     SPI_CR1_MSTR = 4, SPI_CR1_SSM = 0x200, SPI_CR1_SSI = 0x100, SPI_CR1_SPE = 0x40,
     SPI_SR_TXE = 2, SPI_SR_RXNE = 1,
     CoreDebug_DEMCR_TRCENA_Msk = 0x1000000, DWT_CTRL_CYCCNTENA_Msk = 1\<rparr>"

text \<open>Registers that read as given whatever happened, the others plain and reset to 0.\<close>

definition with_flags :: "(reg \<Rightarrow> u32 option) \<Rightarrow> (reg \<Rightarrow> u32) \<Rightarrow> hardware" where
  "with_flags f v h r = (case f r of Some x \<Rightarrow> x | None \<Rightarrow> memory_like v h r)"

lemma with_flags_plain: "f r = None \<Longrightarrow> plain (with_flags f v) r"
  by (auto simp: plain_def with_flags_def memory_like_def held_def)

lemma with_flags_responsive: "f r = Some x \<Longrightarrow> x AND bits \<noteq> 0 \<Longrightarrow> responsive (with_flags f v) r bits"
  by (simp add: responsive_def with_flags_def)

definition plain_hw :: hardware where
  "plain_hw = with_flags Map.empty (\<lambda>_. 0xFFFFFFFF)"

lemma plain_plain_hw [simp]: "plain plain_hw r"
  by (simp add: plain_hw_def with_flags_plain)

end
