(* ===== verification/Startup.thy ===== *)
theory Startup
  imports Context_Switch
begin

text \<open>
  The start-up code, \<^verbatim>\<open>stm32f411_startup.c\<close>: the vector table with its weak handlers and
  \<^verbatim>\<open>Reset_Handler\<close>, which copies the initialised data and clears the rest before \<^verbatim>\<open>main\<close>.
  The section addresses come from the linker and are a parameter.
\<close>

subsection \<open>The vector table\<close>

text \<open>The handlers declared weak, each an alias of \<^verbatim>\<open>Default_Handler\<close>.\<close>

definition weak_handlers :: "string list" where
  "weak_handlers = [
     ''NMI_Handler'', ''HardFault_Handler'', ''MemManage_Handler'', ''BusFault_Handler'',
     ''UsageFault_Handler'', ''SVC_Handler'', ''DebugMon_Handler'', ''PendSV_Handler'',
     ''SysTick_Handler'', ''WWDG_IRQHandler'', ''PVD_IRQHandler'', ''TAMP_STAMP_IRQHandler'',
     ''RTC_WKUP_IRQHandler'', ''FLASH_IRQHandler'', ''RCC_IRQHandler'', ''EXTI0_IRQHandler'',
     ''EXTI1_IRQHandler'', ''EXTI2_IRQHandler'', ''EXTI3_IRQHandler'', ''EXTI4_IRQHandler'',
     ''DMA1_Stream0_IRQHandler'', ''DMA1_Stream1_IRQHandler'', ''DMA1_Stream2_IRQHandler'',
     ''DMA1_Stream3_IRQHandler'', ''DMA1_Stream4_IRQHandler'', ''DMA1_Stream5_IRQHandler'',
     ''DMA1_Stream6_IRQHandler'', ''ADC_IRQHandler'', ''EXTI9_5_IRQHandler'',
     ''TIM1_BRK_TIM9_IRQHandler'', ''TIM1_UP_TIM10_IRQHandler'',
     ''TIM1_TRG_COM_TIM11_IRQHandler'', ''TIM1_CC_IRQHandler'', ''TIM2_IRQHandler'',
     ''TIM3_IRQHandler'', ''TIM4_IRQHandler'', ''I2C1_EV_IRQHandler'', ''I2C1_ER_IRQHandler'',
     ''I2C2_EV_IRQHandler'', ''I2C2_ER_IRQHandler'', ''SPI1_IRQHandler'', ''SPI2_IRQHandler'',
     ''USART1_IRQHandler'', ''USART2_IRQHandler'', ''EXTI15_10_IRQHandler'',
     ''RTC_Alarm_IRQHandler'', ''OTG_FS_WKUP_IRQHandler'', ''DMA1_Stream7_IRQHandler'',
     ''SDIO_IRQHandler'', ''TIM5_IRQHandler'', ''SPI3_IRQHandler'', ''DMA2_Stream0_IRQHandler'',
     ''DMA2_Stream1_IRQHandler'', ''DMA2_Stream2_IRQHandler'', ''DMA2_Stream3_IRQHandler'',
     ''DMA2_Stream4_IRQHandler'', ''OTG_FS_IRQHandler'', ''DMA2_Stream5_IRQHandler'',
     ''DMA2_Stream6_IRQHandler'', ''DMA2_Stream7_IRQHandler'', ''USART6_IRQHandler'',
     ''I2C3_EV_IRQHandler'', ''I2C3_ER_IRQHandler'', ''FPU_IRQHandler'', ''SPI4_IRQHandler'',
     ''SPI5_IRQHandler'']"

text \<open>The table; a reserved entry is \<^term>\<open>None\<close>, the first is the initial stack pointer.\<close>

definition vector_tbl :: "string option list" where
  "vector_tbl = [
     Some ''_estack'', Some ''Reset_Handler'', Some ''NMI_Handler'', Some ''HardFault_Handler'',
     Some ''MemManage_Handler'', Some ''BusFault_Handler'', Some ''UsageFault_Handler'', None,
     None, None, None, Some ''SVC_Handler'', Some ''DebugMon_Handler'', None,
     Some ''PendSV_Handler'', Some ''SysTick_Handler'', Some ''WWDG_IRQHandler'',
     Some ''PVD_IRQHandler'', Some ''TAMP_STAMP_IRQHandler'', Some ''RTC_WKUP_IRQHandler'',
     Some ''FLASH_IRQHandler'', Some ''RCC_IRQHandler'', Some ''EXTI0_IRQHandler'',
     Some ''EXTI1_IRQHandler'', Some ''EXTI2_IRQHandler'', Some ''EXTI3_IRQHandler'',
     Some ''EXTI4_IRQHandler'', Some ''DMA1_Stream0_IRQHandler'',
     Some ''DMA1_Stream1_IRQHandler'', Some ''DMA1_Stream2_IRQHandler'',
     Some ''DMA1_Stream3_IRQHandler'', Some ''DMA1_Stream4_IRQHandler'',
     Some ''DMA1_Stream5_IRQHandler'', Some ''DMA1_Stream6_IRQHandler'', Some ''ADC_IRQHandler'',
     None, None, None, None, Some ''EXTI9_5_IRQHandler'', Some ''TIM1_BRK_TIM9_IRQHandler'',
     Some ''TIM1_UP_TIM10_IRQHandler'', Some ''TIM1_TRG_COM_TIM11_IRQHandler'',
     Some ''TIM1_CC_IRQHandler'', Some ''TIM2_IRQHandler'', Some ''TIM3_IRQHandler'',
     Some ''TIM4_IRQHandler'', Some ''I2C1_EV_IRQHandler'', Some ''I2C1_ER_IRQHandler'',
     Some ''I2C2_EV_IRQHandler'', Some ''I2C2_ER_IRQHandler'', Some ''SPI1_IRQHandler'',
     Some ''SPI2_IRQHandler'', Some ''USART1_IRQHandler'', Some ''USART2_IRQHandler'', None,
     Some ''EXTI15_10_IRQHandler'', Some ''RTC_Alarm_IRQHandler'',
     Some ''OTG_FS_WKUP_IRQHandler'', None, None, None, None, Some ''DMA1_Stream7_IRQHandler'',
     None, Some ''SDIO_IRQHandler'', Some ''TIM5_IRQHandler'', Some ''SPI3_IRQHandler'', None,
     None, None, None, Some ''DMA2_Stream0_IRQHandler'', Some ''DMA2_Stream1_IRQHandler'',
     Some ''DMA2_Stream2_IRQHandler'', Some ''DMA2_Stream3_IRQHandler'',
     Some ''DMA2_Stream4_IRQHandler'', None, None, None, None, None, None,
     Some ''OTG_FS_IRQHandler'', Some ''DMA2_Stream5_IRQHandler'',
     Some ''DMA2_Stream6_IRQHandler'', Some ''DMA2_Stream7_IRQHandler'',
     Some ''USART6_IRQHandler'', Some ''I2C3_EV_IRQHandler'', Some ''I2C3_ER_IRQHandler'', None,
     None, None, None, None, None, None, Some ''FPU_IRQHandler'', None, None,
     Some ''SPI4_IRQHandler'', Some ''SPI5_IRQHandler'']"

text \<open>The fallback: an empty loop without an exit. Its value is that it never returns.\<close>

partial_function (option) Default_Handler :: "kernel \<Rightarrow> kernel option" where
  "Default_Handler s = Default_Handler s"

lemma Default_Handler_never_returns: "Default_Handler s = None"
proof -
  have "Default_Handler s \<noteq> Some s'" for s'
    using Default_Handler.raw_induct [where P = "\<lambda>_ _. False"] by blast
  then show ?thesis by (cases "Default_Handler s") auto
qed

text \<open>
  Linking with a program that defines the symbols \<open>defined\<close>: a weak symbol that is not
  defined becomes \<^verbatim>\<open>Default_Handler\<close>, which never returns.
\<close>

definition link :: "string list \<Rightarrow> string \<Rightarrow> string option" where
  "link defined name =
     (if name \<in> set defined then Some name
      else if name \<in> set weak_handlers then Some ''Default_Handler'' else None)"

text \<open>The symbols of the firmware that the table refers to.\<close>

definition firmware_symbols :: "string list" where
  "firmware_symbols = [''_estack'', ''Reset_Handler'', ''SysTick_Handler'', ''PendSV_Handler'', ''TIM2_IRQHandler'']"

text \<open>The vectors that lead somewhere else than to \<^verbatim>\<open>Default_Handler\<close>.\<close>

definition live_vectors :: "string list \<Rightarrow> (nat \<times> string) list" where
  "live_vectors defined = concat (map (\<lambda>(i, v). case v of None \<Rightarrow> [] | Some n \<Rightarrow>
     (if link defined n = Some ''Default_Handler'' then [] else [(i, n)])) (enumerate 0 vector_tbl))"

subsection \<open>Reset\<close>

record sections =
  etext :: u32
  sdata :: u32
  edata :: u32
  sbss :: u32
  ebss :: u32

text \<open>The two loops, with \<open>n\<close> words left.\<close>

fun copy_words :: "nat \<Rightarrow> u32 \<Rightarrow> u32 \<Rightarrow> (u32 \<Rightarrow> u32) \<Rightarrow> (u32 \<Rightarrow> u32)" where
  "copy_words 0 p_src_mem p_dest_mem m = m"
| "copy_words (Suc n) p_src_mem p_dest_mem m =
     copy_words n (p_src_mem + 4) (p_dest_mem + 4) (m(p_dest_mem := m p_src_mem))"

fun zero_words :: "nat \<Rightarrow> u32 \<Rightarrow> (u32 \<Rightarrow> u32) \<Rightarrow> (u32 \<Rightarrow> u32)" where
  "zero_words 0 p_dest_mem m = m"
| "zero_words (Suc n) p_dest_mem m = zero_words n (p_dest_mem + 4) (m(p_dest_mem := 0))"

text \<open>Memory at the call of \<^verbatim>\<open>main\<close>.\<close>

definition Reset_Handler :: "sections \<Rightarrow> (u32 \<Rightarrow> u32) \<Rightarrow> (u32 \<Rightarrow> u32)" where
  "Reset_Handler l m =
     (let data_mem_size = edata l - sdata l;
          bss_mem_size = ebss l - sbss l;
          data_mem_size = data_mem_size div 4;
          bss_mem_size = bss_mem_size div 4;
          m = copy_words (unat data_mem_size) (etext l) (sdata l) m
      in zero_words (unat bss_mem_size) (sbss l) m)"

subsection \<open>What reset does to memory\<close>

definition in_words :: "u32 \<Rightarrow> nat \<Rightarrow> u32 \<Rightarrow> bool" where
  "in_words b n a \<longleftrightarrow> (\<exists>i<n. a = b + 4 * of_nat i)"

lemma in_words_Suc: "in_words b (Suc n) a \<longleftrightarrow> a = b \<or> in_words (b + 4) n a"
  unfolding in_words_def by (simp add: Ex_less_Suc2 algebra_simps)

lemma word_step_nonzero:
  assumes "i < 1073741823"
  shows "b + 4 + 4 * of_nat i \<noteq> (b :: u32)"
proof
  assume "b + 4 + 4 * of_nat i = b"
  then have "(of_nat (4 + 4 * i) :: u32) = 0" by (simp add: algebra_simps)
  moreover have "unat (of_nat (4 + 4 * i) :: u32) = 4 + 4 * i"
    using assms by (simp only: unat_of_nat) simp
  ultimately show False by simp
qed

lemma first_word_apart: "n < 1073741824 \<Longrightarrow> \<not> in_words (b + 4) n b"
  using word_step_nonzero [of _ b] by (force simp: in_words_def)

lemma copy_words_effect:
  assumes "n \<le> 1073741824" and "\<forall>a. in_words src n a \<longrightarrow> \<not> in_words dst n a"
  shows "i < n \<Longrightarrow> copy_words n src dst m (dst + 4 * of_nat i) = m (src + 4 * of_nat i)"
    and "\<not> in_words dst n a \<Longrightarrow> copy_words n src dst m a = m a"
proof -
  have "(\<forall>i<n. copy_words n src dst m (dst + 4 * of_nat i) = m (src + 4 * of_nat i)) \<and>
      (\<forall>a. \<not> in_words dst n a \<longrightarrow> copy_words n src dst m a = m a)"
    using assms
  proof (induction n arbitrary: src dst m)
    case (Suc n)
    let ?m = "m(dst := m src)"
    have apart: "\<forall>a. in_words (src + 4) n a \<longrightarrow> \<not> in_words (dst + 4) n a"
      and src: "\<forall>a. in_words (src + 4) n a \<longrightarrow> a \<noteq> dst"
      using Suc.prems(2) by (auto simp: in_words_Suc)
    have n: "n < 1073741824" "n \<le> 1073741824" using Suc.prems(1) by simp_all
    note IH = Suc.IH [OF n(2) apart, of ?m]
    have "copy_words (Suc n) src dst m (dst + 4 * of_nat i) = m (src + 4 * of_nat i)" if "i < Suc n" for i
    proof (cases i)
      case 0
      have "copy_words n (src + 4) (dst + 4) ?m dst = ?m dst"
        using IH first_word_apart [OF n(1), of dst] by blast
      with 0 show ?thesis by simp
    next
      case (Suc j)
      then have "src + 4 + 4 * of_nat j \<noteq> dst" using src that by (auto simp: in_words_def)
      then have "?m (src + 4 + 4 * of_nat j) = m (src + 4 + 4 * of_nat j)" by simp
      moreover have "copy_words n (src + 4) (dst + 4) ?m (dst + 4 + 4 * of_nat j) = ?m (src + 4 + 4 * of_nat j)"
        using IH Suc that by blast
      moreover have "b + 4 * of_nat i = b + 4 + 4 * of_nat j" for b :: u32 by (simp add: Suc algebra_simps)
      ultimately show ?thesis by (metis copy_words.simps(2))
    qed
    moreover have "copy_words (Suc n) src dst m a = m a" if "\<not> in_words dst (Suc n) a" for a
    proof -
      have a: "a \<noteq> dst" "\<not> in_words (dst + 4) n a" using that by (simp_all add: in_words_Suc)
      have "copy_words n (src + 4) (dst + 4) ?m a = ?m a" using IH a(2) by blast
      with a(1) show ?thesis by simp
    qed
    ultimately show ?case by blast
  qed simp
  then show "i < n \<Longrightarrow> copy_words n src dst m (dst + 4 * of_nat i) = m (src + 4 * of_nat i)"
    "\<not> in_words dst n a \<Longrightarrow> copy_words n src dst m a = m a" by blast+
qed

lemma zero_words_effect: "zero_words n dst m a = (if in_words dst n a then 0 else m a)"
proof (induction n arbitrary: dst m)
  case 0
  then show ?case by (simp add: in_words_def)
next
  case (Suc n)
  then show ?case by (auto simp: in_words_Suc)
qed

text \<open>The sections as sequences of words, and what the linker promises of them.\<close>

definition data_words :: "sections \<Rightarrow> nat" where
  "data_words l = unat (edata l - sdata l) div 4"

definition bss_words :: "sections \<Rightarrow> nat" where
  "bss_words l = unat (ebss l - sbss l) div 4"

definition layout_ok :: "sections \<Rightarrow> bool" where
  "layout_ok l \<longleftrightarrow>
     (\<forall>a. in_words (sdata l) (data_words l) a \<longrightarrow>
        \<not> in_words (etext l) (data_words l) a \<and> \<not> in_words (sbss l) (bss_words l) a)"

lemma Reset_Handler_eq:
  "Reset_Handler l m = zero_words (bss_words l) (sbss l) (copy_words (data_words l) (etext l) (sdata l) m)"
  by (simp add: Reset_Handler_def data_words_def bss_words_def unat_div Let_def)

lemma data_words_bound: "data_words l \<le> 1073741824"
  using unat_u32_less [of "edata l - sdata l"] by (simp add: data_words_def)

end
