(* ===== verification/Driver_Properties.thy ===== *)
theory Driver_Properties
  imports Tasks Hardware_Samples Startup Samples
begin

text \<open>
  The properties of the UART, the pins, the servo with the sweep task, the ultrasonic ranger
  and the start-up code.
\<close>

subsection \<open>The UART\<close>

text \<open>C38: a number printed on an enabled UART is transmitted as its decimal digits: at most ten
  ASCII digits, no leading zero, which read back as the number; nothing else is written.\<close>
theorem number_roundtrip:
  assumes "uart_ready hw h"
  shows "\<exists>h' bs. uart_print_number hw num h = Some h' \<and> sends bs h h' \<and> parse_decimal bs = unat num \<and>
    (\<forall>b\<in>set bs. 48 \<le> b \<and> b \<le> 57) \<and> bs \<noteq> [] \<and> length bs \<le> 10 \<and> (num \<noteq> 0 \<longrightarrow> hd bs \<noteq> 48)"
proof -
  obtain h' where "uart_print_number hw num h = Some h'" "sends (number_bytes num) h h'"
    using uart_print_number_sends [OF assms] unfolding number_bytes_def by metis
  moreover have "\<forall>b\<in>set (number_bytes num). 48 \<le> b \<and> b \<le> 57"
    by (auto simp: word_le_nat_alt elim!: number_bytes_digit)
  ultimately show ?thesis
    using number_bytes_parse [of num] number_bytes_length [of num] number_bytes_head [of num]
    by (intro exI [of _ h'] exI [of _ "number_bytes num"]) simp
qed

definition uart_hw :: hardware where
  "uart_hw = with_flags [USART2_SR \<mapsto> 0x80] (\<lambda>r. if r = USART2_CR1 then 0x2008 else 0)"

lemma uart_ready_hw: "uart_ready uart_hw []"
  by (auto simp: uart_ready_def uart_hw_def SR_TXE_def CR1_UE_def intro!: with_flags_plain with_flags_responsive)
    (simp add: with_flags_def memory_like_def held_def)

theorem number_roundtrip_witness:
  "\<exists>h' bs. uart_print_number uart_hw 4294967295 [] = Some h' \<and> sends bs [] h' \<and>
    parse_decimal bs = unat (4294967295 :: u32) \<and>
    (\<forall>b\<in>set bs. 48 \<le> b \<and> b \<le> 57) \<and> bs \<noteq> [] \<and> length bs \<le> 10 \<and> ((4294967295 :: u32) \<noteq> 0 \<longrightarrow> hd bs \<noteq> 48)"
  by (rule number_roundtrip [OF uart_ready_hw])

subsection \<open>The pins\<close>

text \<open>Configuring a pin sets the mode and pull fields of that pin to the requested ones, and
  its alternate function when the mode asks for it, leaves the fields of the fifteen other
  pins of the port as they were, and writes no register of another port.\<close>
theorem gpio_config_one_pin:
  assumes pin: "pin < 16" and port: "port_ok c port" and af: "af < 16"
    and plain: "plain hw (GPIO_MODER port)" "plain hw (GPIO_PUPDR port)" "plain hw (GPIO_AFR port (drop_bit 3 pin))"
  shows "\<exists>h'. gpio_config c hw port pin mode af pull h = Some h' \<and>
    (\<forall>p. field 2 p (hw h' (GPIO_MODER port)) =
       (if p = unat pin then mode_code mode else field 2 p (hw h (GPIO_MODER port)))) \<and>
    (\<forall>p. field 2 p (hw h' (GPIO_PUPDR port)) =
       (if p = unat pin then pull_code pull else field 2 p (hw h (GPIO_PUPDR port)))) \<and>
    (mode = GPIO_AF \<longrightarrow> (\<forall>p. field 4 p (hw h' (GPIO_AFR port (drop_bit 3 pin))) =
       (if p = unat pin mod 8 then ucast af else field 4 p (hw h (GPIO_AFR port (drop_bit 3 pin)))))) \<and>
    (\<forall>r. r \<notin> config_regs port \<longrightarrow> writes r h' = writes r h)"
proof -
  obtain h' where h': "gpio_config c hw port pin mode af pull h = Some h'"
    "\<And>r. r \<notin> config_regs port \<Longrightarrow> writes r h' = writes r h"
    "plain hw (GPIO_MODER port) \<Longrightarrow>
       hw h' (GPIO_MODER port) = put_field 2 (unat pin) (mode_code mode) (hw h (GPIO_MODER port))"
    "plain hw (GPIO_PUPDR port) \<Longrightarrow>
       hw h' (GPIO_PUPDR port) = put_field 2 (unat pin) (pull_code pull) (hw h (GPIO_PUPDR port))"
    "mode = GPIO_AF \<Longrightarrow> plain hw (GPIO_AFR port (drop_bit 3 pin)) \<Longrightarrow>
       hw h' (GPIO_AFR port (drop_bit 3 pin)) =
         put_field 4 (unat pin mod 8) (ucast af) (hw h (GPIO_AFR port (drop_bit 3 pin)))"
    using gpio_config_eq [OF pin port] by metis
  have two: "2 * unat pin + 2 \<le> 32" using pin_nat [OF pin] by simp
  have four: "4 * (unat pin mod 8) + 4 \<le> 32" using mod_less_divisor [of 8 "unat pin"] by simp
  have "unat af < 16" using af by (simp add: word_less_nat_alt)
  then have afw: "take_bit 4 (ucast af :: u32) = ucast af"
    by (simp add: word_unat_eq_iff unsigned_take_bit_eq unsigned_ucast_eq take_bit_nat_eq_self)
  show ?thesis
    using h' plain field_put_field [OF take_bit_mode_code two] field_put_field [OF take_bit_pull_code two]
      field_put_field [OF afw four]
    by (intro exI [of _ h']) simp
qed

theorem gpio_config_one_pin_witness:
  "\<exists>h'. gpio_config board_cmsis plain_hw 0x40020400 9 GPIO_AF 4 GPIO_PULLUP [] = Some h' \<and>
    (\<forall>p. field 2 p (plain_hw h' (GPIO_MODER 0x40020400)) =
       (if p = unat (9 :: u8) then mode_code GPIO_AF else field 2 p (plain_hw [] (GPIO_MODER 0x40020400)))) \<and>
    (\<forall>p. field 2 p (plain_hw h' (GPIO_PUPDR 0x40020400)) =
       (if p = unat (9 :: u8) then pull_code GPIO_PULLUP else field 2 p (plain_hw [] (GPIO_PUPDR 0x40020400)))) \<and>
    (GPIO_AF = GPIO_AF \<longrightarrow> (\<forall>p. field 4 p (plain_hw h' (GPIO_AFR 0x40020400 (drop_bit 3 9))) =
       (if p = unat (9 :: u8) mod 8 then ucast (4 :: u8)
        else field 4 p (plain_hw [] (GPIO_AFR 0x40020400 (drop_bit 3 9)))))) \<and>
    (\<forall>r. r \<notin> config_regs 0x40020400 \<longrightarrow> writes r h' = writes r [])"
  by (rule gpio_config_one_pin) (simp_all add: port_ok_def board_cmsis_def)

subsection \<open>The servo and the sweep\<close>

text \<open>C13: whatever other tasks, interrupts and devices do between its steps, the pulses the sweep
  task commands are, one after the other, those of the reference wave: homing from 90 degrees
  to 0 in steps of 5, then a triangle between 0 and 180, each angle as 1000 to 2000 us.\<close>
theorem sweep_follows_reference:
  assumes "sweep_run hw pt ps"
  shows "ps = map pulse_word [0..<length ps] \<and> (\<forall>p\<in>set ps. 1000 \<le> p \<and> p \<le> 2000)"
proof
  show eq: "ps = map pulse_word [0..<length ps]" using sweep_run_inv [OF assms] by blast
  show "\<forall>p\<in>set ps. 1000 \<le> p \<and> p \<le> 2000"
    using pulse_word_bounds by (subst eq) auto
qed

text \<open>Three steps to the first pulse, on a board where the lock is free and the UART is off.\<close>

definition start_board :: board where
  "start_board = \<lparr>krn = fresh, ech = echo_zero, pwm_period_us = 20000, hst = []\<rparr>"

definition off_hw :: hardware where
  "off_hw = with_flags [USART2_CR1 \<mapsto> 0] (\<lambda>_. 0)"

lemma uart_print_off: "\<exists>h'. uart_print off_hw str h = Some h'"
proof (induction str arbitrary: h)
  case (Cons ch str)
  have "io_putchar off_hw (char_code ch) h = Some (- 1, h @ [Rd USART2_CR1])"
    by (rule io_putchar_off) (simp add: off_hw_def with_flags_def)
  with Cons show ?case by simp
qed simp

lemma sweep_run_start: "sweep_run off_hw (W_home_delay 90) [pulse_word 0]"
proof -
  have lock: "mutexes fresh uart_lock = Some idle_mutex" "lock idle_mutex = 0"
    by (simp_all add: fresh_def uart_lock_def idle_mutex_def)
  obtain b1 where b1: "sweep_step off_hw W_lock start_board = Some (W_banner, b1)"
    using mutex_acquire_free [OF lock, of WAIT_FOREVER] by (simp add: lock_uart_def on_kernel_def start_board_def)
  obtain b2 where b2: "sweep_step off_hw W_banner start_board = Some (W_unlock, b2)"
    using uart_print_off [of banner "[]"] by (auto simp: on_history_def start_board_def)
  have "waiters fresh (MutexQ uart_lock) = []" by (simp add: fresh_def waiters_sample uart_lock_def idle_mutex_def)
  then obtain b3 where b3: "sweep_step off_hw W_unlock start_board = Some (W_home 90, b3)"
    using mutex_release_last(1) [OF kinv_fresh lock(1)] by (auto simp: unlock_uart_def on_kernel_def start_board_def)
  let ?b4 = "start_board\<lparr>hst := servo_set_angle (pwm_period_us start_board) 90 (hst start_board)\<rparr>"
  have b4: "sweep_step off_hw (W_home 90) start_board = Some (W_home_delay 90, ?b4)" by simp
  have period: "2000 \<le> unat (pwm_period_us start_board)" by (simp add: start_board_def)
  have none: "pulses_between start_board b = []" if "sweep_step off_hw pt start_board = Some (pt', b)"
      "sweep_at pt 0" "sweep_at pt' 0" "\<not> sweep_at pt' 1" for pt pt' b
    using sweep_step_at [OF that(2) period that(1)] that(4) by auto
  have "sweep_run off_hw W_banner []"
    using sweep_run.later [OF sweep_run.start period b1] none [OF b1] by simp
  then have "sweep_run off_hw W_unlock []"
    using sweep_run.later [OF _ period b2] none [OF b2] by fastforce
  then have "sweep_run off_hw (W_home 90) []"
    using sweep_run.later [OF _ period b3] none [OF b3] by fastforce
  moreover have "pulses_between start_board ?b4 = [pulse_word 0]"
    by (rule servo_pulse [OF period]) (simp add: sweep_angle_def)
  ultimately show ?thesis using sweep_run.later [OF _ period b4] by fastforce
qed

theorem sweep_follows_reference_witness:
  "sweep_run off_hw (W_home_delay 90) [1500] \<and> [1500] = map pulse_word [0..<1] \<and> (1000 :: u32) \<le> 1500"
proof -
  have first: "pulse_word 0 = 1500" by (simp add: pulse_word_def pulse_of_def sweep_angle_def)
  show ?thesis using sweep_follows_reference [OF sweep_run_start] sweep_run_start by (simp add: first)
qed

subsection \<open>The ultrasonic ranger\<close>

text \<open>C14: a read of the ranger parks its task; two captures \<open>d\<close> microseconds apart, whatever the
  counter wrapped in between, make the task ready again, and it then returns \<open>d div 58\<close>
  centimetres; no token is left over for the next read.\<close>
theorem echo_measures_distance:
  assumes inv: "kinv s" "running s r" "kernel_running s" and ms: "timeout \<noteq> 0"
    and sem: "sems s echo_ready = Some x" "sem_count x = 0" "waiters s (SemQ echo_ready) = []"
    and h1: "h1 = h @ [Wr (GPIO_BSRR (GPIOA c)) 1, Pause 40, Wr (GPIO_BSRR (GPIOA c)) 0x10000]"
    and edges: "edge_at c hw h1 t" "edge_at c hw (after_edge h1) (t + of_nat d)" and d: "d < 2 ^ 32"
  shows "\<exists>e1 s1 w2 w3 cm. ultrasonic_read_cm c timeout (e, s, h) = Some (None, e1, s1, h1) \<and>
    state (os_tasks s1 ! r) = BLOCKED \<and>
    TIM2_IRQHandler c hw (e1, s1, h1) = Some w2 \<and> TIM2_IRQHandler c hw w2 = Some w3 \<and>
    state (os_tasks (fst (snd w3)) ! r) = READY \<and> ultrasonic_resume w3 = Some cm \<and> unat cm = d div 58 \<and>
    (\<exists>x'. sems (fst (snd w3)) echo_ready = Some x' \<and> sem_count x' = 0)"
proof -
  obtain s1 s2 where s: "os_semaphore_acquire echo_ready timeout s = Some (Parked, s1)"
    "os_semaphore_release echo_ready s1 = Some s2" "kinv s2" "state (os_tasks s1 ! r) = BLOCKED"
    "state (os_tasks s2 ! r) = READY" "wait_result (os_tasks s2 ! r) = OS_SUCCESS"
    "\<forall>t. t \<noteq> r \<longrightarrow> os_tasks s2 ! t = os_tasks s ! t" "r < length (os_tasks s2)"
    "current_tcb s2 = Some r" "waiters s2 (SemQ echo_ready) = []"
    "\<exists>x'. sems s2 echo_ready = Some x' \<and> sem_count x' = 0"
    by (rule park_then_post [OF inv ms sem])
  let ?e1 = "e\<lparr>waiting_for_rising := 1\<rparr>"
  let ?e2 = "?e1\<lparr>time_start := t, waiting_for_rising := 0\<rparr>"
  let ?e3 = "?e2\<lparr>time_end := t + of_nat d, waiting_for_rising := 1\<rparr>"
  have read: "ultrasonic_read_cm c timeout (e, s, h) = Some (None, ?e1, s1, h1)"
    using s(1) by (simp add: ultrasonic_read_cm_def ultrasonic_trigger_eq h1)
  have up: "TIM2_IRQHandler c hw (?e1, s1, h1) = Some (?e2, s1, after_edge h1)"
    using rising_edge [OF edges(1), of ?e1 s1] by simp
  have down: "TIM2_IRQHandler c hw (?e2, s1, after_edge h1) = Some (?e3, s2, after_edge (after_edge h1))"
    using falling_edge [OF edges(2), of ?e2 s1] s(2) by simp
  have "ultrasonic_resume (?e3, s2, after_edge (after_edge h1)) = Some (echo_cm OS_SUCCESS ?e3)"
    using s(6,8,9) by (simp add: ultrasonic_resume_def os_resume_result_def get_tcb_def)
  moreover have "unat (echo_cm OS_SUCCESS ?e3) = d div 58"
    by (rule echo_cm_width [OF d]) simp
  ultimately show ?thesis using read up down s(4,5,11) by fastforce
qed

text \<open>A pulse of 580 us across the wrap of the counter: 10 cm.\<close>

definition echo_hw :: hardware where
  "echo_hw h r = (if r = TIM_SR TIM2 then 4
     else if r = TIM_CCR2 TIM2 then (if length h < 5 then 0xFFFFFFF0 else 0xFFFFFFF0 + 580) else 0)"

theorem echo_measures_distance_witness:
  "\<exists>h1 e1 s1 w2 w3 cm. ultrasonic_read_cm board_cmsis 60 (echo_zero, fresh, []) = Some (None, e1, s1, h1) \<and>
    state (os_tasks s1 ! 0) = BLOCKED \<and>
    TIM2_IRQHandler board_cmsis echo_hw (e1, s1, h1) = Some w2 \<and>
    TIM2_IRQHandler board_cmsis echo_hw w2 = Some w3 \<and>
    state (os_tasks (fst (snd w3)) ! 0) = READY \<and> ultrasonic_resume w3 = Some cm \<and> unat cm = 580 div 58 \<and>
    (\<exists>x'. sems (fst (snd w3)) echo_ready = Some x' \<and> sem_count x' = 0)"
proof (rule exI, rule echo_measures_distance [OF kinv_fresh _ _ _ _ _ _ refl, where x = "sample_sem 0 1 []"
    and t = "0xFFFFFFF0"])
  show "edge_at board_cmsis echo_hw ([] @ [Wr (GPIO_BSRR (GPIOA board_cmsis)) 1, Pause 40,
      Wr (GPIO_BSRR (GPIOA board_cmsis)) 0x10000]) 0xFFFFFFF0"
    "edge_at board_cmsis echo_hw (after_edge ([] @ [Wr (GPIO_BSRR (GPIOA board_cmsis)) 1, Pause 40,
      Wr (GPIO_BSRR (GPIOA board_cmsis)) 0x10000])) (0xFFFFFFF0 + of_nat 580)"
    by (simp_all add: edge_at_def echo_hw_def board_cmsis_def after_edge_def)
qed (simp_all add: fresh_def running_def waiters_sample echo_ready_def sample_sem_def)

subsection \<open>Start-up\<close>

text \<open>C39: in a layout whose sections do not overlap, when \<^verbatim>\<open>main\<close> is called every word of the
  data section holds its initial value from flash, every word of the bss section is zero, and
  every other word of memory is as before.\<close>
theorem reset_initialises_memory:
  assumes "layout_ok l"
  shows "(\<forall>i<data_words l. Reset_Handler l m (sdata l + 4 * of_nat i) = m (etext l + 4 * of_nat i)) \<and>
    (\<forall>a. in_words (sbss l) (bss_words l) a \<longrightarrow> Reset_Handler l m a = 0) \<and>
    (\<forall>a. \<not> in_words (sbss l) (bss_words l) a \<longrightarrow> \<not> in_words (sdata l) (data_words l) a \<longrightarrow>
       Reset_Handler l m a = m a)"
proof -
  have apart: "\<forall>a. in_words (etext l) (data_words l) a \<longrightarrow> \<not> in_words (sdata l) (data_words l) a"
    using assms by (auto simp: layout_ok_def)
  have data: "\<not> in_words (sbss l) (bss_words l) (sdata l + 4 * of_nat i)" if "i < data_words l" for i
    using assms that unfolding layout_ok_def in_words_def by blast
  show ?thesis
    using data copy_words_effect [OF data_words_bound apart]
    by (simp add: Reset_Handler_eq zero_words_effect)
qed

definition sample_layout :: sections where
  "sample_layout = \<lparr>etext = 0x08004000, sdata = 0x20000000, edata = 0x20000004,
     sbss = 0x20000004, ebss = 0x20000010\<rparr>"

theorem reset_initialises_memory_witness:
  "map (Reset_Handler sample_layout (\<lambda>a. a)) [0x20000000, 0x20000004, 0x2000000C, 0x20000010] =
    [0x08004000, 0, 0, 0x20000010]"
proof -
  have "layout_ok sample_layout"
    by (simp add: layout_ok_def sample_layout_def data_words_def bss_words_def in_words_def
        numeral_3_eq_3 All_less_Suc)
  then have w: "\<forall>i<1. Reset_Handler sample_layout (\<lambda>a. a) (0x20000000 + 4 * of_nat i) = 0x08004000 + 4 * of_nat i"
    "\<forall>a. in_words 0x20000004 3 a \<longrightarrow> Reset_Handler sample_layout (\<lambda>a. a) a = 0"
    "\<forall>a. \<not> in_words 0x20000004 3 a \<longrightarrow> \<not> in_words 0x20000000 1 a \<longrightarrow>
       Reset_Handler sample_layout (\<lambda>a. a) a = a"
    using reset_initialises_memory [of sample_layout "\<lambda>a. a"]
    by (simp_all add: sample_layout_def data_words_def bss_words_def)
  have "in_words 0x20000004 3 0x20000004" "in_words 0x20000004 3 0x2000000C"
    "\<not> in_words 0x20000004 3 0x20000010" "\<not> in_words 0x20000000 1 0x20000010"
    by (simp_all add: in_words_def numeral_3_eq_3 Ex_less_Suc)
  with w show ?thesis by simp
qed

text \<open>The vectors that reach code of the firmware are the initial stack, reset, PendSV at
  exception 14, SysTick at 15 and TIM2 at 16 + 28; every other vector that is not reserved ends
  in the endless loop of \<^verbatim>\<open>Default_Handler\<close>, and none is left unresolved by the linker.\<close>
theorem vectors_reach_handlers:
  "live_vectors firmware_symbols = [(0, ''_estack''), (1, ''Reset_Handler''), (14, ''PendSV_Handler''),
     (15, ''SysTick_Handler''), (44, ''TIM2_IRQHandler'')] \<and>
   length vector_tbl = 16 + 86 \<and> filter (\<lambda>n. link firmware_symbols n = None) (map the (filter (\<lambda>v. v \<noteq> None) vector_tbl)) = []"
  by code_simp

end
