(* ===== verification/Spi.thy ===== *)
theory Spi
  imports Gpio
begin

text \<open>The polled SPI master, \<^verbatim>\<open>Drivers/Src/spi.c\<close>.\<close>

subsection \<open>The model\<close>

definition SPI_CS_PIN :: u8 where "SPI_CS_PIN = 6"

definition spi_cs_select :: "cmsis \<Rightarrow> history \<Rightarrow> history option" where
  "spi_cs_select c h = gpio_write (GPIOB c) SPI_CS_PIN False h"

definition spi_cs_deselect :: "cmsis \<Rightarrow> history \<Rightarrow> history option" where
  "spi_cs_deselect c h = gpio_write (GPIOB c) SPI_CS_PIN True h"

definition spi_init :: "cmsis \<Rightarrow> hardware \<Rightarrow> u8 \<Rightarrow> u8 \<Rightarrow> history \<Rightarrow> history option" where
  "spi_init c hw baud_div mode h = do {
     let h = set_bits hw RCC_APB2ENR (RCC_APB2ENR_SPI1EN c) h;
     h \<leftarrow> gpio_config c hw (GPIOB c) 3 GPIO_AF 5 GPIO_NOPULL h;
     h \<leftarrow> gpio_config c hw (GPIOB c) 4 GPIO_AF 5 GPIO_NOPULL h;
     h \<leftarrow> gpio_config c hw (GPIOB c) 5 GPIO_AF 5 GPIO_NOPULL h;
     h \<leftarrow> gpio_config c hw (GPIOB c) SPI_CS_PIN GPIO_OUTPUT 0 GPIO_NOPULL h;
     h \<leftarrow> spi_cs_deselect c h;
     let h = store SPI1_CR1 0 h;
     m \<leftarrow> shl (ucast (baud_div AND 0x7)) (SPI_CR1_BR_Pos c);
     let h = set_bits hw SPI1_CR1 m h;
     let h = (if mode AND 0x1 \<noteq> 0 then set_bits hw SPI1_CR1 (SPI_CR1_CPHA c) h else h);
     let h = (if mode AND 0x2 \<noteq> 0 then set_bits hw SPI1_CR1 (SPI_CR1_CPOL c) h else h);
     let h = set_bits hw SPI1_CR1 (SPI_CR1_MSTR c OR SPI_CR1_SSM c OR SPI_CR1_SSI c) h;
     Some (set_bits hw SPI1_CR1 (SPI_CR1_SPE c) h) }"

text \<open>The data register is accessed as a byte, which moves one frame.\<close>

definition spi_transfer :: "cmsis \<Rightarrow> hardware \<Rightarrow> u8 \<Rightarrow> history \<Rightarrow> (u8 \<times> history) option" where
  "spi_transfer c hw tx h = do {
     h \<leftarrow> await hw SPI1_SR (SPI_SR_TXE c) h;
     let h = store SPI1_DR (ucast tx) h;
     h \<leftarrow> await hw SPI1_SR (SPI_SR_RXNE c) h;
     let (v, h) = load hw SPI1_DR h;
     Some (ucast v, h) }"

text \<open>The loops, from index \<open>i\<close> with \<open>n\<close> bytes left.\<close>

fun spi_write_loop :: "cmsis \<Rightarrow> hardware \<Rightarrow> u8 list \<Rightarrow> nat \<Rightarrow> nat \<Rightarrow> history \<Rightarrow> history option" where
  "spi_write_loop c hw data i 0 h = Some h"
| "spi_write_loop c hw data i (Suc n) h = do {
     b \<leftarrow> rd data i;
     (_, h1) \<leftarrow> spi_transfer c hw b h;
     spi_write_loop c hw data (i + 1) n h1 }"

fun spi_read_loop :: "cmsis \<Rightarrow> hardware \<Rightarrow> nat \<Rightarrow> nat \<Rightarrow> u8 list \<Rightarrow> history \<Rightarrow> (u8 list \<times> history) option" where
  "spi_read_loop c hw i 0 data h = Some (data, h)"
| "spi_read_loop c hw i (Suc n) data h = do {
     (b, h1) \<leftarrow> spi_transfer c hw 0xFF h;
     data1 \<leftarrow> wr data i b;
     spi_read_loop c hw (i + 1) n data1 h1 }"

definition spi_write :: "cmsis \<Rightarrow> hardware \<Rightarrow> u8 list \<Rightarrow> u32 \<Rightarrow> history \<Rightarrow> history option" where
  "spi_write c hw data len h = spi_write_loop c hw data 0 (unat len) h"

definition spi_read :: "cmsis \<Rightarrow> hardware \<Rightarrow> u8 list \<Rightarrow> u32 \<Rightarrow> history \<Rightarrow> (u8 list \<times> history) option" where
  "spi_read c hw data len h = spi_read_loop c hw 0 (unat len) data h"

subsection \<open>Full duplex exchange\<close>

text \<open>
  \<open>exchanged hw bs rs h h'\<close>: from \<open>h\<close> to \<open>h'\<close> the bytes \<open>bs\<close> were put into the data register,
  the values \<open>rs\<close> were read from it, and nothing else was written.
\<close>

definition spi_ready :: "cmsis \<Rightarrow> hardware \<Rightarrow> bool" where
  "spi_ready c hw \<longleftrightarrow> responsive hw SPI1_SR (SPI_SR_TXE c) \<and> responsive hw SPI1_SR (SPI_SR_RXNE c)"

definition exchanged :: "hardware \<Rightarrow> u8 list \<Rightarrow> u8 list \<Rightarrow> history \<Rightarrow> history \<Rightarrow> bool" where
  "exchanged hw bs rs h h' \<longleftrightarrow>
     writes SPI1_DR h' = writes SPI1_DR h @ map ucast bs \<and>
     map ucast (reads hw SPI1_DR h') = map ucast (reads hw SPI1_DR h) @ rs \<and>
     (\<forall>r. r \<noteq> SPI1_DR \<longrightarrow> writes r h' = writes r h)"

lemma exchanged_refl [simp]: "exchanged hw [] [] h h"
  by (simp add: exchanged_def)

lemma exchanged_trans:
  "exchanged hw bs rs h h1 \<Longrightarrow> exchanged hw cs ss h1 h2 \<Longrightarrow> exchanged hw (bs @ cs) (rs @ ss) h h2"
  by (simp add: exchanged_def)

lemma spi_transfer_exchanges:
  assumes "spi_ready c hw"
  obtains rx h' where "spi_transfer c hw tx h = Some (rx, h')" "exchanged hw [tx] [rx] h h'"
proof -
  from assms have r: "responsive hw SPI1_SR (SPI_SR_TXE c)" "responsive hw SPI1_SR (SPI_SR_RXNE c)"
    by (simp_all add: spi_ready_def)
  obtain h1 where h1: "await hw SPI1_SR (SPI_SR_TXE c) h = Some h1" "\<forall>r. writes r h1 = writes r h"
    "\<forall>r. r \<noteq> SPI1_SR \<longrightarrow> reads hw r h1 = reads hw r h" by (rule await_responsive [OF r(1)])
  let ?h2 = "store SPI1_DR (ucast tx) h1"
  obtain h3 where h3: "await hw SPI1_SR (SPI_SR_RXNE c) ?h2 = Some h3" "\<forall>r. writes r h3 = writes r ?h2"
    "\<forall>r. r \<noteq> SPI1_SR \<longrightarrow> reads hw r h3 = reads hw r ?h2" by (rule await_responsive [OF r(2)])
  show ?thesis
    by (rule that [of "ucast (hw h3 SPI1_DR)" "h3 @ [Rd SPI1_DR]"])
      (use h1 h3 in \<open>simp_all add: spi_transfer_def load_def exchanged_def\<close>)
qed

lemma spi_write_loop_exchanges:
  assumes "spi_ready c hw" "i + n \<le> length data"
  obtains rs h' where "spi_write_loop c hw data i n h = Some h'" "exchanged hw (take n (drop i data)) rs h h'"
  using assms(2)
proof (induction n arbitrary: i h thesis)
  case 0
  show ?case by (rule 0(1) [of h "[]"]) simp_all
next
  case (Suc n)
  obtain rx h1 where h1: "spi_transfer c hw (data ! i) h = Some (rx, h1)" "exchanged hw [data ! i] [rx] h h1"
    by (rule spi_transfer_exchanges [OF assms(1)])
  obtain rs h' where h': "spi_write_loop c hw data (i + 1) n h1 = Some h'"
    "exchanged hw (take n (drop (i + 1) data)) rs h1 h'"
    using Suc.IH [of "i + 1" h1] Suc.prems(2) by auto
  show ?case
    by (rule Suc.prems(1) [of h']) (use Suc.prems(2) h1 h'(1) exchanged_trans [OF h1(2) h'(2)] in
        \<open>simp_all add: Cons_nth_drop_Suc [symmetric]\<close>)
qed

lemma spi_read_loop_exchanges:
  assumes "spi_ready c hw" "i + n \<le> length data"
  obtains rs h' where "spi_read_loop c hw i n data h = Some (take i data @ rs @ drop (i + n) data, h')"
    "length rs = n" "exchanged hw (replicate n 0xFF) rs h h'"
  using assms(2)
proof (induction n arbitrary: i data h thesis)
  case 0
  then show ?case by simp
next
  case (Suc n)
  obtain rx h1 where h1: "spi_transfer c hw 0xFF h = Some (rx, h1)" "exchanged hw [0xFF] [rx] h h1"
    by (rule spi_transfer_exchanges [OF assms(1)])
  obtain rs h' where h': "spi_read_loop c hw (i + 1) n (data[i := rx]) h1 =
      Some (take (i + 1) (data[i := rx]) @ rs @ drop (i + 1 + n) (data[i := rx]), h')"
    "length rs = n" "exchanged hw (replicate n 0xFF) rs h1 h'"
    using Suc.IH [of "i + 1" "data[i := rx]" h1] Suc.prems(2) by auto
  show ?case
    by (rule Suc.prems(1) [of "rx # rs" h']) (use Suc.prems(2) h1 h' exchanged_trans [OF h1(2) h'(3)] in
        \<open>simp_all add: take_Suc_update\<close>)
qed

end
