(* ===== verification/I2c.thy ===== *)
theory I2c
  imports Gpio
begin

text \<open>
  The I2C master, \<^verbatim>\<open>Drivers/Src/i2c.c\<close>. Every wait for a flag has a budget, so each
  operation is a total function; it has no result only where the C code reads or writes
  outside the caller's buffer.
\<close>

subsection \<open>The model\<close>

definition I2C_OK :: u8 where "I2C_OK = 0"
definition I2C_ERROR :: u8 where "I2C_ERROR = 1"
definition I2C_PCLK_MHZ :: u32 where "I2C_PCLK_MHZ = 16"
definition I2C_TIMEOUT :: u32 where "I2C_TIMEOUT = 100000"

lemma ok_not_error [simp]: "I2C_OK \<noteq> I2C_ERROR" "I2C_ERROR \<noteq> I2C_OK"
  by (simp_all add: I2C_OK_def I2C_ERROR_def)

text \<open>The loop of \<^verbatim>\<open>wait_flag\<close> with \<open>n\<close> tries left.\<close>

fun wait_loop :: "hardware \<Rightarrow> reg \<Rightarrow> u32 \<Rightarrow> bool \<Rightarrow> nat \<Rightarrow> history \<Rightarrow> u8 \<times> history" where
  "wait_loop hw r bits flag 0 h = (I2C_ERROR, h)"
| "wait_loop hw r bits flag (Suc n) h =
     (case load hw r h of (v, h1) \<Rightarrow>
        if (v AND bits \<noteq> 0) = flag then (I2C_OK, h1) else wait_loop hw r bits flag n h1)"

definition wait_flag :: "hardware \<Rightarrow> reg \<Rightarrow> u32 \<Rightarrow> bool \<Rightarrow> history \<Rightarrow> u8 \<times> history" where
  "wait_flag hw r bits flag h = wait_loop hw r bits flag (unat I2C_TIMEOUT) h"

definition i2c_init :: "cmsis \<Rightarrow> hardware \<Rightarrow> history \<Rightarrow> history option" where
  "i2c_init c hw h = do {
     let h = set_bits hw RCC_APB1ENR (RCC_APB1ENR_I2C1EN c) h;
     h \<leftarrow> gpio_config c hw (GPIOB c) 8 GPIO_AF 4 GPIO_PULLUP h;
     h \<leftarrow> gpio_config c hw (GPIOB c) 9 GPIO_AF 4 GPIO_PULLUP h;
     h \<leftarrow> gpio_set_open_drain hw (GPIOB c) 8 h;
     h \<leftarrow> gpio_set_open_drain hw (GPIOB c) 9 h;
     let h = store I2C1_CR1 (I2C_CR1_SWRST c) h;
     let h = store I2C1_CR1 0 h;
     let h = store I2C1_CR2 I2C_PCLK_MHZ h;
     let h = store I2C1_CCR ((I2C_PCLK_MHZ * 1000000) div (2 * 100000)) h;
     let h = store I2C1_TRISE (I2C_PCLK_MHZ + 1) h;
     Some (set_bits hw I2C1_CR1 (I2C_CR1_PE c) h) }"

definition addr_byte :: "u8 \<Rightarrow> bool \<Rightarrow> u32" where
  "addr_byte addr reading = ucast (push_bit 1 addr OR (if reading then 1 else 0))"

definition i2c_start :: "cmsis \<Rightarrow> hardware \<Rightarrow> u8 \<Rightarrow> bool \<Rightarrow> history \<Rightarrow> u8 \<times> history" where
  "i2c_start c hw addr reading h =
     (let h1 = set_bits hw I2C1_CR1 (I2C_CR1_START c) h;
          (r, h2) = wait_flag hw I2C1_SR1 (I2C_SR1_SB c) True h1
      in if r \<noteq> I2C_OK then (I2C_ERROR, h2)
      else let h3 = store I2C1_DR (addr_byte addr reading) h2;
               (r, h4) = wait_flag hw I2C1_SR1 (I2C_SR1_ADDR c) True h3
      in if r \<noteq> I2C_OK then (I2C_ERROR, set_bits hw I2C1_CR1 (I2C_CR1_STOP c) h4)
      else let (_, h5) = load hw I2C1_SR1 h4; (_, h6) = load hw I2C1_SR2 h5
      in (I2C_OK, h6))"

text \<open>The loops, at index \<open>i\<close> with \<open>n\<close> bytes left.\<close>

fun i2c_write_loop :: "cmsis \<Rightarrow> hardware \<Rightarrow> u8 list \<Rightarrow> nat \<Rightarrow> nat \<Rightarrow> history \<Rightarrow> (u8 \<times> history) option" where
  "i2c_write_loop c hw data i 0 h = Some (I2C_OK, h)"
| "i2c_write_loop c hw data i (Suc n) h =
     (case wait_flag hw I2C1_SR1 (I2C_SR1_TXE c) True h of (r, h1) \<Rightarrow>
        if r \<noteq> I2C_OK then Some (I2C_ERROR, h1)
        else do {
          b \<leftarrow> rd data i;
          i2c_write_loop c hw data (i + 1) n (store I2C1_DR (ucast b) h1) })"

definition i2c_write :: "cmsis \<Rightarrow> hardware \<Rightarrow> u8 \<Rightarrow> u8 list \<Rightarrow> u32 \<Rightarrow> history \<Rightarrow> (u8 \<times> history) option" where
  "i2c_write c hw addr data len h =
     (let (r, h1) = wait_flag hw I2C1_SR2 (I2C_SR2_BUSY c) False h
      in if r \<noteq> I2C_OK then Some (I2C_ERROR, h1)
      else let (r, h2) = i2c_start c hw addr False h1
      in if r \<noteq> I2C_OK then Some (I2C_ERROR, h2)
      else do {
        (r, h3) \<leftarrow> i2c_write_loop c hw data 0 (unat len) h2;
        if r \<noteq> I2C_OK then Some (I2C_ERROR, h3)
        else let (r, h4) = wait_flag hw I2C1_SR1 (I2C_SR1_BTF c) True h3
        in if r \<noteq> I2C_OK then Some (I2C_ERROR, h4)
        else Some (I2C_OK, set_bits hw I2C1_CR1 (I2C_CR1_STOP c) h4) })"

fun i2c_read_loop ::
    "cmsis \<Rightarrow> hardware \<Rightarrow> nat \<Rightarrow> nat \<Rightarrow> nat \<Rightarrow> u8 list \<Rightarrow> history \<Rightarrow> (u8 \<times> u8 list \<times> history) option" where
  "i2c_read_loop c hw len i 0 data h = Some (I2C_OK, data, h)"
| "i2c_read_loop c hw len i (Suc n) data h =
     (let h1 = (if i + 1 = len
                then set_bits hw I2C1_CR1 (I2C_CR1_STOP c) (clear_bits hw I2C1_CR1 (I2C_CR1_ACK c) h)
                else h);
          (r, h2) = wait_flag hw I2C1_SR1 (I2C_SR1_RXNE c) True h1
      in if r \<noteq> I2C_OK then Some (I2C_ERROR, data, h2)
      else let (v, h3) = load hw I2C1_DR h2
      in do {
        data1 \<leftarrow> wr data i (ucast v);
        i2c_read_loop c hw len (i + 1) n data1 h3 })"

definition i2c_read ::
    "cmsis \<Rightarrow> hardware \<Rightarrow> u8 \<Rightarrow> u8 list \<Rightarrow> u32 \<Rightarrow> history \<Rightarrow> (u8 \<times> u8 list \<times> history) option" where
  "i2c_read c hw addr data len h =
     (if len = 0 then Some (I2C_OK, data, h)
      else let (r, h1) = wait_flag hw I2C1_SR2 (I2C_SR2_BUSY c) False h
      in if r \<noteq> I2C_OK then Some (I2C_ERROR, data, h1)
      else let h2 = set_bits hw I2C1_CR1 (I2C_CR1_ACK c) h1;
               (r, h3) = i2c_start c hw addr True h2
      in if r \<noteq> I2C_OK then Some (I2C_ERROR, data, h3)
      else i2c_read_loop c hw (unat len) 0 (unat len) data h3)"

definition i2c_read_reg ::
    "cmsis \<Rightarrow> hardware \<Rightarrow> u8 \<Rightarrow> u8 \<Rightarrow> u8 list \<Rightarrow> u32 \<Rightarrow> history \<Rightarrow> (u8 \<times> u8 list \<times> history) option" where
  "i2c_read_reg c hw addr reg data len h =
     (let (r, h1) = wait_flag hw I2C1_SR2 (I2C_SR2_BUSY c) False h
      in if r \<noteq> I2C_OK then Some (I2C_ERROR, data, h1)
      else let (r, h2) = i2c_start c hw addr False h1
      in if r \<noteq> I2C_OK then Some (I2C_ERROR, data, h2)
      else let (r, h3) = wait_flag hw I2C1_SR1 (I2C_SR1_TXE c) True h2
      in if r \<noteq> I2C_OK then Some (I2C_ERROR, data, h3)
      else let h4 = store I2C1_DR (ucast reg) h3;
               (r, h5) = wait_flag hw I2C1_SR1 (I2C_SR1_BTF c) True h4
      in if r \<noteq> I2C_OK then Some (I2C_ERROR, data, h5)
      else i2c_read c hw addr data len h5)"

subsection \<open>Waiting\<close>

text \<open>A wait only polls its own register, at most its budget of times.\<close>

lemma wait_loop_effect:
  obtains k ok where "wait_loop hw r bits flag n h = (if ok then I2C_OK else I2C_ERROR, h @ replicate k (Rd r))"
    "k \<le> n"
proof -
  have "\<exists>k ok. wait_loop hw r bits flag n h = (if ok then I2C_OK else I2C_ERROR, h @ replicate k (Rd r)) \<and> k \<le> n"
  proof (induction n arbitrary: h)
    case (Suc n)
    from Suc.IH [of "h @ [Rd r]"] obtain k ok where k: "wait_loop hw r bits flag n (h @ [Rd r]) =
      (if ok then I2C_OK else I2C_ERROR, h @ replicate (Suc k) (Rd r))" "k \<le> n" by auto
    show ?case
    proof (cases "(hw h r AND bits \<noteq> 0) = flag")
      case True
      then show ?thesis by (intro exI [of _ 1] exI [of _ True]) (simp add: load_def)
    next
      case False
      with k show ?thesis by (intro exI [of _ "Suc k"] exI [of _ ok]) (simp add: load_def)
    qed
  qed (auto intro: exI [of _ False])
  with that show ?thesis by blast
qed

lemma seen_replicate_Rd: "r \<noteq> r' \<Longrightarrow> seen r (replicate n (Rd r')) = []"
  by (induction n) simp_all

lemma wait_flag_effect:
  assumes "r \<noteq> I2C1_DR"
  obtains ok h' where "wait_flag hw r bits flag h = (if ok then I2C_OK else I2C_ERROR, h')"
    "seen I2C1_DR h' = seen I2C1_DR h" "reads hw I2C1_DR h' = reads hw I2C1_DR h"
    "length h' \<le> length h + 100000"
proof -
  obtain k ok where k: "wait_loop hw r bits flag (unat I2C_TIMEOUT) h =
    (if ok then I2C_OK else I2C_ERROR, h @ replicate k (Rd r))" "k \<le> unat I2C_TIMEOUT"
    by (rule wait_loop_effect)
  show ?thesis
    by (rule that [of ok "h @ replicate k (Rd r)"])
      (use k assms in \<open>simp_all add: wait_flag_def I2C_TIMEOUT_def seen_replicate_Rd reads_replicate_Rd\<close>)
qed

lemma polled: "I2C1_SR1 \<noteq> I2C1_DR" "I2C1_SR2 \<noteq> I2C1_DR"
  by simp_all

lemma wait_loop_never:
  "\<forall>k. (hw (h @ replicate k (Rd r)) r AND bits \<noteq> 0) \<noteq> flag \<Longrightarrow>
   wait_loop hw r bits flag n h = (I2C_ERROR, h @ replicate n (Rd r))"
proof (induction n arbitrary: h)
  case (Suc n)
  have "(hw h r AND bits \<noteq> 0) \<noteq> flag" using Suc.prems [rule_format, of 0] by simp
  moreover have "wait_loop hw r bits flag n (h @ [Rd r]) = (I2C_ERROR, (h @ [Rd r]) @ replicate n (Rd r))"
  proof (rule Suc.IH, rule allI)
    fix k
    show "(hw ((h @ [Rd r]) @ replicate k (Rd r)) r AND bits \<noteq> 0) \<noteq> flag"
      using Suc.prems [rule_format, of "Suc k"] by simp
  qed
  ultimately show ?case by (simp add: load_def)
qed simp

subsection \<open>Start condition and address\<close>

text \<open>The three ways \<^verbatim>\<open>i2c_start\<close> ends: no start condition, no acknowledge, success.\<close>

lemma i2c_start_cases:
  obtains (no_start) h' a where "i2c_start c hw addr reading h = (I2C_ERROR, h')"
      "seen I2C1_DR h' = seen I2C1_DR h @ [Wr I2C1_CR1 (a OR I2C_CR1_START c)]"
      "length h' \<le> length h + 200008"
  | (nack) h' a b where "i2c_start c hw addr reading h = (I2C_ERROR, h')"
      "seen I2C1_DR h' = seen I2C1_DR h @ [Wr I2C1_CR1 (a OR I2C_CR1_START c),
         Wr I2C1_DR (addr_byte addr reading), Wr I2C1_CR1 (b OR I2C_CR1_STOP c)]"
      "length h' \<le> length h + 200008"
  | (addressed) h' a where "i2c_start c hw addr reading h = (I2C_OK, h')"
      "seen I2C1_DR h' = seen I2C1_DR h @ [Wr I2C1_CR1 (a OR I2C_CR1_START c),
         Wr I2C1_DR (addr_byte addr reading)]"
      "reads hw I2C1_DR h' = reads hw I2C1_DR h" "length h' \<le> length h + 200008"
proof -
  define h1 where "h1 = set_bits hw I2C1_CR1 (I2C_CR1_START c) h"
  obtain ok2 h2 where w2: "wait_flag hw I2C1_SR1 (I2C_SR1_SB c) True h1 = (if ok2 then I2C_OK else I2C_ERROR, h2)"
    "seen I2C1_DR h2 = seen I2C1_DR h1" "reads hw I2C1_DR h2 = reads hw I2C1_DR h1"
    "length h2 \<le> length h1 + 100000"
    by (rule wait_flag_effect [OF polled(1)])
  define h3 where "h3 = store I2C1_DR (addr_byte addr reading) h2"
  obtain ok4 h4 where w4: "wait_flag hw I2C1_SR1 (I2C_SR1_ADDR c) True h3 = (if ok4 then I2C_OK else I2C_ERROR, h4)"
    "seen I2C1_DR h4 = seen I2C1_DR h3" "reads hw I2C1_DR h4 = reads hw I2C1_DR h3"
    "length h4 \<le> length h3 + 100000"
    by (rule wait_flag_effect [OF polled(1)])
  note eq = i2c_start_def Let_def h1_def [symmetric] w2(1) h3_def [symmetric] w4(1)
  have len: "length h1 \<le> length h + 2" "length h3 = Suc (length h2)" by (simp_all add: h1_def h3_def)
  show ?thesis
  proof (cases ok2)
    case False
    show ?thesis
      by (rule no_start [of h2 "hw h I2C1_CR1"])
        (use False w2 len in \<open>simp_all add: eq\<close>, simp_all add: h1_def)
  next
    case True
    show ?thesis
    proof (cases ok4)
      case False
      show ?thesis
        by (rule nack [of "set_bits hw I2C1_CR1 (I2C_CR1_STOP c) h4" "hw h I2C1_CR1" "hw h4 I2C1_CR1"])
          (use True False w2 w4 len in \<open>simp_all add: eq\<close>, simp_all add: h1_def h3_def)
    next
      case ok4: True
      show ?thesis
        by (rule addressed [of "(h4 @ [Rd I2C1_SR1]) @ [Rd I2C1_SR2]" "hw h I2C1_CR1"])
          (use True ok4 w2 w4 len in \<open>simp_all add: eq load_def del: append_assoc\<close>,
            simp_all add: h1_def h3_def)
    qed
  qed
qed

subsection \<open>Writing\<close>

lemma i2c_write_loop_effect:
  assumes "i + n \<le> length data"
  obtains k h' where
    "i2c_write_loop c hw data i n h = Some (if k = n then I2C_OK else I2C_ERROR, h')" "k \<le> n"
    "seen I2C1_DR h' = seen I2C1_DR h @ map (\<lambda>b. Wr I2C1_DR (ucast b)) (take k (drop i data))"
    "length h' \<le> length h + n * 100001 + 100000"
  using assms
proof (induction n arbitrary: i h thesis)
  case 0
  show ?case by (rule 0(1) [of 0 h]) simp_all
next
  case (Suc n)
  obtain ok h1 where w: "wait_flag hw I2C1_SR1 (I2C_SR1_TXE c) True h = (if ok then I2C_OK else I2C_ERROR, h1)"
    "seen I2C1_DR h1 = seen I2C1_DR h" "reads hw I2C1_DR h1 = reads hw I2C1_DR h"
    "length h1 \<le> length h + 100000"
    by (rule wait_flag_effect [OF polled(1)])
  show ?case
  proof (cases ok)
    case False
    show ?thesis by (rule Suc.prems(1) [of 0 h1]) (use False w in simp_all)
  next
    case True
    let ?h2 = "store I2C1_DR (ucast (data ! i)) h1"
    obtain k h' where h': "i2c_write_loop c hw data (i + 1) n ?h2 = Some (if k = n then I2C_OK else I2C_ERROR, h')"
      "k \<le> n" "seen I2C1_DR h' = seen I2C1_DR ?h2 @ map (\<lambda>b. Wr I2C1_DR (ucast b)) (take k (drop (i + 1) data))"
      "length h' \<le> length ?h2 + n * 100001 + 100000"
      using Suc.IH [of "i + 1" ?h2] Suc.prems(2) by auto
    show ?thesis
      by (rule Suc.prems(1) [of "Suc k" h'])
        (use True w h' Suc.prems(2) in \<open>simp_all add: Cons_nth_drop_Suc [symmetric]\<close>)
  qed
qed

text \<open>What a master write puts on the bus, up to the values of the other control bits.\<close>

definition start_phase :: "cmsis \<Rightarrow> u8 \<Rightarrow> bool \<Rightarrow> access list \<Rightarrow> bool" where
  "start_phase c addr reading w \<longleftrightarrow>
     (\<exists>a. w = [Wr I2C1_CR1 (a OR I2C_CR1_START c), Wr I2C1_DR (addr_byte addr reading)])"

definition stop_phase :: "cmsis \<Rightarrow> access list \<Rightarrow> bool" where
  "stop_phase c w \<longleftrightarrow> (\<exists>b. w = [Wr I2C1_CR1 (b OR I2C_CR1_STOP c)])"

lemma start_phaseI [intro]:
  "start_phase c addr reading [Wr I2C1_CR1 (a OR I2C_CR1_START c), Wr I2C1_DR (addr_byte addr reading)]"
  unfolding start_phase_def by blast

lemma stop_phaseI [intro]: "stop_phase c [Wr I2C1_CR1 (b OR I2C_CR1_STOP c)]"
  unfolding stop_phase_def by blast

definition bytes_out :: "u8 list \<Rightarrow> access list" where
  "bytes_out bs = map (\<lambda>b. Wr I2C1_DR (ucast b)) bs"

text \<open>
  A failed write stopped before the start condition, without one, on a missing acknowledge
  (the only failure that releases the bus), or after some of the bytes.
\<close>

definition write_failed :: "cmsis \<Rightarrow> u8 \<Rightarrow> u8 list \<Rightarrow> access list \<Rightarrow> bool" where
  "write_failed c addr bs w \<longleftrightarrow>
     w = [] \<or> (\<exists>a. w = [Wr I2C1_CR1 (a OR I2C_CR1_START c)]) \<or>
     (\<exists>w1 w2. w = w1 @ w2 \<and> start_phase c addr False w1 \<and> stop_phase c w2) \<or>
     (\<exists>w1 k. w = w1 @ bytes_out (take k bs) \<and> start_phase c addr False w1 \<and> k \<le> length bs)"

lemma write_failed_nack: "start_phase c addr False w1 \<Longrightarrow> stop_phase c w2 \<Longrightarrow> write_failed c addr bs (w1 @ w2)"
  unfolding write_failed_def by blast

lemma write_failed_bytes:
  "start_phase c addr False w1 \<Longrightarrow> k \<le> length bs \<Longrightarrow> write_failed c addr bs (w1 @ bytes_out (take k bs))"
  unfolding write_failed_def by blast

lemma i2c_write_cases:
  assumes len: "unat len \<le> length data"
  obtains (ok) h' w1 w2 where "i2c_write c hw addr data len h = Some (I2C_OK, h')"
      "seen I2C1_DR h' = seen I2C1_DR h @ w1 @ bytes_out (take (unat len) data) @ w2"
      "start_phase c addr False w1" "stop_phase c w2" "length h' \<le> length h + unat len * 100001 + 500020"
  | (error) h' w where "i2c_write c hw addr data len h = Some (I2C_ERROR, h')"
      "seen I2C1_DR h' = seen I2C1_DR h @ w" "write_failed c addr (take (unat len) data) w"
      "length h' \<le> length h + unat len * 100001 + 500020"
proof -
  obtain ok1 h1 where w1: "wait_flag hw I2C1_SR2 (I2C_SR2_BUSY c) False h = (if ok1 then I2C_OK else I2C_ERROR, h1)"
    "seen I2C1_DR h1 = seen I2C1_DR h" "reads hw I2C1_DR h1 = reads hw I2C1_DR h"
    "length h1 \<le> length h + 100000"
    by (rule wait_flag_effect [OF polled(2)])
  show ?thesis
  proof (cases ok1)
    case False
    show ?thesis
      by (rule error [of h1 "[]"]) (use False w1 in \<open>simp_all add: i2c_write_def write_failed_def\<close>)
  next
    case ok1: True
    show ?thesis
    proof (cases rule: i2c_start_cases [of c hw addr False h1])
      case (no_start h2 a)
      show ?thesis
        by (rule error [of h2 "[Wr I2C1_CR1 (a OR I2C_CR1_START c)]"])
          (use ok1 w1 no_start in \<open>auto simp: i2c_write_def write_failed_def\<close>)
    next
      case (nack h2 a b)
      have "write_failed c addr (take (unat len) data)
          ([Wr I2C1_CR1 (a OR I2C_CR1_START c), Wr I2C1_DR (addr_byte addr False)] @
           [Wr I2C1_CR1 (b OR I2C_CR1_STOP c)])"
        by (rule write_failed_nack) (rule start_phaseI stop_phaseI)+
      then show ?thesis
        by (rule error [of h2, rotated 2]) (use ok1 w1 nack in \<open>simp_all add: i2c_write_def\<close>)
    next
      case (addressed h2 a)
      let ?w = "[Wr I2C1_CR1 (a OR I2C_CR1_START c), Wr I2C1_DR (addr_byte addr False)]"
      have phase: "start_phase c addr False ?w" by (rule start_phaseI)
      obtain k h3 where h3: "i2c_write_loop c hw data 0 (unat len) h2 =
          Some (if k = unat len then I2C_OK else I2C_ERROR, h3)" "k \<le> unat len"
        "seen I2C1_DR h3 = seen I2C1_DR h2 @ map (\<lambda>b. Wr I2C1_DR (ucast b)) (take k (drop 0 data))"
        "length h3 \<le> length h2 + unat len * 100001 + 100000"
        using i2c_write_loop_effect [of 0 "unat len" data c hw h2] len by (metis add_0)
      have failed: "write_failed c addr (take (unat len) data) (?w @ bytes_out (take k data))"
        using write_failed_bytes [OF phase, of k "take (unat len) data"] h3(2) len by (simp add: min_absorb1)
      obtain ok4 h4 where w4: "wait_flag hw I2C1_SR1 (I2C_SR1_BTF c) True h3 = (if ok4 then I2C_OK else I2C_ERROR, h4)"
        "seen I2C1_DR h4 = seen I2C1_DR h3" "reads hw I2C1_DR h4 = reads hw I2C1_DR h3"
        "length h4 \<le> length h3 + 100000"
        by (rule wait_flag_effect [OF polled(1)])
      show ?thesis
      proof (cases "k = unat len")
        case False
        show ?thesis
          by (rule error [OF _ _ failed, of h3])
            (use False ok1 w1 addressed h3 in \<open>simp_all add: i2c_write_def bytes_out_def\<close>)
      next
        case k: True
        show ?thesis
        proof (cases ok4)
          case False
          show ?thesis
            by (rule error [OF _ _ failed, of h4])
              (use False k ok1 w1 addressed h3 w4 in \<open>simp_all add: i2c_write_def bytes_out_def\<close>)
        next
          case True
          show ?thesis
            by (rule ok [OF _ _ phase, of "set_bits hw I2C1_CR1 (I2C_CR1_STOP c) h4"
                  "[Wr I2C1_CR1 (hw h4 I2C1_CR1 OR I2C_CR1_STOP c)]"])
              (use True k ok1 w1 addressed h3 w4 stop_phaseI in \<open>simp_all add: i2c_write_def bytes_out_def\<close>)
        qed
      qed
    qed
  qed
qed

subsection \<open>Reading\<close>

text \<open>
  What reading \<open>n\<close> bytes puts on the bus: the acknowledge is withdrawn and the stop
  condition queued before the last byte is read.
\<close>

definition read_phase :: "cmsis \<Rightarrow> nat \<Rightarrow> access list \<Rightarrow> bool" where
  "read_phase c n w \<longleftrightarrow> (if n = 0 then w = [] else \<exists>x y. w = replicate (n - 1) (Rd I2C1_DR) @
     [Wr I2C1_CR1 (x AND NOT (I2C_CR1_ACK c)), Wr I2C1_CR1 (y OR I2C_CR1_STOP c), Rd I2C1_DR])"

lemma read_phase_0 [simp]: "read_phase c 0 w \<longleftrightarrow> w = []"
  by (simp add: read_phase_def)

lemma read_phase_1:
  "read_phase c (Suc 0) [Wr I2C1_CR1 (x AND NOT (I2C_CR1_ACK c)), Wr I2C1_CR1 (y OR I2C_CR1_STOP c), Rd I2C1_DR]"
  by (auto simp: read_phase_def)

lemma read_phase_Suc: "0 < n \<Longrightarrow> read_phase c n w \<Longrightarrow> read_phase c (Suc n) (Rd I2C1_DR # w)"
  by (cases n) (auto simp: read_phase_def)

lemma i2c_read_loop_cases:
  assumes "i + n = len" "len \<le> length data"
  obtains (ok) h' w vs where
    "i2c_read_loop c hw len i n data h = Some (I2C_OK, take i data @ map ucast vs @ drop len data, h')"
    "length vs = n" "reads hw I2C1_DR h' = reads hw I2C1_DR h @ vs"
    "seen I2C1_DR h' = seen I2C1_DR h @ w" "read_phase c n w" "length h' \<le> length h + n * 100010"
  | (error) data' h' where "i2c_read_loop c hw len i n data h = Some (I2C_ERROR, data', h')"
    "length data' = length data" "length h' \<le> length h + n * 100010"
  using assms
proof (induction n arbitrary: i data h thesis)
  case 0
  show ?case by (rule 0(1) [of "[]" h "[]"]) (use 0(3,4) in simp_all)
next
  case (Suc n)
  define h1 where "h1 = (if i + 1 = len
      then set_bits hw I2C1_CR1 (I2C_CR1_STOP c) (clear_bits hw I2C1_CR1 (I2C_CR1_ACK c) h) else h)"
  have unroll: "i2c_read_loop c hw len i (Suc n) data h =
      (case wait_flag hw I2C1_SR1 (I2C_SR1_RXNE c) True h1 of (r, h2) \<Rightarrow>
        if r \<noteq> I2C_OK then Some (I2C_ERROR, data, h2)
        else case load hw I2C1_DR h2 of (v, h3) \<Rightarrow> do {
          data1 \<leftarrow> wr data i (ucast v);
          i2c_read_loop c hw len (i + 1) n data1 h3 })"
    by (simp only: i2c_read_loop.simps Let_def h1_def)
  have len1: "length h1 \<le> length h + 4" by (simp add: h1_def)
  have reads1: "reads hw I2C1_DR h1 = reads hw I2C1_DR h" by (simp add: h1_def)
  obtain okw h2 where w: "wait_flag hw I2C1_SR1 (I2C_SR1_RXNE c) True h1 = (if okw then I2C_OK else I2C_ERROR, h2)"
    "seen I2C1_DR h2 = seen I2C1_DR h1" "reads hw I2C1_DR h2 = reads hw I2C1_DR h1"
    "length h2 \<le> length h1 + 100000"
    by (rule wait_flag_effect [OF polled(1)])
  show ?case
  proof (cases okw)
    case False
    show ?thesis
      by (rule Suc.prems(2) [of data h2]) (use False w len1 in \<open>simp_all add: unroll del: i2c_read_loop.simps\<close>)
  next
    case True
    let ?h3 = "h2 @ [Rd I2C1_DR]" and ?v = "ucast (hw h2 I2C1_DR)"
    have i: "i < length data" "i + 1 + n = len" "len \<le> length (data[i := ?v])" using Suc.prems(3,4) by simp_all
    have loop: "i2c_read_loop c hw len i (Suc n) data h = i2c_read_loop c hw len (i + 1) n (data[i := ?v]) ?h3"
      using True w i(1) by (simp add: unroll load_def del: i2c_read_loop.simps)
    show ?thesis
    proof (rule Suc.IH [of "i + 1" "data[i := ?v]" ?h3])
      fix h' w' vs
      assume h': "i2c_read_loop c hw len (i + 1) n (data[i := ?v]) ?h3 =
          Some (I2C_OK, take (i + 1) (data[i := ?v]) @ map ucast vs @ drop len (data[i := ?v]), h')"
        "length vs = n" "reads hw I2C1_DR h' = reads hw I2C1_DR ?h3 @ vs"
        "seen I2C1_DR h' = seen I2C1_DR ?h3 @ w'" "read_phase c n w'" "length h' \<le> length ?h3 + n * 100010"
      let ?w = "if n = 0 then [Wr I2C1_CR1 (hw h I2C1_CR1 AND NOT (I2C_CR1_ACK c)),
          Wr I2C1_CR1 (hw (clear_bits hw I2C1_CR1 (I2C_CR1_ACK c) h) I2C1_CR1 OR I2C_CR1_STOP c), Rd I2C1_DR]
        else Rd I2C1_DR # w'"
      have "seen I2C1_DR h' = seen I2C1_DR h @ ?w"
        using h'(4,5) w(2) Suc.prems(3) by (auto simp: h1_def)
      moreover have "read_phase c (Suc n) ?w"
        using h'(5) by (simp add: read_phase_1 read_phase_Suc)
      ultimately show thesis
        by (rule Suc.prems(1) [of "hw h2 I2C1_DR # vs" h' ?w, rotated 3])
          (use loop h' w len1 reads1 i in \<open>simp_all add: take_Suc_update\<close>)
    next
      fix data' h'
      assume "i2c_read_loop c hw len (i + 1) n (data[i := ?v]) ?h3 = Some (I2C_ERROR, data', h')"
        "length data' = length (data[i := ?v])" "length h' \<le> length ?h3 + n * 100010"
      with loop w len1 show thesis by (intro Suc.prems(2) [of data' h']) simp_all
    qed (use i in simp_all)
  qed
qed

text \<open>A master read of a transfer, and what it returns.\<close>

lemma i2c_read_cases:
  assumes len: "unat len \<le> length data" and pos: "len \<noteq> 0"
  obtains (ok) h' a w1 w2 vs where
    "i2c_read c hw addr data len h = Some (I2C_OK, map ucast vs @ drop (unat len) data, h')"
    "length vs = unat len" "reads hw I2C1_DR h' = reads hw I2C1_DR h @ vs"
    "seen I2C1_DR h' = seen I2C1_DR h @ Wr I2C1_CR1 (a OR I2C_CR1_ACK c) # w1 @ w2"
    "start_phase c addr True w1" "read_phase c (unat len) w2"
    "length h' \<le> length h + unat len * 100010 + 300020"
  | (error) data' h' where "i2c_read c hw addr data len h = Some (I2C_ERROR, data', h')"
    "length data' = length data" "length h' \<le> length h + unat len * 100010 + 300020"
proof -
  obtain ok1 h1 where w1: "wait_flag hw I2C1_SR2 (I2C_SR2_BUSY c) False h = (if ok1 then I2C_OK else I2C_ERROR, h1)"
    "seen I2C1_DR h1 = seen I2C1_DR h" "reads hw I2C1_DR h1 = reads hw I2C1_DR h"
    "length h1 \<le> length h + 100000"
    by (rule wait_flag_effect [OF polled(2)])
  define h2 where "h2 = set_bits hw I2C1_CR1 (I2C_CR1_ACK c) h1"
  have len2: "length h2 = length h1 + 2" by (simp add: h2_def)
  note eq = i2c_read_def Let_def w1(1) h2_def [symmetric]
  show ?thesis
  proof (cases ok1)
    case False
    show ?thesis by (rule error [of data h1]) (use False w1 pos in \<open>simp_all add: eq\<close>)
  next
    case ok1: True
    show ?thesis
    proof (cases rule: i2c_start_cases [of c hw addr True h2])
      case (no_start h3)
      show ?thesis by (rule error [of data h3]) (use ok1 w1 len2 no_start pos in \<open>simp_all add: eq\<close>)
    next
      case (nack h3)
      show ?thesis by (rule error [of data h3]) (use ok1 w1 len2 nack pos in \<open>simp_all add: eq\<close>)
    next
      case (addressed h3 a)
      have run: "i2c_read c hw addr data len h = i2c_read_loop c hw (unat len) 0 (unat len) data h3"
        using ok1 addressed(1) pos by (simp add: eq)
      have z: "0 + unat len = unat len" by simp
      show ?thesis
      proof (cases rule: i2c_read_loop_cases [OF z len, of c hw h3, case_names ok error])
        case (ok h' w vs)
        show ?thesis
          by (rule that(1) [of vs h' "hw h1 I2C1_CR1" _ w, OF _ _ _ _ start_phaseI [of c addr True a]])
            (use ok run addressed w1 len2 in \<open>simp_all add: h2_def\<close>)
      next
        case (error data' h')
        show ?thesis
          by (rule that(2) [of data' h']) (use error run addressed w1 len2 in simp_all)
      qed
    qed
  qed
qed

subsection \<open>A register read keeps the bus\<close>

text \<open>
  After a start condition, an address and a data byte, with no stop condition yet, the
  master itself owns the bus.
\<close>

definition owns_bus :: "cmsis \<Rightarrow> history \<Rightarrow> bool" where
  "owns_bus c h \<longleftrightarrow> (\<exists>pre a x y. seen I2C1_DR h =
     pre @ [Wr I2C1_CR1 (a OR I2C_CR1_START c), Wr I2C1_DR x, Wr I2C1_DR y])"

lemma owns_bus_poll: "owns_bus c h \<Longrightarrow> owns_bus c (h @ replicate k (Rd I2C1_SR2))"
  by (simp add: owns_bus_def seen_replicate_Rd)

lemma i2c_read_busy:
  assumes "\<forall>h. owns_bus c h \<longrightarrow> hw h I2C1_SR2 AND I2C_SR2_BUSY c \<noteq> 0" "owns_bus c h" "len \<noteq> 0"
  shows "\<exists>h'. i2c_read c hw addr data len h = Some (I2C_ERROR, data, h')"
proof -
  have "\<forall>k. (hw (h @ replicate k (Rd I2C1_SR2)) I2C1_SR2 AND I2C_SR2_BUSY c \<noteq> 0) \<noteq> False"
    using assms(1) owns_bus_poll [OF assms(2)] by blast
  then have "wait_loop hw I2C1_SR2 (I2C_SR2_BUSY c) False n h = (I2C_ERROR, h @ replicate n (Rd I2C1_SR2))" for n
    by (rule wait_loop_never)
  with assms(3) show ?thesis by (simp add: i2c_read_def wait_flag_def Let_def)
qed

end
