(* ===== verification/Adc.thy ===== *)
theory Adc
  imports Gpio
begin

text \<open>The single-conversion ADC driver, \<^verbatim>\<open>Drivers/Src/adc.c\<close>.\<close>

subsection \<open>The model\<close>

definition adc_init :: "cmsis \<Rightarrow> hardware \<Rightarrow> history \<Rightarrow> history" where
  "adc_init c hw h =
     (let h = set_bits hw RCC_APB2ENR (RCC_APB2ENR_ADC1EN c) h;
          h = store ADC_CCR 0 h;
          h = store ADC1_CR1 0 h;
          h = store ADC1_CR2 0 h;
          h = store ADC1_SQR1 0 h
      in set_bits hw ADC1_CR2 (ADC_CR2_ADON c) h)"

definition adc_config_channel :: "cmsis \<Rightarrow> hardware \<Rightarrow> u8 \<Rightarrow> history \<Rightarrow> history option" where
  "adc_config_channel c hw channel h = do {
     h \<leftarrow> (if channel < 8 then gpio_config c hw (GPIOA c) channel GPIO_ANALOG 0 GPIO_NOPULL h else Some h);
     if channel < 10 then do {
       m \<leftarrow> shl 0x7 (unat channel * 3);
       let h = clear_bits hw ADC1_SMPR2 m h;
       m \<leftarrow> shl 0x4 (unat channel * 3);
       Some (set_bits hw ADC1_SMPR2 m h) }
     else do {
       m \<leftarrow> shl 0x7 ((unat channel - 10) * 3);
       let h = clear_bits hw ADC1_SMPR1 m h;
       m \<leftarrow> shl 0x4 ((unat channel - 10) * 3);
       Some (set_bits hw ADC1_SMPR1 m h) } }"

definition adc_read :: "cmsis \<Rightarrow> hardware \<Rightarrow> u8 \<Rightarrow> history \<Rightarrow> (u16 \<times> history) option" where
  "adc_read c hw channel h = do {
     let h = store ADC1_SQR3 (ucast channel) h;
     let h = clear_bits hw ADC1_SR (ADC_SR_EOC c) h;
     let h = set_bits hw ADC1_CR2 (ADC_CR2_SWSTART c) h;
     h \<leftarrow> await hw ADC1_SR (ADC_SR_EOC c) h;
     let (v, h) = load hw ADC1_DR h;
     Some (ucast v, h) }"

definition adc_to_mv :: "u16 \<Rightarrow> u16 \<Rightarrow> u16" where
  "adc_to_mv raw vref_mv = ucast ((ucast raw * ucast vref_mv :: u32) div 4095)"

subsection \<open>Sampling and conversion\<close>

text \<open>A channel's sample time is its own 3-bit field; the registers of the other channels are left alone.\<close>

definition smpr_of :: "u8 \<Rightarrow> reg \<times> nat" where
  "smpr_of channel = (if channel < 10 then (ADC1_SMPR2, unat channel) else (ADC1_SMPR1, unat channel - 10))"

lemma adc_config_channel_eq:
  assumes ch: "unat channel \<le> 18" and ok: "port_ok c (GPIOA c)"
    and plain: "plain hw (fst (smpr_of channel))"
  obtains h' where "adc_config_channel c hw channel h = Some h'"
    "hw h' (fst (smpr_of channel)) =
       put_field 3 (snd (smpr_of channel)) 4 (hw h (fst (smpr_of channel)))"
    "\<forall>r. r \<notin> config_regs (GPIOA c) \<longrightarrow> r \<noteq> fst (smpr_of channel) \<longrightarrow> writes r h' = writes r h"
proof -
  obtain h1 where h1: "(if channel < 8 then gpio_config c hw (GPIOA c) channel GPIO_ANALOG 0 GPIO_NOPULL h
      else Some h) = Some h1" "\<forall>r. r \<notin> config_regs (GPIOA c) \<longrightarrow> writes r h1 = writes r h"
  proof (cases "channel < 8")
    case True
    then have "channel < 16" by (simp add: word_less_nat_alt)
    from gpio_config_eq [OF this ok, of hw GPIO_ANALOG 0 GPIO_NOPULL h] that True show ?thesis by metis
  qed (use that in simp)
  have m: "(7 :: u32) = mask 3" by (simp add: mask_eq_exp_minus_1)
  have same: "hw h1 (fst (smpr_of channel)) = hw h (fst (smpr_of channel))"
    using h1(2) by (intro plain_same [OF plain]) (simp add: smpr_of_def config_regs_def)
  show ?thesis
  proof (cases "channel < 10")
    case True
    then have "unat channel * 3 < 32" by (simp add: word_less_nat_alt)
    then show ?thesis
      using True h1 same plain put_fieldI [where w = 3 and i = "unat channel" and n = "unat channel * 3"]
      by (intro that) (simp add: adc_config_channel_def Let_def smpr_of_def m, simp_all add: smpr_of_def)
  next
    case False
    have "(unat channel - 10) * 3 < 32" using ch by simp
    then show ?thesis
      using False h1 same plain
        put_fieldI [where w = 3 and i = "unat channel - 10" and n = "(unat channel - 10) * 3"]
      by (intro that) (simp add: adc_config_channel_def Let_def smpr_of_def m, simp_all add: smpr_of_def)
  qed
qed

lemma unat_ucast_u16 [simp]: "unat (ucast x :: u32) = unat x" for x :: u16
  by (simp add: unsigned_ucast_eq take_bit_nat_eq_self less_trans [OF unsigned_less [of x]])

text \<open>The product never leaves 32 bits, and the result fits 16 bits for a 12-bit sample.\<close>

lemma adc_to_mv_eq:
  assumes "unat raw \<le> 4095"
  shows "unat (adc_to_mv raw vref) = unat raw * unat vref div 4095"
proof -
  have r: "unat vref < 65536" using unsigned_less [of vref] by simp
  have "unat raw * unat vref \<le> 4095 * unat vref" using assms by (rule mult_le_mono1)
  then have le: "unat raw * unat vref div 4095 \<le> unat vref"
    using div_le_mono [of "unat raw * unat vref" "4095 * unat vref" 4095] by simp
  have "unat raw * unat vref < 4294967296"
    using mult_le_mono [OF assms less_imp_le [OF r]] by simp
  then have "unat ((ucast raw * ucast vref :: u32) div 4095) = unat raw * unat vref div 4095"
    by (simp add: unat_div unat_word_ariths)
  with le r show ?thesis
    by (simp add: adc_to_mv_def unsigned_ucast_eq take_bit_nat_eq_self)
qed

end
