(* ===== verification/Bus_Properties.thy ===== *)
theory Bus_Properties
  imports Spi I2c Adc Hardware_Samples
begin

text \<open>The properties of the I2C and SPI masters and of the ADC.\<close>

subsection \<open>I2C\<close>

text \<open>C35: an I2C write always returns, after a bounded number of register accesses however the
  bus behaves. It reports success exactly after a start condition, the address, every byte in
  order and the stop condition; an error leaves one of the prefixes of \<open>write_failed\<close>, and
  only the missing acknowledge is followed by a stop condition.\<close>
theorem i2c_write_returns:
  assumes "unat len \<le> length data"
  shows "\<exists>res h' w. i2c_write c hw addr data len h = Some (res, h') \<and>
    length h' \<le> length h + unat len * 100001 + 500020 \<and> seen I2C1_DR h' = seen I2C1_DR h @ w \<and>
    (res = I2C_OK \<and> (\<exists>w1 w2. w = w1 @ bytes_out (take (unat len) data) @ w2 \<and>
        start_phase c addr False w1 \<and> stop_phase c w2) \<or>
     res = I2C_ERROR \<and> write_failed c addr (take (unat len) data) w)"
proof (cases rule: i2c_write_cases [OF assms, of c hw addr h, case_names ok error])
  case (ok h' w1 w2)
  then show ?thesis
    by (intro exI [of _ I2C_OK] exI [of _ h'] exI [of _ "w1 @ bytes_out (take (unat len) data) @ w2"]) auto
next
  case (error h' w)
  then show ?thesis by (intro exI [of _ I2C_ERROR] exI [of _ h'] exI [of _ w]) simp
qed

theorem i2c_write_returns_witness:
  "\<exists>res h' w. i2c_write board_cmsis plain_hw 0x3C [1, 2] 2 [] = Some (res, h') \<and>
    length h' \<le> length ([] :: history) + unat (2 :: u32) * 100001 + 500020 \<and>
    seen I2C1_DR h' = seen I2C1_DR [] @ w \<and>
    (res = I2C_OK \<and> (\<exists>w1 w2. w = w1 @ bytes_out (take (unat (2 :: u32)) [1, 2]) @ w2 \<and>
        start_phase board_cmsis 0x3C False w1 \<and> stop_phase board_cmsis w2) \<or>
     res = I2C_ERROR \<and> write_failed board_cmsis 0x3C (take (unat (2 :: u32)) [1, 2]) w)"
  by (rule i2c_write_returns) simp

text \<open>C36: an I2C read always returns, bounded, with a buffer of the caller's length. On success the
  first bytes of the buffer are the values read from the data register, in order, the rest is
  untouched, and the master withdrew the acknowledge and queued the stop condition before it
  read the last byte.\<close>
theorem i2c_read_returns:
  assumes "unat len \<le> length data" and "len \<noteq> 0"
  shows "\<exists>res data' h'. i2c_read c hw addr data len h = Some (res, data', h') \<and>
    length data' = length data \<and> length h' \<le> length h + unat len * 100010 + 300020 \<and>
    (res = I2C_ERROR \<or> res = I2C_OK \<and>
      (\<exists>a w1 w2 vs. data' = map ucast vs @ drop (unat len) data \<and> length vs = unat len \<and>
        reads hw I2C1_DR h' = reads hw I2C1_DR h @ vs \<and>
        seen I2C1_DR h' = seen I2C1_DR h @ Wr I2C1_CR1 (a OR I2C_CR1_ACK c) # w1 @ w2 \<and>
        start_phase c addr True w1 \<and> read_phase c (unat len) w2))"
proof (cases rule: i2c_read_cases [OF assms, of c hw addr h, case_names ok error])
  case (ok h' a w1 w2 vs)
  with assms(1) show ?thesis
    by (intro exI [of _ I2C_OK] exI [of _ "map ucast vs @ drop (unat len) data"] exI [of _ h']) auto
next
  case (error data' h')
  then show ?thesis by (intro exI [of _ I2C_ERROR] exI [of _ data'] exI [of _ h']) simp
qed

theorem i2c_read_returns_witness:
  "\<exists>res data' h'. i2c_read board_cmsis plain_hw 0x3C [0, 0, 0] 2 [] = Some (res, data', h') \<and>
    length data' = length [0 :: u8, 0, 0] \<and>
    length h' \<le> length ([] :: history) + unat (2 :: u32) * 100010 + 300020 \<and>
    (res = I2C_ERROR \<or> res = I2C_OK \<and>
      (\<exists>a w1 w2 vs. data' = map ucast vs @ drop (unat (2 :: u32)) [0, 0, 0] \<and> length vs = unat (2 :: u32) \<and>
        reads plain_hw I2C1_DR h' = reads plain_hw I2C1_DR [] @ vs \<and>
        seen I2C1_DR h' = seen I2C1_DR [] @ Wr I2C1_CR1 (a OR I2C_CR1_ACK board_cmsis) # w1 @ w2 \<and>
        start_phase board_cmsis 0x3C True w1 \<and> read_phase board_cmsis (unat (2 :: u32)) w2))"
  by (rule i2c_read_returns) simp_all

text \<open>C37: where the BUSY flag stays set as long as the master itself owns the bus, which is what the
  peripheral documents, a register read never succeeds: the read it ends with waits for a free
  bus, but the repeated start keeps the bus taken, so it times out with the buffer untouched.\<close>
theorem i2c_read_reg_times_out:
  assumes busy: "\<forall>h. owns_bus c h \<longrightarrow> hw h I2C1_SR2 AND I2C_SR2_BUSY c \<noteq> 0" and "len \<noteq> 0"
  shows "\<exists>h'. i2c_read_reg c hw addr reg data len h = Some (I2C_ERROR, data, h')"
proof -
  obtain ok1 h1 where w1: "wait_flag hw I2C1_SR2 (I2C_SR2_BUSY c) False h = (if ok1 then I2C_OK else I2C_ERROR, h1)"
    "seen I2C1_DR h1 = seen I2C1_DR h" "reads hw I2C1_DR h1 = reads hw I2C1_DR h"
    "length h1 \<le> length h + 100000"
    by (rule wait_flag_effect [OF polled(2)])
  show ?thesis
  proof (cases rule: i2c_start_cases [of c hw addr False h1])
    case (addressed h2 a)
    obtain ok3 h3 where w3: "wait_flag hw I2C1_SR1 (I2C_SR1_TXE c) True h2 = (if ok3 then I2C_OK else I2C_ERROR, h3)"
      "seen I2C1_DR h3 = seen I2C1_DR h2" "reads hw I2C1_DR h3 = reads hw I2C1_DR h2"
      "length h3 \<le> length h2 + 100000"
      by (rule wait_flag_effect [OF polled(1)])
    define h4 where "h4 = store I2C1_DR (ucast reg) h3"
    obtain ok5 h5 where w5: "wait_flag hw I2C1_SR1 (I2C_SR1_BTF c) True h4 = (if ok5 then I2C_OK else I2C_ERROR, h5)"
      "seen I2C1_DR h5 = seen I2C1_DR h4" "reads hw I2C1_DR h5 = reads hw I2C1_DR h4"
      "length h5 \<le> length h4 + 100000"
      by (rule wait_flag_effect [OF polled(1)])
    have "owns_bus c h5"
      using addressed(2) w3(2) w5(2) unfolding owns_bus_def h4_def by auto
    then obtain h6 where "i2c_read c hw addr data len h5 = Some (I2C_ERROR, data, h6)"
      using i2c_read_busy [of c hw h5 len addr data] busy assms(2) by blast
    then show ?thesis
      using w1(1) w3(1) w5(1) addressed(1) by (simp add: i2c_read_reg_def Let_def h4_def [symmetric])
  qed (use w1(1) in \<open>simp_all add: i2c_read_reg_def Let_def\<close>)
qed

text \<open>A bus on which every flag the driver waits for comes at once, and BUSY means taken.\<close>

definition busy_hw :: hardware where
  "busy_hw h r = (if r = I2C1_SR2 then (if owns_bus board_cmsis h then 2 else 0) else 0xFFFFFFFF)"

theorem i2c_read_reg_times_out_witness:
  "\<exists>h'. i2c_read_reg board_cmsis busy_hw 0x68 0x75 [0] 1 [] = Some (I2C_ERROR, [0], h')"
  by (rule i2c_read_reg_times_out) (simp_all add: busy_hw_def board_cmsis_def)

subsection \<open>SPI\<close>

text \<open>When the SPI peripheral's flags come sooner or later, a read of \<open>len\<close> bytes clocks out
  exactly \<open>len\<close> bytes 0xFF, and fills the first \<open>len\<close> entries of the buffer with what came
  back on each of them, in order; the rest of the buffer is untouched.\<close>
theorem spi_read_exchanges:
  assumes "spi_ready c hw" and "unat len \<le> length data"
  shows "\<exists>rs h'. spi_read c hw data len h = Some (rs @ drop (unat len) data, h') \<and> length rs = unat len \<and>
    exchanged hw (replicate (unat len) 0xFF) rs h h'"
proof -
  have fits: "0 + unat len \<le> length data" using assms(2) by simp
  obtain rs h' where "spi_read_loop c hw 0 (unat len) data h = Some (take 0 data @ rs @ drop (0 + unat len) data, h')"
    "length rs = unat len" "exchanged hw (replicate (unat len) 0xFF) rs h h'"
    by (rule spi_read_loop_exchanges [OF assms(1) fits])
  then show ?thesis by (simp add: spi_read_def)
qed

definition spi_hw :: hardware where
  "spi_hw = with_flags [SPI1_SR \<mapsto> 3] (\<lambda>_. 0)"

theorem spi_read_exchanges_witness:
  "\<exists>rs h'. spi_read board_cmsis spi_hw [1, 2, 3] 2 [] = Some (rs @ drop (unat (2 :: u32)) [1, 2, 3], h') \<and>
    length rs = unat (2 :: u32) \<and> exchanged spi_hw (replicate (unat (2 :: u32)) 0xFF) rs [] h'"
  by (rule spi_read_exchanges)
    (auto simp: spi_ready_def spi_hw_def board_cmsis_def intro!: with_flags_responsive)

subsection \<open>ADC\<close>

text \<open>Selecting a channel sets that channel's sample time to 84 cycles and keeps the sample
  times of the other channels of the register.\<close>
theorem adc_channel_sample_time:
  assumes "unat channel \<le> 18" "port_ok c (GPIOA c)" "plain hw (fst (smpr_of channel))"
  shows "\<exists>h'. adc_config_channel c hw channel h = Some h' \<and>
    (\<forall>k. field 3 k (hw h' (fst (smpr_of channel))) =
       (if k = snd (smpr_of channel) then 4 else field 3 k (hw h (fst (smpr_of channel)))))"
proof -
  obtain h' where h': "adc_config_channel c hw channel h = Some h'"
    "hw h' (fst (smpr_of channel)) = put_field 3 (snd (smpr_of channel)) 4 (hw h (fst (smpr_of channel)))"
    by (rule adc_config_channel_eq [OF assms])
  have "3 * snd (smpr_of channel) + 3 \<le> 32"
  proof -
    have "snd (smpr_of channel) \<le> 9" using assms(1) by (simp add: smpr_of_def word_less_nat_alt, linarith)
    then show ?thesis by linarith
  qed
  from field_put_field [OF _ this, of 4] h' show ?thesis by simp
qed

theorem adc_channel_sample_time_witness:
  "\<exists>h'. adc_config_channel board_cmsis plain_hw 3 [] = Some h' \<and>
    (\<forall>k. field 3 k (plain_hw h' (fst (smpr_of 3))) =
       (if k = snd (smpr_of 3) then 4 else field 3 k (plain_hw [] (fst (smpr_of 3)))))"
  by (rule adc_channel_sample_time) (simp_all add: port_ok_def board_cmsis_def)

end
