(* ===== verification/Kernel_Objects.thy ===== *)
theory Kernel_Objects
  imports Kernel_System
begin

text \<open>
  What no event of the kernel touches: the number of tasks, the set of initialised mutexes
  and semaphores, and the message queues. The fact is followed through the operations from
  the smallest one up.
\<close>

definition same_objects :: "kernel \<Rightarrow> kernel \<Rightarrow> bool" where
  "same_objects s s' \<longleftrightarrow> task_count s' = task_count s \<and> queues s' = queues s \<and>
     dom (mutexes s') = dom (mutexes s) \<and> dom (sems s') = dom (sems s)"

named_theorems objects \<open>operations that keep the set of objects\<close>

lemma same_objects_refl [objects]: "same_objects s s"
  by (simp add: same_objects_def)

lemma same_objects_trans: "same_objects s s' \<Longrightarrow> same_objects s' s'' \<Longrightarrow> same_objects s s''"
  by (simp add: same_objects_def)

lemma same_objects_updates [simp]:
  "same_objects s (s'\<lparr>primask := p\<rparr>) = same_objects s s'" "same_objects s (s'\<lparr>pendsv := b\<rparr>) = same_objects s s'"
  "same_objects s (s'\<lparr>os_ticks := n\<rparr>) = same_objects s s'" "same_objects s (s'\<lparr>mem := h\<rparr>) = same_objects s s'"
  "same_objects s (s'\<lparr>halted_in := t\<rparr>) = same_objects s s'"
  "same_objects s (s'\<lparr>current_tcb := t\<rparr>) = same_objects s s'"
  "same_objects s (s'\<lparr>os_tasks := ts\<rparr>) = same_objects s s'"
  "same_objects (s\<lparr>primask := p\<rparr>) s' = same_objects s s'" "same_objects (s\<lparr>os_ticks := n\<rparr>) s' = same_objects s s'"
  "same_objects (s\<lparr>mem := h\<rparr>) s' = same_objects s s'" "same_objects (s\<lparr>pendsv := b\<rparr>) s' = same_objects s s'"
  by (simp_all add: same_objects_def)

subsection \<open>Writing a field of an object\<close>

lemma upd_objects [objects]:
  "upd_tcb t f s = Some s' \<Longrightarrow> same_objects s s'"
  "upd_mutex m g s = Some s' \<Longrightarrow> same_objects s s'"
  "upd_sem a k s = Some s' \<Longrightarrow> same_objects s s'"
  by (auto simp: upd_tcb_def upd_mutex_def upd_sem_def same_objects_def Option.bind_eq_Some_conv split: if_splits)

lemma put_wait_objects [objects]:
  "same_objects s (put_wait_array r a s)" "same_objects s (put_wait_count r c s)"
  by (cases r; auto simp: same_objects_def dom_def)+

text \<open>Two steps in a row, the first a field update.\<close>

lemma then_upd: "same_objects s s1 \<Longrightarrow> upd_tcb t f s1 = Some s' \<Longrightarrow> same_objects s s'"
  by (blast intro: same_objects_trans upd_objects(1))

subsection \<open>The wait queues\<close>

lemma put_both_objects: "same_objects s (put_wait_count k c (put_wait_array q a s))"
  by (blast intro: same_objects_trans put_wait_objects)

lemma wait_queue_remove_objects [objects]: "wait_queue_remove t s = Some s' \<Longrightarrow> same_objects s s'"
  by (cases "wait_queue (os_tasks s ! t)"; cases "wait_count (os_tasks s ! t)")
    (auto simp: wait_queue_remove_def Option.bind_eq_Some_conv same_objects_refl get_tcb_def rd_Some_iff
      intro: then_upd [OF put_both_objects])

lemma wake_task_objects [objects]: "wake_task t s = Some s' \<Longrightarrow> same_objects s s'"
  by (auto simp: wake_task_def Option.bind_eq_Some_conv intro: then_upd [OF wait_queue_remove_objects])

lemma block_current_objects [objects]: "block_current q k n timeout s = Some (ok, s') \<Longrightarrow> same_objects s s'"
  by (auto simp: block_current_def Option.bind_eq_Some_conv same_objects_refl
      intro: then_upd [OF put_both_objects] split: if_splits)

subsection \<open>The calls\<close>

lemma donation_objects [objects]:
  "donate_priority w s = Some s' \<Longrightarrow> same_objects s s'" "drop_donation w s = Some s' \<Longrightarrow> same_objects s s'"
  by (auto simp: donate_priority_def drop_donation_def Option.bind_eq_Some_conv same_objects_refl
      intro: upd_objects split: if_splits option.splits)

lemma mutex_acquire_objects [objects]: "os_mutex_acquire m timeout s = Some (r, s') \<Longrightarrow> same_objects s s'"
  by (auto simp: os_mutex_acquire_def os_enter_critical_def os_exit_critical_def os_yield_def
      Option.bind_eq_Some_conv same_objects_refl split: if_splits
      dest!: upd_objects(2) donation_objects(1) block_current_objects intro: same_objects_trans)

lemma mutex_release_objects [objects]: "os_mutex_release m s = Some s' \<Longrightarrow> same_objects s s'"
  by (auto simp: os_mutex_release_def os_enter_critical_def os_exit_critical_def os_yield_def
      Option.bind_eq_Some_conv same_objects_refl split: option.splits
      dest!: upd_objects(2) donation_objects(2) wake_task_objects)
    (blast intro: same_objects_trans)+

lemma semaphore_acquire_objects [objects]: "os_semaphore_acquire a timeout s = Some (r, s') \<Longrightarrow> same_objects s s'"
  by (auto simp: os_semaphore_acquire_def os_enter_critical_def os_exit_critical_def os_yield_def
      Option.bind_eq_Some_conv same_objects_refl split: if_splits
      dest!: upd_objects(3) block_current_objects intro: same_objects_trans)

lemma semaphore_release_objects [objects]: "os_semaphore_release a s = Some s' \<Longrightarrow> same_objects s s'"
  by (auto simp: os_semaphore_release_def os_enter_critical_def os_exit_critical_def os_yield_def
      Option.bind_eq_Some_conv same_objects_refl split: option.splits if_splits
      dest!: upd_objects(3) wake_task_objects intro: same_objects_trans)

lemma delay_objects [objects]: "os_delay ms s = Some s' \<Longrightarrow> same_objects s s'"
  by (auto simp: os_delay_def os_enter_critical_def os_exit_critical_def os_yield_def
      Option.bind_eq_Some_conv same_objects_refl split: if_splits dest!: upd_objects(1))

subsection \<open>The tick and the switch\<close>

lemma tick_task_objects [objects]: "tick_task t s = Some s' \<Longrightarrow> same_objects s s'"
  by (auto simp: tick_task_def Option.bind_eq_Some_conv same_objects_refl split: if_splits
      dest!: upd_objects(1) wait_queue_remove_objects intro: same_objects_trans)

lemma tick_tasks_objects [objects]: "tick_tasks ts s = Some s' \<Longrightarrow> same_objects s s'"
  by (induction ts arbitrary: s)
    (auto simp: Option.bind_eq_Some_conv same_objects_refl intro: same_objects_trans dest!: tick_task_objects)

lemma systick_objects [objects]: "SysTick_Handler s = Some s' \<Longrightarrow> same_objects s s'"
  by (auto simp: SysTick_Handler_def os_yield_def Option.bind_eq_Some_conv dest!: tick_tasks_objects)

lemma demote_objects [objects]: "demote_current b s = Some s' \<Longrightarrow> same_objects s s'"
  by (auto simp: demote_current_def Option.bind_eq_Some_conv same_objects_refl
      split: if_splits option.split_asm dest!: upd_objects(1))

lemma scheduler_objects [objects]: "os_scheduler s = Some s' \<Longrightarrow> same_objects s s'"
  by (auto simp: os_scheduler_def os_stack_overflow_hook_def Option.bind_eq_Some_conv same_objects_refl
      split: if_splits option.split_asm dest!: upd_objects(1) demote_objects)
    (blast intro: same_objects_trans)+

lemma context_switch_objects [objects]: "context_switch c s = Some (c', s') \<Longrightarrow> same_objects s s'"
  by (auto simp: context_switch_def PendSV_Handler_def save_context_def Option.bind_eq_Some_conv
      split: if_splits prod.splits dest!: upd_objects(1) scheduler_objects intro: same_objects_trans)

lemma exec_objects: "exec e s = Some s' \<Longrightarrow> same_objects s s'"
  by (cases e) (auto intro: objects)

end
