(* ===== verification/Seats.thy ===== *)
theory Seats
  imports Kernel_Objects
begin

text \<open>
  The place of a task at a mutex: away from it, waiting for it, or holding it; and how an
  event of the running kernel changes it. A client that takes a mutex with \<^verbatim>\<open>WAIT_FOREVER\<close>
  gets the place "waiting or holding" at once and keeps it, whatever the others do, until
  it releases the mutex itself.
\<close>

subsection \<open>What an event does to the waiting of a task\<close>

definition wait_part :: "tcb \<Rightarrow> wref option \<times> u32 \<times> u8" where
  "wait_part x = (wait_queue x, sleep_time x, wait_result x)"

lemma wait_part_simps [simp]:
  "wait_part (x\<lparr>current_priority := p\<rparr>) = wait_part x" "wait_part (x\<lparr>state := st\<rparr>) = wait_part x"
  "wait_part (x\<lparr>stackPtr := a\<rparr>) = wait_part x" "wait_part (woken x) = (None, 0, OS_SUCCESS)"
  by (simp_all add: wait_part_def)

lemma wait_part_undonated: "wait_part (undonated w ts ! t) = wait_part (ts ! t)"
  by (simp add: undonated_nth)

lemma wait_part_donated: "wait_part (donated c w ts ! t) = wait_part (ts ! t)"
  by (cases "w < length ts"; cases "t = w") (simp_all add: donated_def list_update_beyond)

fun wakes :: "kernel \<Rightarrow> event \<Rightarrow> tid option" where
  "wakes s (Unlock m) = next_owner m s"
| "wakes s (Give a) = next_waiter a s"
| "wakes s (Isr_give a) = next_waiter a s"
| "wakes s _ = None"

fun parks_in :: "event \<Rightarrow> wref option" where
  "parks_in (Lock m _) = Some (MutexQ m)"
| "parks_in (Take a _) = Some (SemQ a)"
| "parks_in _ = None"

definition waits_after :: "kernel \<Rightarrow> event \<Rightarrow> tid \<Rightarrow> tcb \<Rightarrow> bool" where
  "waits_after s e t x' \<longleftrightarrow>
     (if wakes s e = Some t then wait_part x' = (None, 0, OS_SUCCESS)
      else if e = Tick then x' = ticked (os_tasks s ! t)
      else wait_part x' = wait_part (os_tasks s ! t) \<or>
        current_tcb s = Some t \<and> by_thread e \<and> wait_queue x' = parks_in e)"

lemma waits_after_same:
  "wakes s e = None \<Longrightarrow> e \<noteq> Tick \<Longrightarrow> wait_part x' = wait_part (os_tasks s ! t) \<Longrightarrow> waits_after s e t x'"
  by (simp add: waits_after_def)

lemma waits_after_woken:
  assumes "wakes s e = Some n" "e \<noteq> Tick" "ts ! t = (if t = n then woken x else y)"
    and "wait_part y = wait_part (os_tasks s ! t)"
  shows "waits_after s e t (ts ! t)"
  using assms by (auto simp: waits_after_def)

lemma switch_waits:
  assumes inv: "sys_inv idle s" and ex: "exec (Switch c) s = Some s'" and t: "t < tc s"
  shows "wait_part (os_tasks s' ! t) = wait_part (os_tasks s ! t)"
proof -
  obtain a where a: "current_tcb s = Some a" using inv by (auto simp: sys_inv_def)
  have K: "kinv s" using inv by (simp add: sys_inv_def)
  have len: "t < length (os_tasks s)" using waits_okD(3) [OF kinvD(1) [OF K] t] .
  have saved: "wait_part (os_tasks (saved c a s) ! t) = wait_part (os_tasks s ! t)"
    using len by (cases "t = a") (simp_all add: saved_def)
  show ?thesis
  proof (cases rule: switch_effect [OF inv a, where c = c])
    case (1 c' s'')
    with ex have "s' = (saved c a s)\<lparr>halted_in := Some a\<rparr>" by simp
    with saved show ?thesis by simp
  next
    case (2 c' s'' b)
    with ex have s': "s' = (saved c a s)\<lparr>os_tasks := switched (Some a) b (os_tasks (saved c a s)),
      current_tcb := Some b\<rparr>" by simp
    have "b < length (os_tasks (saved c a s))"
      using 2(2) waits_okD(3) [OF kinvD(1) [OF K]] by (simp add: saved_def)
    moreover have "t < length (os_tasks (saved c a s))" using len by (simp add: saved_def)
    ultimately have "wait_part (os_tasks s' ! t) = wait_part (os_tasks (saved c a s) ! t)"
      by (simp add: s' switched_nth)
    with saved show ?thesis by simp
  qed
qed

lemma give_waits:
  assumes inv: "kinv s" and x: "sems s a = Some x" and ex: "os_semaphore_release a s = Some s'" and t: "t < tc s"
  shows "waits_after s (Give a) t (os_tasks s' ! t)" "waits_after s (Isr_give a) t (os_tasks s' ! t)"
proof -
  have "waits_after s e t (os_tasks s' ! t)" if e: "e = Give a \<or> e = Isr_give a" for e
  proof (cases "next_waiter a s")
    case None
    then have none: "waiters s (SemQ a) = []" by (simp add: next_waiter_def)
    have "os_tasks s' = os_tasks s" using sem_release_token(1) [OF inv x none] ex by auto
    with None e show ?thesis by (intro waits_after_same) auto
  next
    case (Some n)
    obtain s'' where s'': "os_semaphore_release a s = Some s''"
      "os_tasks s'' = (os_tasks s)[n := woken (os_tasks s ! n)]" by (rule sem_release_handoff [OF inv x Some])
    have "n < length (os_tasks s)"
      using picked_waits(1) [OF kinvD(1) [OF inv] Some [unfolded next_waiter_def]] waits_okD(3) [OF kinvD(1) [OF inv]]
      by blast
    then show ?thesis
      by (intro waits_after_woken [where n = n and x = "os_tasks s ! n" and y = "os_tasks s ! t"])
        (use s'' e ex Some in \<open>auto simp: nth_list_update\<close>)
  qed
  then show "waits_after s (Give a) t (os_tasks s' ! t)" "waits_after s (Isr_give a) t (os_tasks s' ! t)" by simp_all
qed

lemma exec_waits:
  assumes inv: "sys_inv idle s" and en: "enabled idle s e" and ex: "exec e s = Some s'" and t: "t < tc s"
  shows "waits_after s e t (os_tasks s' ! t)"
proof -
  have I: "kinv s" "kernel_running s" using inv by (simp_all add: sys_inv_def)
  have len: "u < length (os_tasks s)" if "u < tc s" for u using waits_okD(3) [OF kinvD(1) [OF I(1)] that] .
  have obj: "object_ready e s" using en by (simp add: enabled_def)
  show ?thesis
  proof (cases e)
    case Tick
    obtain s'' where "SysTick_Handler s = Some s''" "\<forall>t<tc s. os_tasks s'' ! t = ticked (os_tasks s ! t)"
      by (rule systick_effect [OF I(1)])
    with Tick ex t show ?thesis by (simp add: waits_after_def)
  next
    case (Switch c)
    with switch_waits [OF inv _ t] ex show ?thesis by (intro waits_after_same) simp_all
  next
    case (Lock m timeout)
    with obj obtain x where x: "mutexes s m = Some x" by auto
    from Lock en obtain c where c: "running s c" using enabled_thread by (metis by_thread.simps(4))
    show ?thesis
      using x
    proof (cases rule: mutex_acquire_cases [where timeout = timeout])
      case 1
      with Lock ex mutex_acquire_free [OF x 1] show ?thesis by (intro waits_after_same) auto
    next
      case 2
      with Lock ex mutex_acquire_own [OF x] show ?thesis by (intro waits_after_same) auto
    next
      case 3
      with Lock ex mutex_acquire_poll [OF x] show ?thesis by (intro waits_after_same) auto
    next
      case 4
      have "owner x \<noteq> Some c" using 4(2) c by (simp add: running_def)
      then obtain o' s'' where s'': "os_mutex_acquire m timeout s = Some (Parked, s'')"
        "os_tasks s'' = (donated c o' (os_tasks s))[c := parked (MutexQ m) timeout (os_tasks s ! c)]"
        using mutex_acquire_block [OF I(1) c x 4(1) _ 4(3,4)] by metis
      have "c < length (donated c o' (os_tasks s))" using len c by (simp add: running_def donated_def)
      with s'' Lock ex c show ?thesis
        by (cases "t = c") (simp_all add: waits_after_def wait_part_donated running_def)
    qed
  next
    case (Unlock m)
    with obj obtain x where x: "mutexes s m = Some x" by auto
    show ?thesis
    proof (cases "next_owner m s")
      case None
      then have none: "waiters s (MutexQ m) = []" by (simp add: next_owner_def)
      from mutex_release_last(1) [OF I(1) x none] Unlock ex None show ?thesis
        by (intro waits_after_same) (auto simp: wait_part_undonated)
    next
      case (Some n)
      obtain s'' where s'': "os_mutex_release m s = Some s''"
        "os_tasks s'' = (undonated (owner x) (os_tasks s))[n := woken (os_tasks s ! n)]"
        by (rule mutex_release_handoff [OF I(1) x Some])
      have "n < length (os_tasks s)" using picked_waits(1) [OF kinvD(1) [OF I(1)] Some [unfolded next_owner_def]] by (rule len)
      then show ?thesis
        by (intro waits_after_woken [where n = n and x = "os_tasks s ! n" and y = "undonated (owner x) (os_tasks s) ! t"])
          (use s'' Unlock ex Some in \<open>auto simp: wait_part_undonated nth_list_update\<close>)
    qed
  next
    case (Take a timeout)
    with obj obtain x where x: "sems s a = Some x" by auto
    from Take en obtain c where c: "running s c" using enabled_thread by (metis by_thread.simps(6))
    consider "sem_count x \<noteq> 0" | "sem_count x = 0" "timeout = 0" | "sem_count x = 0" "timeout \<noteq> 0" by blast
    then show ?thesis
    proof cases
      case 1
      with Take ex sem_acquire_token [OF x 1] show ?thesis by (intro waits_after_same) auto
    next
      case 2
      with Take ex sem_acquire_poll [OF x] show ?thesis by (intro waits_after_same) auto
    next
      case 3
      obtain s'' where s'': "os_semaphore_acquire a timeout s = Some (Parked, s'')"
        "os_tasks s'' = (os_tasks s)[c := parked (SemQ a) timeout (os_tasks s ! c)]"
        by (rule sem_acquire_block [OF I(1) c x 3 I(2)])
      with Take ex c len show ?thesis
        by (cases "t = c") (simp_all add: waits_after_def running_def)
    qed
  next
    case (Sleep ms)
    from Sleep en obtain c where c: "running s c" using enabled_thread by (metis by_thread.simps(8))
    show ?thesis
    proof (cases "ms = 0")
      case True
      with Sleep ex show ?thesis by (intro waits_after_same) (simp_all add: os_delay_def)
    next
      case False
      with os_delay_effect(1) [OF I(1) c I(2) False] Sleep ex c len show ?thesis
        by (cases "t = c") (auto simp: waits_after_def running_def asleep_def)
    qed
  next
    case (Store a v)
    with ex show ?thesis by (intro waits_after_same) auto
  next
    case (Give a)
    with obj obtain x where x: "sems s a = Some x" by auto
    with give_waits [OF I(1) x _ t] Give ex show ?thesis by simp
  next
    case (Isr_give a)
    with obj obtain x where x: "sems s a = Some x" by auto
    with give_waits [OF I(1) x _ t] Isr_give ex show ?thesis by simp
  qed
qed

lemma no_waiters_iff:
  assumes "kinv s"
  shows "waiters s k = [] \<longleftrightarrow> (\<forall>t<tc s. wait_queue (os_tasks s ! t) \<noteq> Some k)"
proof
  show "waiters s k = []" if "\<forall>t<tc s. wait_queue (os_tasks s ! t) \<noteq> Some k"
    using that waits_okD(7) [OF kinvD(1) [OF assms], of _ k] waits_okD(8) [OF kinvD(1) [OF assms], of _ k]
    by (cases "waiters s k") force+
qed (use waits_okD(8) [OF kinvD(1) [OF assms]] in force)

subsection \<open>The place of a task at a mutex\<close>

datatype seat = Away | Waiting | Holding

definition seat :: "kernel \<Rightarrow> maddr \<Rightarrow> tid \<Rightarrow> seat" where
  "seat s m t = (if holder s m = Some t then Holding
     else if wait_queue (os_tasks s ! t) = Some (MutexQ m) then Waiting else Away)"

text \<open>A task that waits without a time limit.\<close>

definition patient :: "kernel \<Rightarrow> maddr \<Rightarrow> tid \<Rightarrow> bool" where
  "patient s m t \<longleftrightarrow> (seat s m t = Waiting \<longrightarrow> sleep_time (os_tasks s ! t) = 0)"

lemma seat_simps:
  "seat s m t = Holding \<longleftrightarrow> holder s m = Some t"
  "seat s m t = Waiting \<longleftrightarrow> holder s m \<noteq> Some t \<and> wait_queue (os_tasks s ! t) = Some (MutexQ m)"
  "seat s m t = Away \<longleftrightarrow> holder s m \<noteq> Some t \<and> wait_queue (os_tasks s ! t) \<noteq> Some (MutexQ m)"
  by (simp_all add: seat_def)

lemma running_seat:
  "kinv s \<Longrightarrow> running s t \<Longrightarrow> seat s m t \<noteq> Away \<Longrightarrow> seat s m t = Holding"
  using running_free [of s t] by (auto simp: seat_def split: if_splits)

lemma holding_alone: "seat s m t = Holding \<Longrightarrow> seat s m u = Holding \<Longrightarrow> t = u"
  by (simp add: seat_simps)

lemma next_waits:
  assumes "kinv s"
  shows "next_owner m s = Some t \<Longrightarrow> wait_queue (os_tasks s ! t) = Some (MutexQ m)"
    "next_waiter a s = Some t \<Longrightarrow> wait_queue (os_tasks s ! t) = Some (SemQ a)"
  using picked_waits(3) [OF kinvD(1) [OF assms], of "MutexQ m"] picked_waits(3) [OF kinvD(1) [OF assms], of "SemQ a"]
  by (simp_all add: next_owner_def next_waiter_def)

lemma ticked_waits:
  "sleep_time x = 0 \<Longrightarrow> ticked x = x"
  "wait_queue (ticked x) = None \<or> wait_queue (ticked x) = wait_queue x \<and> (sleep_time x = 0 \<longrightarrow> sleep_time (ticked x) = 0)"
  by (simp_all add: ticked_def)

text \<open>What the others do: a waiting task goes on waiting or is handed the mutex.\<close>

lemma seat_other:
  assumes inv: "sys_inv idle s" and en: "enabled idle s e" and ex: "exec e s = Some s'" and t: "t < tc s"
    and other: "by_thread e \<Longrightarrow> current_tcb s \<noteq> Some t" and mine: "e = Unlock m \<Longrightarrow> holder s m = current_tcb s"
    and pat: "patient s m t"
  shows "patient s' m t \<and> (seat s' m t = seat s m t \<or> seat s m t = Waiting \<and> seat s' m t = Holding)"
proof -
  have K: "kinv s" using inv by (simp add: sys_inv_def)
  have H: "holder s' = holder_after s e" using exec_views [OF inv en ex] by (simp add: views_def)
  have W: "waits_after s e t (os_tasks s' ! t)" by (rule exec_waits [OF inv en ex t])
  have held: "holder s' m = Some t \<longleftrightarrow> holder s m = Some t \<or> e = Unlock m \<and> next_owner m s = Some t"
    using other mine by (cases e) (auto simp: H)
  show ?thesis
  proof (cases "wakes s e = Some t")
    case True
    then have w: "wait_part (os_tasks s' ! t) = (None, 0, OS_SUCCESS)" using W by (simp add: waits_after_def)
    consider (unlock) k where "e = Unlock k" "next_owner k s = Some t" "wait_queue (os_tasks s ! t) = Some (MutexQ k)"
      | (give) a where "wait_queue (os_tasks s ! t) = Some (SemQ a)" "\<forall>k. e \<noteq> Unlock k"
      using True next_waits [OF K] by (cases e) auto
    then show ?thesis
    proof cases
      case unlock
      with w held show ?thesis by (cases "k = m") (auto simp: patient_def seat_def wait_part_def)
    next
      case give
      with w held show ?thesis by (auto simp: patient_def seat_def wait_part_def)
    qed
  next
    case False
    then have held': "holder s' m = Some t \<longleftrightarrow> holder s m = Some t" using held by auto
    show ?thesis
    proof (cases "e = Tick")
      case True
      then have "os_tasks s' ! t = ticked (os_tasks s ! t)" using W False by (simp add: waits_after_def)
      with held' pat ticked_waits [of "os_tasks s ! t"] show ?thesis
        by (cases "sleep_time (os_tasks s ! t) = 0") (auto simp: patient_def seat_def)
    next
      case no_tick: False
      then have "wait_part (os_tasks s' ! t) = wait_part (os_tasks s ! t)"
        using W False other by (auto simp: waits_after_def)
      with held' pat show ?thesis by (simp add: patient_def seat_def wait_part_def)
    qed
  qed
qed

text \<open>What the task does itself.\<close>

lemma seat_lock:
  assumes inv: "sys_inv idle s" and en: "enabled idle s (Lock m WAIT_FOREVER)"
    and ex: "exec (Lock m WAIT_FOREVER) s = Some s'" and c: "running s c" and away: "seat s m c = Away"
  shows "seat s' m c \<noteq> Away \<and> patient s' m c"
proof -
  have K: "kinv s" "kernel_running s" using inv by (simp_all add: sys_inv_def)
  have H: "holder s' = holder_after s (Lock m WAIT_FOREVER)" using exec_views [OF inv en ex] by (simp add: views_def)
  show ?thesis
  proof (cases "holder s m")
    case None
    then have "holder s' m = Some c" using c by (simp add: H running_def)
    then show ?thesis by (simp add: patient_def seat_def)
  next
    case (Some w)
    then obtain x where x: "mutexes s m = Some x" "lock x \<noteq> 0" "owner x = Some w"
      by (auto simp: holder_def split: option.splits if_splits)
    have w: "owner x \<noteq> Some c" "WAIT_FOREVER \<noteq> 0" using away Some x(3) by (simp_all add: seat_simps WAIT_FOREVER_def)
    then obtain o' s'' where s'': "os_mutex_acquire m WAIT_FOREVER s = Some (Parked, s'')"
      "os_tasks s'' = (donated c o' (os_tasks s))[c := parked (MutexQ m) WAIT_FOREVER (os_tasks s ! c)]"
      using mutex_acquire_block [OF K(1) c x(1,2) w K(2)] by metis
    have "c < length (donated c o' (os_tasks s))"
      using waits_okD(3) [OF kinvD(1) [OF K(1)]] c by (simp add: running_def donated_def)
    with s'' ex have "os_tasks s' ! c = parked (MutexQ m) WAIT_FOREVER (os_tasks s ! c)" by simp
    then show ?thesis by (simp add: patient_def seat_def)
  qed
qed

lemma seat_unlock:
  assumes inv: "sys_inv idle s" and en: "enabled idle s (Unlock m)"
    and ex: "exec (Unlock m) s = Some s'" and c: "running s c"
  shows "seat s' m c = Away"
proof -
  have K: "kinv s" using inv by (simp add: sys_inv_def)
  have "holder s' = holder_after s (Unlock m)" using exec_views [OF inv en ex] by (simp add: views_def)
  moreover have free: "wait_queue (os_tasks s ! c) = None" by (rule running_free [OF kinvD(1) [OF K] c])
  moreover have "next_owner m s \<noteq> Some c" using next_waits(1) [OF K, of m c] free by auto
  moreover have "c < tc s" using c by (simp add: running_def)
  from exec_waits [OF inv en ex this] have "wait_queue (os_tasks s' ! c) = None"
    using free by (auto simp: waits_after_def wait_part_def split: if_splits)
  ultimately show ?thesis by (simp add: seat_simps)
qed

lemma seat_self:
  assumes inv: "sys_inv idle s" and en: "enabled idle s e" and ex: "exec e s = Some s'" and c: "running s c"
    and e: "by_thread e" "\<forall>n. e \<noteq> Lock m n" "e \<noteq> Unlock m"
  shows "seat s' m c = seat s m c \<and> patient s' m c"
proof -
  have K: "kinv s" using inv by (simp add: sys_inv_def)
  have H: "holder s' = holder_after s e" using exec_views [OF inv en ex] by (simp add: views_def)
  have free: "wait_queue (os_tasks s ! c) = None" by (rule running_free [OF kinvD(1) [OF K] c])
  have "holder s' m = holder s m" using e by (cases e) (auto simp: H)
  moreover have "wait_queue (os_tasks s' ! c) \<noteq> Some (MutexQ m)"
  proof -
    have "c < tc s" using c by (simp add: running_def)
    from exec_waits [OF inv en ex this] e free show ?thesis
      by (cases e) (auto simp: waits_after_def wait_part_def split: if_splits)
  qed
  ultimately show ?thesis using free by (simp add: patient_def seat_def)
qed

end
