(* ===== verification/Firmware.thy ===== *)
theory Firmware
  imports Tasks Seats
begin

text \<open>
  The running firmware: the kernel, the drivers and the three tasks of \<^verbatim>\<open>Tasks/tasks.c\<close>
  together, with the timer tick, the echo capture and the context switch coming at any
  time. The running task makes one step at a time; while it prints, a step is one call of
  \<^verbatim>\<open>io_putchar\<close>, so a switch may fall between any two characters of a line.
\<close>

subsection \<open>Printing character by character\<close>

fun print_bytes :: "hardware \<Rightarrow> u32 list \<Rightarrow> history \<Rightarrow> history option" where
  "print_bytes hw [] h = Some h"
| "print_bytes hw (ch # out) h = do { (_, h) \<leftarrow> io_putchar hw ch h; print_bytes hw out h }"

lemma print_bytes_append:
  "print_bytes hw (xs @ ys) h = do { h \<leftarrow> print_bytes hw xs h; print_bytes hw ys h }"
  by (induction xs arbitrary: h) (auto split: Option.bind_split prod.split)

lemma uart_print_bytes: "uart_print hw str h = print_bytes hw (codes str) h"
  by (induction str arbitrary: h) (auto simp: codes_def split: Option.bind_split prod.split)

lemma number_print_bytes:
  "i \<le> length buffer \<Longrightarrow> take i buffer = map Some bs \<Longrightarrow>
   number_print hw buffer i h = print_bytes hw (map ucast (rev bs)) h"
proof (induction i arbitrary: h bs)
  case (Suc i)
  obtain cs b where bs: "bs = cs @ [b]" using Suc.prems by (cases bs rule: rev_cases) auto
  have b: "rd buffer i = Some (Some b)" and cs: "take i buffer = map Some cs"
    using Suc.prems by (auto simp: bs take_Suc_conv_app_nth)
  show ?case
    using Suc.IH [OF Suc_leD [OF Suc.prems(1)] cs] b
    by (auto simp: bs split: Option.bind_split prod.split)
qed simp

lemma uart_print_number_bytes: "uart_print_number hw num h = print_bytes hw (number_bytes num) h"
proof (cases "num = 0")
  case True
  have "codes ''0'' = number_bytes 0" by (simp add: codes_def number_bytes_def char_code_def digit_def)
  with True show ?thesis by (simp add: uart_print_number_def uart_print_bytes)
next
  case False
  let ?ds = "decimal (unat num)"
  have "unat num < 10 ^ 10" using unat_u32_less [of num] by simp
  then have len: "length ?ds \<le> 10" by (rule decimal_length)
  define B where "B = map (\<lambda>d. Some (digit d)) (rev ?ds) @ drop (length ?ds) (replicate 10 None)"
  from len have num: "number_digits num 0 (replicate 10 None) = Some (length ?ds, B)"
    by (simp add: number_digits_eq B_def)
  have "number_print hw B (length ?ds) h = print_bytes hw (map ucast (rev (map digit (rev ?ds)))) h"
    by (rule number_print_bytes) (simp_all add: B_def)
  with num False show ?thesis by (simp add: uart_print_number_def number_bytes_def rev_map o_def)
qed

text \<open>The bytes of a line of \<^verbatim>\<open>log_line\<close> with two labels.\<close>

definition line_bytes :: "string \<Rightarrow> u32 \<Rightarrow> string \<Rightarrow> u32 \<Rightarrow> u32 list" where
  "line_bytes label a label2 b = codes label @ number_bytes a @ codes label2 @ number_bytes b @ [13, 10]"

lemma log_print_bytes: "log_print hw label a (Some label2) b h = print_bytes hw (line_bytes label a label2 b) h"
proof -
  have "codes [CHR 0x0D, CHR 0x0A] = [13, 10]" by (simp add: codes_def char_code_def)
  then show ?thesis
    by (simp add: log_print_def line_bytes_def uart_print_bytes uart_print_number_bytes print_bytes_append
        del: print_bytes.simps)
qed

subsection \<open>A task with the characters it has yet to print\<close>

text \<open>
  \<open>prints pt\<close> is what the code at point \<open>pt\<close> prints, one character a step; \<open>rest pt\<close> is the
  point after it. At every other point a step is that of the task.
\<close>

definition turn ::
    "hardware \<Rightarrow> ('pc \<Rightarrow> u32 list) \<Rightarrow> ('pc \<Rightarrow> 'pc) \<Rightarrow> ('pc \<Rightarrow> board \<Rightarrow> ('pc \<times> board) option) \<Rightarrow>
     'pc \<times> u32 list \<Rightarrow> board \<Rightarrow> (('pc \<times> u32 list) \<times> board) option" where
  "turn hw prints rest go = (\<lambda>(pt, out) b.
     case out of
       ch # out \<Rightarrow> do { (_, h) \<leftarrow> io_putchar hw ch (hst b); Some ((pt, out), b\<lparr>hst := h\<rparr>) }
     | [] \<Rightarrow>
         if prints pt \<noteq> [] then Some ((rest pt, []), b)
         else do { (pt, b) \<leftarrow> go pt b; Some ((pt, prints pt), b) })"

fun sweep_prints :: "sweep_pc \<Rightarrow> u32 list" where
  "sweep_prints W_banner = codes banner"
| "sweep_prints _ = []"

fun sweep_rest :: "sweep_pc \<Rightarrow> sweep_pc" where
  "sweep_rest W_banner = W_unlock"
| "sweep_rest pt = pt"

definition radar_line :: "u32 \<Rightarrow> u32 \<Rightarrow> u32 list" where
  "radar_line angle distance = line_bytes ''[Radar] Angle: '' angle '' | Dist (cm): '' distance"

fun radar_prints :: "radar_pc \<Rightarrow> u32 list" where
  "radar_prints (P_print angle distance) = radar_line angle distance"
| "radar_prints _ = []"

fun radar_rest :: "radar_pc \<Rightarrow> radar_pc" where
  "radar_rest (P_print angle distance) = P_unlock angle"
| "radar_rest pt = pt"

abbreviation sweep_turn_at :: "hardware \<Rightarrow> sweep_pc \<times> u32 list \<Rightarrow> board \<Rightarrow> ((sweep_pc \<times> u32 list) \<times> board) option" where
  "sweep_turn_at hw \<equiv> turn hw sweep_prints sweep_rest (sweep_step hw)"

abbreviation radar_turn_at ::
    "cmsis \<Rightarrow> hardware \<Rightarrow> radar_pc \<times> u32 list \<Rightarrow> board \<Rightarrow> ((radar_pc \<times> u32 list) \<times> board) option" where
  "radar_turn_at c hw \<equiv> turn hw radar_prints radar_rest (radar_step c hw)"

text \<open>Undisturbed, the steps of a print are the print.\<close>

fun turns :: "('w \<Rightarrow> 'w option) \<Rightarrow> nat \<Rightarrow> 'w \<Rightarrow> 'w option" where
  "turns f 0 w = Some w"
| "turns f (Suc n) w = do { w \<leftarrow> f w; turns f n w }"

lemma turns_print:
  "turns (\<lambda>(p, b). turn hw prints rest go p b) (length out) ((pt, out), b) =
   do { h \<leftarrow> print_bytes hw out (hst b); Some ((pt, []), b\<lparr>hst := h\<rparr>) }"
  by (induction out arbitrary: b) (auto simp: turn_def split: Option.bind_split prod.split)

lemma turns_Suc_end: "turns f (Suc n) w = do { w \<leftarrow> turns f n w; f w }"
proof (induction n arbitrary: w)
  case (Suc n)
  have "turns f (Suc (Suc n)) w = do { v \<leftarrow> f w; turns f (Suc n) v }" by (rule turns.simps(2))
  also have "\<dots> = do { v \<leftarrow> f w; u \<leftarrow> turns f n v; f u }" by (simp only: Suc.IH)
  also have "\<dots> = do { u \<leftarrow> turns f (Suc n) w; f u }" by (cases "f w") simp_all
  finally show ?case .
qed (simp split: Option.bind_split)

lemma sweep_print_turns:
  "turns (\<lambda>(p, b). sweep_turn_at hw p b) (Suc (length (codes banner))) ((W_banner, codes banner), b) =
   do { (pt, b) \<leftarrow> sweep_step hw W_banner b; Some ((pt, []), b) }"
  unfolding turns_Suc_end turns_print
  by (auto simp: turn_def uart_print_bytes on_history_def banner_def codes_def split: Option.bind_split prod.split)

lemma radar_line_nonempty [simp]: "radar_line angle distance \<noteq> []"
  by (simp add: radar_line_def line_bytes_def)

lemma radar_print_turns:
  "turns (\<lambda>(p, b). radar_turn_at c hw p b) (Suc (length (radar_line angle distance)))
     ((P_print angle distance, radar_line angle distance), b) =
   do { (pt, b) \<leftarrow> radar_step c hw (P_print angle distance) b; Some ((pt, []), b) }"
  unfolding turns_Suc_end turns_print
  by (auto simp: turn_def log_print_bytes radar_line_def [symmetric] on_history_def split: Option.bind_split prod.split)

subsection \<open>The system\<close>

record firmware =
  brd :: board
  rdr :: "radar_pc \<times> u32 list"
  swp :: "sweep_pc \<times> u32 list"

text \<open>
  The events: a step of the running task (0 the radar, 1 the sweep, 2 the idle task), the
  tick, the capture interrupt of the echo, and the context switch with the registers it
  interrupts.
\<close>

datatype fw_event = Run tid | Timer | Capture | Pend cpu

fun fw_exec :: "cmsis \<Rightarrow> hardware \<Rightarrow> fw_event \<Rightarrow> firmware \<Rightarrow> firmware option" where
  "fw_exec c hw (Run t) w =
     (if t = 0 then do { (p, b) \<leftarrow> radar_turn_at c hw (rdr w) (brd w); Some (w\<lparr>rdr := p, brd := b\<rparr>) }
      else if t = 1 then do { (p, b) \<leftarrow> sweep_turn_at hw (swp w) (brd w); Some (w\<lparr>swp := p, brd := b\<rparr>) }
      else Some (w\<lparr>brd := os_idle_task (brd w)\<rparr>))"
| "fw_exec c hw Timer w = do { b \<leftarrow> on_kernel SysTick_Handler (brd w); Some (w\<lparr>brd := b\<rparr>) }"
| "fw_exec c hw Capture w = do {
     (e, s, h) \<leftarrow> TIM2_IRQHandler c hw (ech (brd w), krn (brd w), hst (brd w));
     Some (w\<lparr>brd := (brd w)\<lparr>ech := e, krn := s, hst := h\<rparr>\<rparr>) }"
| "fw_exec c hw (Pend core) w = do {
     b \<leftarrow> on_kernel (\<lambda>s. map_option snd (context_switch core s)) (brd w); Some (w\<lparr>brd := b\<rparr>) }"

text \<open>
  A task steps while it is the running one and no switch is pending; the interrupts come at
  any time; nothing happens once the overflow hook has been entered.
\<close>

definition on_cpu :: "kernel \<Rightarrow> tid \<Rightarrow> bool" where
  "on_cpu s t \<longleftrightarrow> halted_in s = None \<and> \<not> pendsv s \<and> running s t"

fun fw_enabled :: "fw_event \<Rightarrow> firmware \<Rightarrow> bool" where
  "fw_enabled (Run t) w = on_cpu (krn (brd w)) t"
| "fw_enabled (Pend core) w = (halted_in (krn (brd w)) = None \<and> pendsv (krn (brd w)))"
| "fw_enabled _ w = (halted_in (krn (brd w)) = None)"

inductive fw_step :: "cmsis \<Rightarrow> hardware \<Rightarrow> firmware \<Rightarrow> fw_event \<Rightarrow> firmware \<Rightarrow> bool" for c hw where
  exec: "fw_enabled e w \<Longrightarrow> fw_exec c hw e w = Some w' \<Longrightarrow> fw_step c hw w e w'"

inductive_simps fw_step_iff: "fw_step c hw w e w'"

inductive fw_reachable :: "cmsis \<Rightarrow> hardware \<Rightarrow> firmware \<Rightarrow> firmware \<Rightarrow> bool" for c hw w0 where
  start: "fw_reachable c hw w0 w0"
| later: "fw_reachable c hw w0 w \<Longrightarrow> fw_step c hw w e w' \<Longrightarrow> fw_reachable c hw w0 w'"

text \<open>The tasks at their first instructions.\<close>

definition launched :: "board \<Rightarrow> firmware" where
  "launched b = \<lparr>brd = b, rdr = (P_ping 0, []), swp = (W_lock, [])\<rparr>"

end
