(* ===== verification/Firmware_Steps.thy ===== *)
theory Firmware_Steps
  imports Firmware
begin

text \<open>
  What the steps of the tasks do to the kernel they share: each is one event of the kernel's
  interface, or none. \<open>kernel_ok\<close> is what the tasks rely on: the system invariant and the
  objects that \<^verbatim>\<open>main\<close> initialised.
\<close>

subsection \<open>The kernel the tasks share\<close>

definition ring_good :: "kernel \<Rightarrow> bool" where
  "ring_good s \<longleftrightarrow> (\<exists>x. queues s sweep_queue = Some x \<and> q_head x < q_capacity x \<and> q_tail x < q_capacity x)"

fun shared_event :: "event \<Rightarrow> bool" where
  "shared_event (Lock m _) = (m = uart_lock \<or> m = Queue_Lock sweep_queue)"
| "shared_event (Unlock m) = (m = uart_lock \<or> m = Queue_Lock sweep_queue)"
| "shared_event (Take a _) = (a = echo_ready \<or> a = Queue_Empty sweep_queue \<or> a = Queue_Filled sweep_queue)"
| "shared_event (Give a) = (a = echo_ready \<or> a = Queue_Empty sweep_queue \<or> a = Queue_Filled sweep_queue)"
| "shared_event (Isr_give a) = (a = echo_ready)"
| "shared_event _ = True"

definition objects_made :: "kernel \<Rightarrow> bool" where
  "objects_made s \<longleftrightarrow> {uart_lock, Queue_Lock sweep_queue} \<subseteq> dom (mutexes s) \<and>
     {echo_ready, Queue_Empty sweep_queue, Queue_Filled sweep_queue} \<subseteq> dom (sems s)"

definition kernel_ok :: "kernel \<Rightarrow> bool" where
  "kernel_ok s \<longleftrightarrow> sys_inv 2 s \<and> task_count s = 3 \<and> objects_made s \<and> ring_good s"

lemma objects_ready: "objects_made s \<Longrightarrow> shared_event e \<Longrightarrow> object_ready e s"
  by (cases e) (auto simp: objects_made_def)

lemma shared_enabled:
  assumes "kernel_ok s" "on_cpu s t" "t < 2" "shared_event e" "by_thread e"
  shows "enabled 2 s e"
proof -
  have "object_ready e s" using assms(1,4) objects_ready by (auto simp: kernel_ok_def)
  with assms(2,3,5) show ?thesis by (cases e) (auto simp: enabled_def on_cpu_def running_def)
qed

lemma exec_kernel_ok:
  assumes "kernel_ok s" "enabled 2 s e"
  obtains s' where "exec e s = Some s'" "kernel_ok s'"
proof -
  obtain s' where s': "exec e s = Some s'" "sys_inv 2 s'" using exec_ok [of 2 s e] assms by (auto simp: kernel_ok_def)
  have "same_objects s s'" by (rule exec_objects [OF s'(1)])
  with s' assms(1) that show ?thesis
    by (simp add: kernel_ok_def same_objects_def objects_made_def ring_good_def)
qed

subsection \<open>A step is an event, or none\<close>

definition moved :: "event option \<Rightarrow> kernel \<Rightarrow> kernel \<Rightarrow> bool" where
  "moved eo s s' \<longleftrightarrow> (case eo of Some e \<Rightarrow> exec e s = Some s'
     | None \<Rightarrow> (\<exists>h qs. s' = s\<lparr>mem := h, queues := qs\<rparr>) \<and> (ring_good s \<longrightarrow> ring_good s'))"

lemma moved_words:
  "s' = s\<lparr>mem := h, queues := qs\<rparr> \<Longrightarrow> (ring_good s \<Longrightarrow> ring_good s') \<Longrightarrow> moved None s s'"
  by (auto simp: moved_def)

lemma moved_refl [simp]: "moved None s s"
  by (rule moved_words [where h = "mem s" and qs = "queues s"]) simp_all

lemma sys_inv_words: "sys_inv i (s\<lparr>mem := h, queues := qs\<rparr>) = sys_inv i s"
proof -
  have "kinv (s\<lparr>mem := h, queues := qs\<rparr>) = kinv s"
    by (simp add: kinv_def waits_ok_def objs_ok_def mutex_ok_def sem_ok_def current_ok_def wait_shape_def)
  then show ?thesis by (simp add: sys_inv_def one_running_def running_def)
qed

lemma moved_kernel_ok:
  assumes ok: "kernel_ok s" and mv: "moved eo s s'" and en: "\<And>e. eo = Some e \<Longrightarrow> enabled 2 s e"
  shows "kernel_ok s'"
proof (cases eo)
  case None
  with mv ok show ?thesis
    by (auto simp: moved_def kernel_ok_def sys_inv_words objects_made_def)
next
  case (Some e)
  with mv exec_kernel_ok [OF ok en [OF Some]] show ?thesis by (auto simp: moved_def)
qed

subsection \<open>The queue calls\<close>

fun q_event :: "nat \<Rightarrow> q_pc \<Rightarrow> event option" where
  "q_event q (S_take _ timeout) = Some (Take (Queue_Empty q) timeout)"
| "q_event q (S_lock _ _) = Some (Lock (Queue_Lock q) WAIT_FOREVER)"
| "q_event q (S_unlock _) = Some (Unlock (Queue_Lock q))"
| "q_event q (S_post had) = (if had then Some (Give (Queue_Filled q)) else None)"
| "q_event q (S_fail had) = (if had then Some (Give (Queue_Empty q)) else None)"
| "q_event q (R_take timeout) = Some (Take (Queue_Filled q) timeout)"
| "q_event q R_lock = Some (Lock (Queue_Lock q) WAIT_FOREVER)"
| "q_event q (R_unlock _) = Some (Unlock (Queue_Lock q))"
| "q_event q (R_post _) = Some (Give (Queue_Empty q))"
| "q_event q R_fail = Some (Give (Queue_Filled q))"
| "q_event q _ = None"

lemma q_event_shared: "q_event sweep_queue pt = Some e \<Longrightarrow> shared_event e \<and> by_thread e"
  by (cases pt) (auto split: if_splits)

lemma q_event_uart: "q_event q pt \<noteq> Some (Lock uart_lock n)" "q_event q pt \<noteq> Some (Unlock uart_lock)"
  by (cases pt; simp add: uart_lock_def)+

lemma after_acquire_snd: "after_acquire wt cont (r, s) = (pt', s') \<Longrightarrow> s' = s"
  by (auto simp: after_acquire_def split: outcome.splits)

lemma mod_below: "x < n \<Longrightarrow> y mod n < n" for x y n :: u32
  by (metis word_gt_0 word_mod_less_divisor word_not_simps(1))

lemma ring_write_moved: "ring_write sweep_queue msg had s = Some s' \<Longrightarrow> moved None s s'"
proof -
  assume wr: "ring_write sweep_queue msg had s = Some s'"
  show ?thesis
    by (rule moved_words [where h = "mem s'" and qs = "queues s'"])
      (use wr in \<open>auto simp: ring_write_def ring_good_def Option.bind_eq_Some_conv Let_def not_le
        split: if_splits intro: mod_below\<close>)
qed

lemma ring_read_moved: "ring_read sweep_queue s = Some (v, s') \<Longrightarrow> moved None s s'"
proof -
  assume rd: "ring_read sweep_queue s = Some (v, s')"
  show ?thesis
    by (rule moved_words [where h = "mem s'" and qs = "queues s'"])
      (use rd in \<open>auto simp: ring_read_def ring_good_def Option.bind_eq_Some_conv not_le
        split: if_splits intro: mod_below\<close>)
qed

lemma q_step_moved:
  assumes "q_step sweep_queue pt s = Some (pt', s')"
  shows "moved (q_event sweep_queue pt) s s'"
  using assms
  by (cases pt) (auto simp: Option.bind_eq_Some_conv moved_def [of "Some _"] intro: ring_write_moved ring_read_moved
      dest!: after_acquire_snd split: if_splits)

lemma q_step_defined:
  assumes "\<And>e. q_event sweep_queue pt = Some e \<Longrightarrow> exec e s \<noteq> None" and "ring_good s"
    and "current_tcb s = Some t" "t < length (os_tasks s)"
  shows "q_step sweep_queue pt s \<noteq> None"
  using assms
  by (cases pt) (auto simp: ring_write_def ring_read_def ring_good_def os_resume_result_def get_tcb_def Let_def
      not_le split: if_splits)

subsection \<open>The tasks\<close>

text \<open>Histories between which the UART is left alone.\<close>

definition quiet_uart :: "history \<Rightarrow> history \<Rightarrow> bool" where
  "quiet_uart h h' \<longleftrightarrow> writes USART2_DR h' = writes USART2_DR h \<and> writes USART2_CR1 h' = writes USART2_CR1 h"

lemma quiet_uart_refl [simp]: "quiet_uart h h"
  by (simp add: quiet_uart_def)

fun sweep_event :: "sweep_pc \<Rightarrow> event option" where
  "sweep_event W_lock = Some (Lock uart_lock WAIT_FOREVER)"
| "sweep_event W_unlock = Some (Unlock uart_lock)"
| "sweep_event (W_home a) = (if sint a \<ge> 0 then None else Some (Sleep 500))"
| "sweep_event (W_home_delay a) = Some (Sleep 50)"
| "sweep_event (W_send a d q) = q_event sweep_queue q"
| "sweep_event (W_delay a d) = Some (Sleep SWEEP_PERIOD_MS)"
| "sweep_event _ = None"

fun radar_event :: "radar_pc \<Rightarrow> event option" where
  "radar_event (P_take angle) = Some (Take echo_ready 60)"
| "radar_event (P_recv angle distance q) = q_event sweep_queue q"
| "radar_event (P_lock angle distance) = Some (Lock uart_lock WAIT_FOREVER)"
| "radar_event (P_unlock angle) = Some (Unlock uart_lock)"
| "radar_event (P_delay angle) = Some (Sleep RADAR_PERIOD_MS)"
| "radar_event _ = None"

text \<open>From the acquire of the UART's mutex to its release.\<close>

fun sweep_wants :: "sweep_pc \<Rightarrow> bool" where
  "sweep_wants W_banner = True"
| "sweep_wants W_unlock = True"
| "sweep_wants _ = False"

fun radar_wants :: "radar_pc \<Rightarrow> bool" where
  "radar_wants (P_print _ _) = True"
| "radar_wants (P_unlock _) = True"
| "radar_wants _ = False"

text \<open>The points the radar can be at: a receive, which on success has a message.\<close>

fun receiving :: "q_pc \<Rightarrow> bool" where
  "receiving (Q_done code v) = (code = OS_SUCCESS \<longrightarrow> v \<noteq> None)"
| "receiving (R_take _) = True"
| "receiving R_take_wait = True"
| "receiving R_lock = True"
| "receiving R_lock_wait = True"
| "receiving R_read = True"
| "receiving (R_unlock _) = True"
| "receiving (R_post _) = True"
| "receiving R_fail = True"
| "receiving _ = False"

fun radar_typed :: "radar_pc \<Rightarrow> bool" where
  "radar_typed (P_recv angle distance q) = receiving q"
| "radar_typed _ = True"

lemma receiving_step:
  assumes "q_step q pt s = Some (pt', s')" "receiving pt"
  shows "receiving pt'"
proof -
  have codes: "OS_TIMEOUT \<noteq> OS_SUCCESS" "OS_FAIL \<noteq> OS_SUCCESS" by (simp_all add: model_defs)
  show ?thesis
    using assms codes
    by (cases pt) (auto simp: Option.bind_eq_Some_conv r_took_def r_locked_def dest!: after_acquire_cases
        split: if_splits)
qed

lemma events_shared:
  "sweep_event pt = Some e \<Longrightarrow> shared_event e \<and> by_thread e"
  "radar_event qt = Some e \<Longrightarrow> shared_event e \<and> by_thread e"
  by (cases pt; auto split: if_splits dest: q_event_shared)
    (cases qt; auto dest: q_event_shared)

lemma on_kernel_Some: "on_kernel f b = Some b' \<longleftrightarrow> (\<exists>s'. f (krn b) = Some s' \<and> b' = b\<lparr>krn := s'\<rparr>)"
  by (auto simp: on_kernel_def)

lemma lock_uart_Some:
  "lock_uart b = Some b' \<longleftrightarrow> (\<exists>s'. exec (Lock uart_lock WAIT_FOREVER) (krn b) = Some s' \<and> b' = b\<lparr>krn := s'\<rparr>)"
  "unlock_uart b = Some b' \<longleftrightarrow> (\<exists>s'. exec (Unlock uart_lock) (krn b) = Some s' \<and> b' = b\<lparr>krn := s'\<rparr>)"
  by (simp_all add: lock_uart_def unlock_uart_def on_kernel_Some)

lemma servo_quiet [simp]: "quiet_uart h (servo_set_angle p d h)"
  by (simp add: quiet_uart_def servo_set_angle_def pwm_set_pulse_us_def Let_def)

lemma sweep_step_moved:
  assumes "sweep_step hw pt b = Some (pt', b')" "sweep_prints pt = []"
  shows "moved (sweep_event pt) (krn b) (krn b') \<and> quiet_uart (hst b) (hst b')"
proof (cases pt)
  case W_banner
  with assms(2) show ?thesis by (simp add: codes_def banner_def)
next
  case (W_send a d q)
  show ?thesis
  proof (cases "q_finished q")
    case True
    with W_send assms(1) show ?thesis by (cases q) (auto split: prod.splits)
  next
    case False
    with W_send assms(1) q_step_moved show ?thesis by (auto simp: Option.bind_eq_Some_conv)
  qed
qed (use assms in \<open>auto simp: Option.bind_eq_Some_conv on_kernel_Some lock_uart_Some moved_def [of "Some _"]
      split: if_splits\<close>)

lemma radar_take_step:
  assumes "radar_step c hw (P_take angle) b = Some (pt', b')"
  shows "\<exists>r s'. os_semaphore_acquire echo_ready 60 (krn b) = Some (r, s') \<and> b' = b\<lparr>krn := s'\<rparr> \<and>
    (pt' = P_echo angle \<or> (\<exists>code. pt' = P_got angle (echo_cm code (ech b))))"
proof -
  obtain r s' where "os_semaphore_acquire echo_ready 60 (krn b) = Some (r, s')"
    "b' = b\<lparr>krn := s'\<rparr>"
    "pt' = (case r of Returned code \<Rightarrow> P_got angle (echo_cm code (ech b)) | Parked \<Rightarrow> P_echo angle)"
    using assms by (auto simp: Option.bind_eq_Some_conv)
  then show ?thesis by (cases r) auto
qed

lemma radar_recv_step:
  assumes "radar_step c hw (P_recv angle distance q) b = Some (pt', b')" "\<not> q_finished q"
  obtains q' s' where "q_step sweep_queue q (krn b) = Some (q', s')" "pt' = P_recv angle distance q'"
    "b' = b\<lparr>krn := s'\<rparr>"
proof -
  have "radar_step c hw (P_recv angle distance q) b = do { (q, s) \<leftarrow> q_step sweep_queue q (krn b);
      Some (P_recv angle distance q, b\<lparr>krn := s\<rparr>) }"
    using assms(2) by (cases q) (simp_all del: q_step.simps)
  with assms(1) obtain q' s' where "q_step sweep_queue q (krn b) = Some (q', s')"
    "pt' = P_recv angle distance q'" "b' = b\<lparr>krn := s'\<rparr>"
    by (auto simp: Option.bind_eq_Some_conv simp del: radar_step.simps)
  then show ?thesis by (rule that)
qed

lemma radar_step_moved:
  assumes "radar_step c hw pt b = Some (pt', b')" "radar_prints pt = []"
  shows "moved (radar_event pt) (krn b) (krn b') \<and> quiet_uart (hst b) (hst b')"
proof (cases pt)
  case (P_recv angle distance q)
  show ?thesis
  proof (cases "q_finished q")
    case True
    with P_recv assms(1) show ?thesis by (cases q) (auto split: if_splits option.splits)
  next
    case False
    from radar_recv_step [OF assms(1) [unfolded P_recv] this] obtain q' s'
      where "q_step sweep_queue q (krn b) = Some (q', s')" "b' = b\<lparr>krn := s'\<rparr>" by metis
    with P_recv q_step_moved show ?thesis by simp
  qed
next
  case (P_ping angle)
  with assms(1) show ?thesis by (auto simp: ultrasonic_trigger_eq quiet_uart_def)
next
  case (P_take angle)
  with radar_take_step [OF assms(1) [unfolded P_take]] show ?thesis by (auto simp: moved_def)
qed (use assms in \<open>auto simp: Option.bind_eq_Some_conv on_kernel_Some lock_uart_Some moved_def [of "Some _"]
      split: if_splits\<close>)

text \<open>A step is defined when its event is.\<close>

lemma sweep_step_defined:
  assumes "\<And>e. sweep_event pt = Some e \<Longrightarrow> exec e (krn b) \<noteq> None" "ring_good (krn b)"
    and "current_tcb (krn b) = Some t" "t < length (os_tasks (krn b))" "sweep_prints pt = []"
  shows "sweep_step hw pt b \<noteq> None"
proof (cases pt)
  case W_banner
  with assms(5) show ?thesis by (simp add: codes_def banner_def)
next
  case (W_send a d q)
  with assms q_step_defined [of q "krn b" t] show ?thesis by (auto split: prod.splits)
qed (use assms in \<open>auto simp: lock_uart_def unlock_uart_def on_kernel_def\<close>)

lemma radar_step_defined:
  assumes "\<And>e. radar_event pt = Some e \<Longrightarrow> exec e (krn b) \<noteq> None" "ring_good (krn b)"
    and "current_tcb (krn b) = Some t" "t < length (os_tasks (krn b))" "radar_prints pt = []" "radar_typed pt"
  shows "radar_step c hw pt b \<noteq> None"
proof (cases pt)
  case (P_recv angle distance q)
  have "q_step sweep_queue q (krn b) \<noteq> None" using assms P_recv by (intro q_step_defined) auto
  then obtain q' s' where "q_step sweep_queue q (krn b) = Some (q', s')" by auto
  with assms(6) P_recv show ?thesis by (cases q) (auto simp del: q_step.simps)
next
  case (P_echo angle)
  with assms show ?thesis by (simp add: ultrasonic_resume_def os_resume_result_def get_tcb_def)
qed (use assms in \<open>auto simp: lock_uart_def unlock_uart_def on_kernel_def ultrasonic_trigger_eq\<close>)

text \<open>Which steps take and give back the mutex.\<close>

lemma sweep_step_wants:
  assumes "sweep_step hw pt b = Some (pt', b')" "sweep_prints pt = []"
  shows "sweep_wants pt' \<longleftrightarrow> (if sweep_event pt = Some (Lock uart_lock WAIT_FOREVER) then True
    else if sweep_event pt = Some (Unlock uart_lock) then False else sweep_wants pt)"
  using assms
  by (cases pt) (auto simp: Option.bind_eq_Some_conv q_event_uart codes_def banner_def split: if_splits prod.splits)

lemma radar_step_wants:
  assumes "radar_step c hw pt b = Some (pt', b')" "radar_prints pt = []"
  shows "radar_wants pt' \<longleftrightarrow> (if radar_event pt = Some (Lock uart_lock WAIT_FOREVER) then True
    else if radar_event pt = Some (Unlock uart_lock) then False else radar_wants pt)"
proof (cases pt)
  case (P_take angle)
  with radar_take_step [OF assms(1) [unfolded P_take]] show ?thesis by auto
next
  case (P_recv angle distance q)
  show ?thesis
  proof (cases "q_finished q")
    case True
    with P_recv assms(1) show ?thesis by (cases q) (auto split: if_splits option.splits)
  next
    case False
    from radar_recv_step [OF assms(1) [unfolded P_recv] this] obtain q' where "pt' = P_recv angle distance q'" by metis
    with P_recv show ?thesis by (simp add: q_event_uart)
  qed
qed (use assms in \<open>auto simp: Option.bind_eq_Some_conv split: if_splits\<close>)

lemma events_at_lock:
  "sweep_event pt = Some (Lock uart_lock n) \<Longrightarrow> n = WAIT_FOREVER \<and> \<not> sweep_wants pt"
  "sweep_event pt = Some (Unlock uart_lock) \<Longrightarrow> sweep_wants pt"
  "radar_event qt = Some (Lock uart_lock n) \<Longrightarrow> n = WAIT_FOREVER \<and> \<not> radar_wants qt"
  "radar_event qt = Some (Unlock uart_lock) \<Longrightarrow> radar_wants qt"
  by (cases pt; simp add: q_event_uart split: if_splits)+ (cases qt; simp add: q_event_uart)+

lemma radar_step_typed:
  assumes "radar_step c hw pt b = Some (pt', b')" "radar_typed pt"
  shows "radar_typed pt'"
proof (cases pt)
  case (P_recv angle distance q)
  show ?thesis
  proof (cases "q_finished q")
    case True
    with P_recv assms show ?thesis by (cases q) (auto split: if_splits option.splits)
  next
    case False
    from radar_recv_step [OF assms(1) [unfolded P_recv] this] obtain q' s'
      where "q_step sweep_queue q (krn b) = Some (q', s')" "pt' = P_recv angle distance q'" by metis
    with P_recv assms(2) receiving_step [of sweep_queue q] show ?thesis by simp
  qed
next
  case (P_take angle)
  with radar_take_step [OF assms(1) [unfolded P_take]] show ?thesis by auto
qed (use assms in \<open>auto simp: Option.bind_eq_Some_conv split: if_splits\<close>)

end
