(* ===== verification/Mutex_Users.thy ===== *)
theory Mutex_Users
  imports Firmware_Steps
begin

text \<open>
  The discipline of a task at a mutex. The locale \<open>mutex_user\<close> states what the code of a task
  promises: it takes the mutex without a time limit, outside the section that the mutex
  guards, and gives it back inside. Its lemmas follow the claim of the task to the mutex
  through a step; every other task keeps its own.
\<close>

subsection \<open>A claim to a mutex\<close>

text \<open>
  A task claims the mutex, that is waits for it without a time limit or holds it, exactly
  when it is in its section.
\<close>

definition claims :: "maddr \<Rightarrow> tid \<Rightarrow> bool \<Rightarrow> kernel \<Rightarrow> bool" where
  "claims m t inside s \<longleftrightarrow> (inside \<longleftrightarrow> seat s m t \<noteq> Away) \<and> patient s m t"

lemma claimsD: "claims m t inside s \<Longrightarrow> patient s m t" "claims m t inside s \<Longrightarrow> inside \<longleftrightarrow> seat s m t \<noteq> Away"
  by (simp_all add: claims_def)

definition undisturbed :: "maddr \<Rightarrow> tid \<Rightarrow> kernel \<Rightarrow> kernel \<Rightarrow> bool" where
  "undisturbed m t s s' \<longleftrightarrow> patient s' m t \<and> (seat s' m t = seat s m t \<or>
     seat s m t = Waiting \<and> seat s' m t = Holding)"

lemma claims_undisturbed: "claims m t inside s \<Longrightarrow> undisturbed m t s s' \<Longrightarrow> claims m t inside s'"
  by (auto simp: claims_def undisturbed_def)

lemma claims_outside: "claims m t False s \<longleftrightarrow> seat s m t = Away"
  by (auto simp: claims_def patient_def)

lemma undisturbed_same:
  "os_tasks s' = os_tasks s \<Longrightarrow> mutexes s' = mutexes s \<Longrightarrow> patient s m t \<Longrightarrow> undisturbed m t s s'"
  by (simp add: undisturbed_def patient_def seat_def holder_def)

lemma undisturbed_refl: "patient s m t \<Longrightarrow> undisturbed m t s s"
  by (rule undisturbed_same) simp_all

lemma undisturbed_exec:
  assumes ok: "kernel_ok s" and en: "enabled 2 s e" and ex: "exec e s = Some s'" and t: "t < 3"
    and other: "by_thread e \<Longrightarrow> current_tcb s \<noteq> Some t"
    and mine: "e = Unlock m \<Longrightarrow> holder s m = current_tcb s" and pat: "patient s m t"
  shows "undisturbed m t s s'"
proof -
  have "sys_inv 2 s" "t < tc s" using ok t by (simp_all add: kernel_ok_def)
  from seat_other [OF this(1) en ex this(2) other mine pat] show ?thesis by (simp add: undisturbed_def)
qed

lemma claims_hold:
  assumes "kernel_ok s" "on_cpu s t" "claims m t True s"
  shows "seat s m t = Holding" "holder s m = current_tcb s"
proof -
  have "seat s m t \<noteq> Away" using assms(3) by (simp add: claims_def)
  then show "seat s m t = Holding"
    using running_seat [of s t] assms(1,2) by (simp add: kernel_ok_def sys_inv_def on_cpu_def)
  then show "holder s m = current_tcb s" using assms(2) by (simp add: seat_simps on_cpu_def running_def)
qed

subsection \<open>A task and its section\<close>

locale mutex_user =
  fixes m :: maddr and me :: tid and ev :: "'pc \<Rightarrow> event option" and wants :: "'pc \<Rightarrow> bool"
  assumes me: "me < 2"
    and events: "ev pt = Some e \<Longrightarrow> shared_event e \<and> by_thread e"
    and locks: "ev pt = Some (Lock m n) \<Longrightarrow> n = WAIT_FOREVER \<and> \<not> wants pt"
    and unlocks: "ev pt = Some (Unlock m) \<Longrightarrow> wants pt"
begin

text \<open>The section after a step: begun by the acquire, left by the release.\<close>

definition wants_after :: "'pc \<Rightarrow> bool" where
  "wants_after pt \<longleftrightarrow> (if ev pt = Some (Lock m WAIT_FOREVER) then True
     else if ev pt = Some (Unlock m) then False else wants pt)"

lemma may_exec:
  assumes "kernel_ok s" "on_cpu s me" "ev pt = Some e"
  shows "enabled 2 s e" "exec e s \<noteq> None"
proof -
  show en: "enabled 2 s e" using shared_enabled [OF assms(1,2) me] events [OF assms(3)] by blast
  show "exec e s \<noteq> None" using exec_kernel_ok [OF assms(1) en] by (metis option.distinct(1))
qed

lemma own_claim:
  assumes ok: "kernel_ok s" and on: "on_cpu s me" and mv: "moved (ev pt) s s'" and cl: "claims m me (wants pt) s"
  shows "claims m me (wants_after pt) s'"
    and "\<forall>t<3. t \<noteq> me \<longrightarrow> patient s m t \<longrightarrow> undisturbed m t s s'"
proof -
  have inv: "sys_inv 2 s" using ok by (simp add: kernel_ok_def)
  have run: "running s me" "current_tcb s = Some me" using on by (simp_all add: on_cpu_def running_def)
  have "claims m me (wants_after pt) s' \<and> (\<forall>t<3. t \<noteq> me \<longrightarrow> patient s m t \<longrightarrow> undisturbed m t s s')"
  proof (cases "ev pt")
    case None
    with mv have same: "os_tasks s' = os_tasks s" "mutexes s' = mutexes s" by (auto simp: moved_def)
    with None cl undisturbed_same [OF same] show ?thesis
      by (simp add: wants_after_def claims_def patient_def seat_def holder_def)
  next
    case (Some e)
    have ex: "exec e s = Some s'" using mv Some by (simp add: moved_def)
    note en = may_exec(1) [OF ok on Some]
    have "holder s m = current_tcb s" if "e = Unlock m"
      using claims_hold(2) [OF ok on] cl unlocks Some that by simp
    then have others: "\<forall>t<3. t \<noteq> me \<longrightarrow> patient s m t \<longrightarrow> undisturbed m t s s'"
      using undisturbed_exec [OF ok en ex] run(2) by simp
    consider (lock) n where "e = Lock m n" | (unlock) "e = Unlock m"
      | (other) "\<forall>n. e \<noteq> Lock m n" "e \<noteq> Unlock m" by blast
    then show ?thesis
    proof cases
      case (lock n)
      with locks Some have n: "n = WAIT_FOREVER" "\<not> wants pt" by blast+
      with cl have "seat s m me = Away" by (simp add: claims_def)
      with lock seat_lock [OF inv _ _ run(1)] en ex n(1) have "seat s' m me \<noteq> Away \<and> patient s' m me" by blast
      with others Some lock n show ?thesis by (simp add: claims_def wants_after_def)
    next
      case unlock
      with seat_unlock [OF inv _ _ run(1)] en ex have "seat s' m me = Away" by blast
      with others Some unlock show ?thesis by (simp add: claims_outside wants_after_def)
    next
      case other
      from seat_self [OF inv en ex run(1) _ other] events [OF Some] others other Some cl show ?thesis
        by (auto simp: claims_def wants_after_def)
    qed
  qed
  then show "claims m me (wants_after pt) s'" "\<forall>t<3. t \<noteq> me \<longrightarrow> patient s m t \<longrightarrow> undisturbed m t s s'" by simp_all
qed

end

end
