(* ===== verification/Firmware_Inv.thy ===== *)
theory Firmware_Inv
  imports Mutex_Users
begin

text \<open>
  The invariant of the firmware and its preservation. The locale \<open>lock_client\<close> states what a
  task promises about the UART's mutex and its printing: the mutex is taken without a time
  limit before a line is printed and given back after it. Inside it, one lemma follows any
  step of such a task; the radar and the sweep are its two interpretations.
\<close>

subsection \<open>A client of the UART\<close>

text \<open>The part of its line a task has printed so far.\<close>

definition begun :: "('pc \<Rightarrow> u32 list) \<Rightarrow> 'pc \<times> u32 list \<Rightarrow> u32 list" where
  "begun prints = (\<lambda>(pt, out). take (length (prints pt) - length out) (prints pt))"

lemma begun_simps [simp]:
  "begun prints (pt, prints pt) = []" "prints pt = [] \<Longrightarrow> begun prints (pt, out) = []"
  "begun prints (pt, []) = prints pt"
  by (simp_all add: begun_def)

lemma begun_next:
  assumes "prints pt = sent @ ch # out"
  shows "begun prints (pt, out) = begun prints (pt, ch # out) @ [ch]"
  using assms by (simp add: begun_def)

text \<open>
  A task is placed well: it claims the UART's mutex in the section that wants it, and prints
  nothing before it holds it.
\<close>

definition placed :: "('pc \<Rightarrow> bool) \<Rightarrow> ('pc \<Rightarrow> u32 list) \<Rightarrow> tid \<Rightarrow> kernel \<Rightarrow> 'pc \<times> u32 list \<Rightarrow> bool" where
  "placed wants prints t s = (\<lambda>(pt, out). claims uart_lock t (wants pt) s \<and> (\<exists>sent. prints pt = sent @ out) \<and>
     (seat s uart_lock t = Waiting \<longrightarrow> out = prints pt))"

lemma placed_undisturbed: "placed wants prints t s p \<Longrightarrow> undisturbed uart_lock t s s' \<Longrightarrow> placed wants prints t s' p"
  using claims_undisturbed by (auto simp: placed_def undisturbed_def)

lemma idle_undisturbed: "seat s uart_lock t = Away \<Longrightarrow> undisturbed uart_lock t s s' \<Longrightarrow> seat s' uart_lock t = Away"
  by (auto simp: undisturbed_def)

locale lock_client = mutex_user uart_lock me ev wants
  for me :: tid and ev :: "'pc \<Rightarrow> event option" and wants :: "'pc \<Rightarrow> bool" +
  fixes prints :: "'pc \<Rightarrow> u32 list" and rest :: "'pc \<Rightarrow> 'pc"
    and go :: "'pc \<Rightarrow> board \<Rightarrow> ('pc \<times> board) option" and good :: "'pc \<Rightarrow> bool"
  assumes defined: "prints pt = [] \<Longrightarrow> good pt \<Longrightarrow> (\<And>e. ev pt = Some e \<Longrightarrow> exec e (krn b) \<noteq> None) \<Longrightarrow>
      ring_good (krn b) \<Longrightarrow> current_tcb (krn b) = Some me \<Longrightarrow> me < length (os_tasks (krn b)) \<Longrightarrow> go pt b \<noteq> None"
    and moves: "go pt b = Some (pt', b') \<Longrightarrow> prints pt = [] \<Longrightarrow>
      moved (ev pt) (krn b) (krn b') \<and> quiet_uart (hst b) (hst b')"
    and typed: "go pt b = Some (pt', b') \<Longrightarrow> good pt \<Longrightarrow> good pt'" "good pt \<Longrightarrow> good (rest pt)"
    and wanted: "go pt b = Some (pt', b') \<Longrightarrow> prints pt = [] \<Longrightarrow> wants pt' \<longleftrightarrow> wants_after pt"
    and printing: "prints pt \<noteq> [] \<Longrightarrow> wants pt \<and> wants (rest pt) \<and> prints (rest pt) = []"
    and bytes: "ch \<in> set (prints pt) \<Longrightarrow> ch AND 0xFF = ch"
begin

lemma placed_claims: "placed wants prints me s (pt, out) \<Longrightarrow> claims uart_lock me (wants pt) s"
  by (simp add: placed_def)

lemma holds:
  assumes "kernel_ok s" "on_cpu s me" "placed wants prints me s (pt, out)" "wants pt"
  shows "seat s uart_lock me = Holding"
  using claims_hold(1) [OF assms(1,2)] placed_claims [OF assms(3)] assms(4) by simp

text \<open>The three kinds of step: the task's own, a character, the end of a line.\<close>

lemma own_step:
  assumes ok: "kernel_ok (krn b)" and on: "on_cpu (krn b) me" and at: "placed wants prints me (krn b) (pt, [])"
    and g: "good pt" and quiet: "prints pt = []"
  obtains pt' b' where "go pt b = Some (pt', b')" "kernel_ok (krn b')" "good pt'" "quiet_uart (hst b) (hst b')"
    "placed wants prints me (krn b') (pt', prints pt')"
    "\<forall>t<3. t \<noteq> me \<longrightarrow> patient (krn b) uart_lock t \<longrightarrow> undisturbed uart_lock t (krn b) (krn b')"
proof -
  let ?s = "krn b"
  have run: "current_tcb ?s = Some me" "me < length (os_tasks ?s)"
    using on ok waits_okD(3) [OF kinvD(1), of ?s me] by (simp_all add: on_cpu_def running_def kernel_ok_def sys_inv_def)
  have ring: "ring_good ?s" using ok by (simp add: kernel_ok_def)
  have "go pt b \<noteq> None" by (rule defined [OF quiet g _ ring run]) (rule may_exec(2) [OF ok on])
  then obtain pt' b' where go: "go pt b = Some (pt', b')" by auto
  have mv: "moved (ev pt) ?s (krn b')" and q: "quiet_uart (hst b) (hst b')" using moves [OF go quiet] by simp_all
  have ok': "kernel_ok (krn b')" by (rule moved_kernel_ok [OF ok mv may_exec(1) [OF ok on]])
  note cl = own_claim [OF ok on mv placed_claims [OF at]]
  show ?thesis
    using that [OF go ok' typed(1) [OF go g] q] cl wanted [OF go quiet] by (simp add: placed_def)
qed

lemma client_turn:
  assumes ok: "kernel_ok (krn b)" and uart: "uart_ready hw (hst b)" and on: "on_cpu (krn b) me"
    and at: "placed wants prints me (krn b) (pt, out)" and g: "good pt"
  obtains pt' out' b' where "turn hw prints rest go (pt, out) b = Some ((pt', out'), b')"
    "kernel_ok (krn b')" "uart_ready hw (hst b')" "good pt'" "placed wants prints me (krn b') (pt', out')"
    "\<forall>t<3. t \<noteq> me \<longrightarrow> patient (krn b) uart_lock t \<longrightarrow> undisturbed uart_lock t (krn b) (krn b')"
    "(\<exists>ch. writes USART2_DR (hst b') = writes USART2_DR (hst b) @ [ch] \<and> seat (krn b) uart_lock me = Holding \<and>
        begun prints (pt', out') = begun prints (pt, out) @ [ch]) \<or>
     writes USART2_DR (hst b') = writes USART2_DR (hst b) \<and> begun prints (pt', out') = [] \<and>
        begun prints (pt, out) \<in> {[], prints pt}"
proof (cases out)
  case (Cons ch out')
  obtain sent where line: "prints pt = sent @ ch # out'" using at Cons by (auto simp: placed_def)
  then have "ch AND 0xFF = ch" "prints pt \<noteq> []" using bytes [of ch pt] by simp_all
  moreover obtain h' where h': "io_putchar hw ch (hst b) = Some (ch, h')" "sends [ch AND 0xFF] (hst b) h'"
    by (rule io_putchar_sends [OF uart])
  moreover have hold: "seat (krn b) uart_lock me = Holding"
    using holds(1) [OF ok on at] printing line by simp
  moreover have "\<forall>t<3. t \<noteq> me \<longrightarrow> patient (krn b) uart_lock t \<longrightarrow> undisturbed uart_lock t (krn b) (krn b)"
    by (simp add: undisturbed_def)
  moreover have "begun prints (pt, out') = begun prints (pt, ch # out') @ [ch]"
    by (rule begun_next) (rule line)
  moreover have "placed wants prints me (krn b) (pt, out')"
    using at hold line by (auto simp: placed_def Cons)
  ultimately show ?thesis
    using that [of pt out' "b\<lparr>hst := h'\<rparr>"] ok g sends_ready [OF uart h'(2)] Cons
    by (simp add: turn_def sends_def)
next
  case Nil
  show ?thesis
  proof (cases "prints pt = []")
    case True
    obtain pt' b' where st: "go pt b = Some (pt', b')" "kernel_ok (krn b')" "good pt'" "quiet_uart (hst b) (hst b')"
      "placed wants prints me (krn b') (pt', prints pt')"
      "\<forall>t<3. t \<noteq> me \<longrightarrow> patient (krn b) uart_lock t \<longrightarrow> undisturbed uart_lock t (krn b) (krn b')"
      by (rule own_step [OF ok on at [unfolded Nil] g True])
    have "uart_ready hw (hst b')" using uart_ready_quiet [OF uart] st(4) by (simp add: quiet_uart_def)
    with that [of pt' "prints pt'" b'] st True Nil show ?thesis
      by (simp add: turn_def quiet_uart_def)
  next
    case False
    note p = printing [OF False]
    have "seat (krn b) uart_lock me = Holding" using holds(1) [OF ok on at] p by simp
    with at p Nil have "placed wants prints me (krn b) (rest pt, [])" by (simp add: placed_def)
    moreover have "\<forall>t<3. t \<noteq> me \<longrightarrow> patient (krn b) uart_lock t \<longrightarrow> undisturbed uart_lock t (krn b) (krn b)"
      by (simp add: undisturbed_def)
    ultimately show ?thesis
      using that [of "rest pt" "[]" b] ok uart typed(2) [OF g] p Nil False by (simp add: turn_def)
  qed
qed

text \<open>Who does not hold the mutex is not in the middle of a line.\<close>

lemma not_printing:
  assumes "placed wants prints me s p" "seat s uart_lock me \<noteq> Holding"
  shows "begun prints p = []"
proof -
  obtain pt out where p: "p = (pt, out)" by (cases p)
  show ?thesis
  proof (cases "prints pt = []")
    case False
    with assms p printing [of pt] have "out = prints pt" by (cases "seat s uart_lock me") (auto simp: placed_def claims_def)
    then show ?thesis by (simp add: p)
  qed (simp add: p)
qed

end

subsection \<open>The two clients\<close>

lemma digit_byte: "ucast (b :: u8) AND 0xFF = (ucast b :: u32)"
proof -
  have "(0xFF :: u32) = mask 8" by (simp add: mask_eq_exp_minus_1)
  moreover have "take_bit 8 (ucast b :: u32) = ucast b"
    by (simp add: word_unat_eq_iff unsigned_take_bit_eq unsigned_ucast_eq take_bit_nat_eq_self less_trans [OF unat_u8_less])
  ultimately show ?thesis by (simp add: take_bit_eq_mask)
qed

lemma codes_byte: "ch \<in> set (codes str) \<Longrightarrow> ch AND 0xFF = ch"
  by (auto simp: codes_def)

lemma number_byte: "ch \<in> set (number_bytes num) \<Longrightarrow> ch AND 0xFF = ch"
  by (auto simp: number_bytes_def digit_byte)

lemma prints_bytes:
  "ch \<in> set (sweep_prints pt) \<Longrightarrow> ch AND 0xFF = ch" "ch \<in> set (radar_prints qt) \<Longrightarrow> ch AND 0xFF = ch"
  by (cases pt; auto intro: codes_byte)
    (cases qt; auto simp: radar_line_def line_bytes_def intro: codes_byte number_byte)

interpretation sweep_uart: mutex_user uart_lock 1 sweep_event sweep_wants
  by unfold_locales (simp_all add: events_at_lock events_shared)

interpretation radar_uart: mutex_user uart_lock 0 radar_event radar_wants
  by unfold_locales (simp_all add: events_at_lock events_shared)

interpretation sweep: lock_client 1 sweep_event sweep_wants sweep_prints sweep_rest "sweep_step hw" "\<lambda>_. True" for hw
proof (unfold_locales, goal_cases)
  case (1 pt b)
  then show ?case by (intro sweep_step_defined)
next
  case (2 pt b pt' b')
  then show ?case by (rule sweep_step_moved)
next
  case (5 pt b pt' b')
  then show ?case unfolding sweep_uart.wants_after_def by (rule sweep_step_wants)
next
  case (6 pt)
  then show ?case by (cases pt) simp_all
next
  case (7 ch pt)
  then show ?case by (rule prints_bytes(1))
qed simp_all

interpretation radar: lock_client 0 radar_event radar_wants radar_prints radar_rest "radar_step c hw" radar_typed for c hw
proof (unfold_locales, goal_cases)
  case (1 pt b)
  then show ?case by (intro radar_step_defined)
next
  case (2 pt b pt' b')
  then show ?case by (rule radar_step_moved)
next
  case (3 pt b pt' b')
  then show ?case by (rule radar_step_typed)
next
  case (4 pt)
  then show ?case by (cases pt) simp_all
next
  case (5 pt b pt' b')
  then show ?case unfolding radar_uart.wants_after_def by (rule radar_step_wants)
next
  case (6 pt)
  then show ?case by (cases pt) simp_all
next
  case (7 ch pt)
  then show ?case by (rule prints_bytes(2))
qed

subsection \<open>The invariant\<close>

definition log_line :: "u32 list \<Rightarrow> bool" where
  "log_line l \<longleftrightarrow> l = codes banner \<or> (\<exists>angle distance. l = radar_line angle distance)"

lemma prints_line:
  "sweep_prints pt \<noteq> [] \<Longrightarrow> log_line (sweep_prints pt)" "radar_prints qt \<noteq> [] \<Longrightarrow> log_line (radar_prints qt)"
  by (cases pt; simp add: log_line_def) (cases qt; auto simp: log_line_def)

text \<open>
  What has gone over the wire after \<open>base\<close>: whole lines, then what the two tasks have begun,
  of which one at most is not empty.
\<close>

definition in_lines :: "u32 list \<Rightarrow> u32 list \<Rightarrow> u32 list \<Rightarrow> u32 list \<Rightarrow> bool" where
  "in_lines base x y sent \<longleftrightarrow> (\<exists>ls. (\<forall>l\<in>set ls. log_line l) \<and> sent = base @ concat ls @ x @ y)"

lemma in_lines_char: "in_lines base x [] sent \<Longrightarrow> in_lines base (x @ [ch]) [] (sent @ [ch])"
  "in_lines base [] y sent \<Longrightarrow> in_lines base [] (y @ [ch]) (sent @ [ch])"
  by (auto simp: in_lines_def)

lemma in_lines_end:
  assumes "in_lines base [] y sent" "y \<noteq> [] \<Longrightarrow> log_line y"
  shows "in_lines base [] [] sent"
proof -
  from assms(1) obtain ls where ls: "\<forall>l\<in>set ls. log_line l" "sent = base @ concat ls @ y"
    by (auto simp: in_lines_def)
  then have "sent = base @ concat (ls @ [y])" "y \<noteq> [] \<Longrightarrow> \<forall>l\<in>set (ls @ [y]). log_line l"
    using assms(2) by auto
  then have "in_lines base [] [] sent" if "y \<noteq> []"
    unfolding in_lines_def by (intro exI [of _ "ls @ [y]"]) (use that in simp)
  with assms(1) show ?thesis by (cases "y = []") auto
qed

lemma in_lines_swap: "in_lines base x [] sent = in_lines base [] x sent"
  by (simp add: in_lines_def)

definition fw_ok :: "hardware \<Rightarrow> u32 list \<Rightarrow> firmware \<Rightarrow> bool" where
  "fw_ok hw base w \<longleftrightarrow> kernel_ok (krn (brd w)) \<and> uart_ready hw (hst (brd w)) \<and> radar_typed (fst (rdr w)) \<and>
     placed radar_wants radar_prints 0 (krn (brd w)) (rdr w) \<and>
     placed sweep_wants sweep_prints 1 (krn (brd w)) (swp w) \<and> seat (krn (brd w)) uart_lock 2 = Away \<and>
     in_lines base (begun sweep_prints (swp w)) (begun radar_prints (rdr w)) (writes USART2_DR (hst (brd w)))"

lemma fw_okD:
  assumes "fw_ok hw base w"
  shows "kernel_ok (krn (brd w))" "uart_ready hw (hst (brd w))" "radar_typed (fst (rdr w))"
    "placed radar_wants radar_prints 0 (krn (brd w)) (rdr w)"
    "placed sweep_wants sweep_prints 1 (krn (brd w)) (swp w)" "seat (krn (brd w)) uart_lock 2 = Away"
    "in_lines base (begun sweep_prints (swp w)) (begun radar_prints (rdr w)) (writes USART2_DR (hst (brd w)))"
  using assms by (simp_all add: fw_ok_def)

lemma placed_patient: "placed wants prints t s p \<Longrightarrow> patient s uart_lock t"
  by (auto simp: placed_def claims_def split: prod.splits)

lemma patient_all:
  assumes "fw_ok hw base w" "t < 3"
  shows "patient (krn (brd w)) uart_lock t"
proof -
  have "t = 0 \<or> t = 1 \<or> t = 2" using assms(2) by auto
  with placed_patient [OF fw_okD(4) [OF assms(1)]] placed_patient [OF fw_okD(5) [OF assms(1)]]
    fw_okD(6) [OF assms(1)] show ?thesis by (auto simp: patient_def)
qed

subsection \<open>Interrupts\<close>

lemma fw_interrupt:
  assumes ok: "fw_ok hw base w" and en: "enabled 2 (krn (brd w)) e" and e: "\<not> by_thread e"
    and ex: "exec e (krn (brd w)) = Some s'" and b: "krn b' = s'" "quiet_uart (hst (brd w)) (hst b')"
  shows "fw_ok hw base (w\<lparr>brd := b'\<rparr>)"
proof -
  note ok' = fw_okD [OF ok]
  have u: "undisturbed uart_lock t (krn (brd w)) s'" if "t < 3" for t
    using e by (intro undisturbed_exec [OF ok'(1) en ex that _ _ patient_all [OF ok that]]) auto
  moreover obtain s'' where "exec e (krn (brd w)) = Some s''" "kernel_ok s''"
    by (rule exec_kernel_ok [OF ok'(1) en])
  moreover have "uart_ready hw (hst b')" using uart_ready_quiet [OF ok'(2)] b(2) by (simp add: quiet_uart_def)
  ultimately show ?thesis
    using placed_undisturbed [OF ok'(4) u] placed_undisturbed [OF ok'(5) u] idle_undisturbed [OF ok'(6) u] ok'(3,7)
      ex b by (simp add: fw_ok_def quiet_uart_def)
qed

lemma quiet_reads: "quiet_uart h (h @ [Rd r])" "quiet_uart h (after_edge h)" "quiet_uart h (h @ [Wfi])"
  by (simp_all add: quiet_uart_def after_edge_def)

lemma capture_event:
  obtains (kept) e' h' where "TIM2_IRQHandler c hw (e, s, h) = Some (e', s, h')" "quiet_uart h h'"
  | (given) e' h' where "TIM2_IRQHandler c hw (e, s, h) =
      map_option (\<lambda>s'. (e', s', h')) (exec (Isr_give echo_ready) s)" "quiet_uart h h'"
proof -
  let ?t = "hw (h @ [Rd (TIM_SR TIM2)]) (TIM_CCR2 TIM2)"
  consider "hw h (TIM_SR TIM2) AND TIM_SR_CC2IF c = 0" | "edge_at c hw h ?t" "waiting_for_rising e \<noteq> 0"
    | "edge_at c hw h ?t" "waiting_for_rising e = 0" by (auto simp: edge_at_def)
  then show ?thesis
  proof cases
    case 1
    then have "TIM2_IRQHandler c hw (e, s, h) = Some (e, s, h @ [Rd (TIM_SR TIM2)])" by (rule spurious_edge)
    then show ?thesis by (rule kept [OF _ quiet_reads(1)])
  next
    case 2
    show ?thesis by (rule kept [OF rising_edge [OF 2] quiet_reads(2)])
  next
    case 3
    show ?thesis by (rule given [OF _ quiet_reads(2)]) (simp add: falling_edge [OF 3])
  qed
qed

subsection \<open>Every event\<close>

text \<open>A client's turn, its effect on the lines included; \<open>other\<close> is what the other task has begun.\<close>

lemma lines_after:
  assumes L: "in_lines base [] mine sent" and line: "prints pt \<noteq> [] \<Longrightarrow> log_line (prints pt)"
    and mine: "mine = begun prints (pt, out)"
    and st: "(\<exists>ch. sent' = sent @ [ch] \<and> P \<and> mine' = mine @ [ch]) \<or>
      sent' = sent \<and> mine' = [] \<and> mine \<in> {[], prints pt}"
  shows "in_lines base [] mine' sent'"
  using st
proof
  assume "sent' = sent \<and> mine' = [] \<and> mine \<in> {[], prints pt}"
  with in_lines_end [OF L] line show ?thesis by auto
qed (use in_lines_char(2) [OF L] in auto)

lemma fw_radar_turn:
  assumes ok: "fw_ok hw base w" and on: "on_cpu (krn (brd w)) 0"
  obtains w' where "fw_exec c hw (Run 0) w = Some w'" "fw_ok hw base w'"
proof -
  note O = fw_okD [OF ok]
  obtain pt out where p: "rdr w = (pt, out)" by (cases "rdr w")
  obtain pt' out' b' where T: "radar_turn_at c hw (pt, out) (brd w) = Some ((pt', out'), b')"
    "kernel_ok (krn b')" "uart_ready hw (hst b')" "radar_typed pt'" "placed radar_wants radar_prints 0 (krn b') (pt', out')"
    "\<forall>t<3. t \<noteq> 0 \<longrightarrow> patient (krn (brd w)) uart_lock t \<longrightarrow> undisturbed uart_lock t (krn (brd w)) (krn b')"
    "(\<exists>ch. writes USART2_DR (hst b') = writes USART2_DR (hst (brd w)) @ [ch] \<and>
        seat (krn (brd w)) uart_lock 0 = Holding \<and>
        begun radar_prints (pt', out') = begun radar_prints (pt, out) @ [ch]) \<or>
     writes USART2_DR (hst b') = writes USART2_DR (hst (brd w)) \<and> begun radar_prints (pt', out') = [] \<and>
        begun radar_prints (pt, out) \<in> {[], radar_prints pt}"
    by (rule radar.client_turn [OF O(1,2) on O(4) [unfolded p]]) (use O(3) p in simp_all)
  have und: "undisturbed uart_lock 1 (krn (brd w)) (krn b')" "undisturbed uart_lock 2 (krn (brd w)) (krn b')"
    using T(6) patient_all [OF ok] by simp_all
  have lines: "in_lines base (begun sweep_prints (swp w)) (begun radar_prints (pt', out')) (writes USART2_DR (hst b'))"
  proof (cases "seat (krn (brd w)) uart_lock 0 = Holding")
    case True
    then have none: "begun sweep_prints (swp w) = []"
      using sweep.not_printing [OF O(5)] holding_alone [OF True, of 1] by auto
    show ?thesis
      using lines_after [OF O(7) [unfolded none p] prints_line(2) refl T(7)] by (simp add: none)
  next
    case False
    then have "begun radar_prints (pt, out) = []" using radar.not_printing [OF O(4)] p by simp
    with T(7) O(7) False p show ?thesis by simp
  qed
  show ?thesis
    by (rule that [of "w\<lparr>rdr := (pt', out'), brd := b'\<rparr>"])
      (use T lines placed_undisturbed [OF O(5) und(1)] idle_undisturbed [OF O(6) und(2)] in
        \<open>simp_all add: fw_ok_def p\<close>)
qed

lemma fw_sweep_turn:
  assumes ok: "fw_ok hw base w" and on: "on_cpu (krn (brd w)) 1"
  obtains w' where "fw_exec c hw (Run 1) w = Some w'" "fw_ok hw base w'"
proof -
  note O = fw_okD [OF ok]
  obtain pt out where p: "swp w = (pt, out)" by (cases "swp w")
  obtain pt' out' b' where T: "sweep_turn_at hw (pt, out) (brd w) = Some ((pt', out'), b')"
    "kernel_ok (krn b')" "uart_ready hw (hst b')" "placed sweep_wants sweep_prints 1 (krn b') (pt', out')"
    "\<forall>t<3. t \<noteq> 1 \<longrightarrow> patient (krn (brd w)) uart_lock t \<longrightarrow> undisturbed uart_lock t (krn (brd w)) (krn b')"
    "(\<exists>ch. writes USART2_DR (hst b') = writes USART2_DR (hst (brd w)) @ [ch] \<and>
        seat (krn (brd w)) uart_lock 1 = Holding \<and>
        begun sweep_prints (pt', out') = begun sweep_prints (pt, out) @ [ch]) \<or>
     writes USART2_DR (hst b') = writes USART2_DR (hst (brd w)) \<and> begun sweep_prints (pt', out') = [] \<and>
        begun sweep_prints (pt, out) \<in> {[], sweep_prints pt}"
    by (rule sweep.client_turn [OF O(1,2) on O(5) [unfolded p]]) simp_all
  have und: "undisturbed uart_lock 0 (krn (brd w)) (krn b')" "undisturbed uart_lock 2 (krn (brd w)) (krn b')"
    using T(5) patient_all [OF ok] by simp_all
  have lines: "in_lines base (begun sweep_prints (pt', out')) (begun radar_prints (rdr w)) (writes USART2_DR (hst b'))"
  proof (cases "seat (krn (brd w)) uart_lock 1 = Holding")
    case True
    then have none: "begun radar_prints (rdr w) = []"
      using radar.not_printing [OF O(4)] holding_alone [OF True, of 0] by auto
    show ?thesis
      using lines_after [OF O(7) [unfolded none p in_lines_swap] prints_line(1) refl T(6)]
      by (simp add: none in_lines_swap)
  next
    case False
    then have "begun sweep_prints (pt, out) = []" using sweep.not_printing [OF O(5)] p by simp
    with T(6) O(7) False p show ?thesis by simp
  qed
  show ?thesis
    by (rule that [of "w\<lparr>swp := (pt', out'), brd := b'\<rparr>"])
      (use T lines placed_undisturbed [OF O(4) und(1)] idle_undisturbed [OF O(6) und(2)] O(3) in
        \<open>simp_all add: fw_ok_def p\<close>)
qed

lemma fw_exec_ok:
  assumes ok: "fw_ok hw base w" and en: "fw_enabled e w"
  obtains w' where "fw_exec c hw e w = Some w'" "fw_ok hw base w'"
proof (cases e)
  case (Run t)
  have on: "on_cpu (krn (brd w)) t" using en Run by simp
  then have "t < 3" using fw_okD(1) [OF ok] by (simp add: on_cpu_def running_def kernel_ok_def)
  then consider "t = 0" | "t = 1" | "t = 2" by linarith
  then show ?thesis
  proof cases
    case 1
    with fw_radar_turn [OF ok] on that Run show ?thesis by metis
  next
    case 2
    with fw_sweep_turn [OF ok] on that Run show ?thesis by metis
  next
    case 3
    have "fw_ok hw base (w\<lparr>brd := os_idle_task (brd w)\<rparr>)"
      using ok uart_ready_quiet [of hw "hst (brd w)" "hst (brd w) @ [Wfi]"] by (simp add: fw_ok_def os_idle_task_def)
    with that 3 Run show ?thesis by simp
  qed
next
  case Timer
  have E: "enabled 2 (krn (brd w)) Tick" using en Timer by (simp add: enabled_def)
  obtain s' where s': "exec Tick (krn (brd w)) = Some s'" by (rule exec_kernel_ok [OF fw_okD(1) [OF ok] E])
  with fw_interrupt [OF ok E _ s', of "(brd w)\<lparr>krn := s'\<rparr>"] that Timer show ?thesis
    by (simp add: on_kernel_def)
next
  case (Pend core)
  have E: "enabled 2 (krn (brd w)) (Switch core)" using en Pend by (simp add: enabled_def)
  obtain s' where s': "exec (Switch core) (krn (brd w)) = Some s'" by (rule exec_kernel_ok [OF fw_okD(1) [OF ok] E])
  with fw_interrupt [OF ok E _ s', of "(brd w)\<lparr>krn := s'\<rparr>"] that Pend show ?thesis
    by (auto simp: on_kernel_def)
next
  case Capture
  let ?b = "brd w"
  have "objects_made (krn ?b)" using fw_okD(1) [OF ok] by (simp add: kernel_ok_def)
  then have E: "enabled 2 (krn ?b) (Isr_give echo_ready)" using en Capture by (auto simp: enabled_def objects_made_def)
  obtain s' where s': "exec (Isr_give echo_ready) (krn ?b) = Some s'" by (rule exec_kernel_ok [OF fw_okD(1) [OF ok] E])
  show ?thesis
  proof (cases rule: capture_event [of c hw "ech ?b" "krn ?b" "hst ?b"])
    case (kept e' h')
    have "fw_ok hw base (w\<lparr>brd := ?b\<lparr>ech := e', hst := h'\<rparr>\<rparr>)"
      using ok kept(2) uart_ready_quiet [of hw "hst ?b" h'] by (simp add: fw_ok_def quiet_uart_def)
    with that kept(1) Capture show ?thesis by simp
  next
    case (given e' h')
    have "fw_ok hw base (w\<lparr>brd := ?b\<lparr>ech := e', krn := s', hst := h'\<rparr>\<rparr>)"
      by (rule fw_interrupt [OF ok E _ s']) (use given(2) in simp_all)
    with that given(1) s' Capture show ?thesis by simp
  qed
qed

lemma fw_reachable_ok:
  assumes "fw_reachable c hw w0 w" "fw_ok hw base w0"
  shows "fw_ok hw base w"
  using assms
proof (induction rule: fw_reachable.induct)
  case (later w e w')
  from later.hyps(2) have step: "fw_enabled e w" "fw_exec c hw e w = Some w'" by (simp_all add: fw_step_iff)
  obtain w'' where "fw_exec c hw e w = Some w''" "fw_ok hw base w''"
    by (rule fw_exec_ok [OF later.IH [OF later.prems] step(1)])
  with step(2) show ?case by simp
qed

end
