(* ===== verification/Priorities.thy ===== *)
theory Priorities
  imports Seats
begin

text \<open>
  What an event of the running kernel does to the priorities of the tasks, and who stays
  runnable through it.
\<close>

subsection \<open>Priorities\<close>

definition ranks :: "tcb \<Rightarrow> u8 \<times> u8" where
  "ranks x = (base_priority x, current_priority x)"

lemma ranks_simps [simp]:
  "ranks (x\<lparr>state := st\<rparr>) = ranks x" "ranks (x\<lparr>stackPtr := a\<rparr>) = ranks x" "ranks (woken x) = ranks x"
  "ranks (parked r n x) = ranks x" "ranks (ticked x) = ranks x" "ranks (asleep n x) = ranks x"
  by (simp_all add: ranks_def ticked_def asleep_def)

text \<open>The holder of a mutex gives back its donation when it releases; it gets one from a waiter.\<close>

fun ranks_after :: "kernel \<Rightarrow> event \<Rightarrow> tid \<Rightarrow> u8 \<times> u8" where
  "ranks_after s (Unlock m) t = (if holder s m = Some t then (base_priority (os_tasks s ! t), base_priority (os_tasks s ! t))
     else ranks (os_tasks s ! t))"
| "ranks_after s (Lock m timeout) t =
     (case current_tcb s of
        Some c \<Rightarrow> if timeout \<noteq> 0 \<and> holder s m = Some t \<and> c \<noteq> t
          then (base_priority (os_tasks s ! t), max (prio s t) (prio s c)) else ranks (os_tasks s ! t)
      | None \<Rightarrow> ranks (os_tasks s ! t))"
| "ranks_after s _ t = ranks (os_tasks s ! t)"

lemma ranks_undonated:
  "t < length ts \<Longrightarrow> ranks (undonated w ts ! t) =
     (if w = Some t then (base_priority (ts ! t), base_priority (ts ! t)) else ranks (ts ! t))"
  by (simp add: undonated_nth ranks_def)

lemma ranks_donated:
  "t < length ts \<Longrightarrow> ranks (donated c w ts ! t) = (if t = w
     then (base_priority (ts ! t), max (current_priority (ts ! t)) (current_priority (ts ! c))) else ranks (ts ! t))"
  by (simp add: donated_def ranks_def nth_list_update)

lemma ranks_put:
  "t < length ts \<Longrightarrow> ranks y = ranks (ts ! n) \<Longrightarrow> ranks (ts[n := y] ! t) = ranks (ts ! t)"
  by (cases "n = t") simp_all

lemma switch_ranks:
  assumes inv: "sys_inv idle s" and ex: "exec (Switch c) s = Some s'" and t: "t < tc s"
  shows "ranks (os_tasks s' ! t) = ranks (os_tasks s ! t)"
proof -
  obtain a where a: "current_tcb s = Some a" using inv by (auto simp: sys_inv_def)
  have K: "kinv s" using inv by (simp add: sys_inv_def)
  have len: "t < length (os_tasks s)" using waits_okD(3) [OF kinvD(1) [OF K] t] .
  have saved: "ranks (os_tasks (saved c a s) ! t) = ranks (os_tasks s ! t)"
    using len by (simp add: saved_def ranks_put)
  show ?thesis
  proof (cases rule: switch_effect [OF inv a, where c = c])
    case (1 c' s'')
    with ex have "s' = (saved c a s)\<lparr>halted_in := Some a\<rparr>" by simp
    with saved show ?thesis by simp
  next
    case (2 c' s'' b)
    with ex have s': "s' = (saved c a s)\<lparr>os_tasks := switched (Some a) b (os_tasks (saved c a s)),
      current_tcb := Some b\<rparr>" by simp
    have "b < length (os_tasks (saved c a s))" "t < length (os_tasks (saved c a s))"
      using 2(2) len waits_okD(3) [OF kinvD(1) [OF K]] by (simp_all add: saved_def)
    with saved show ?thesis by (auto simp: s' switched_nth)
  qed
qed

lemma give_ranks:
  assumes inv: "kinv s" and x: "sems s a = Some x" and ex: "os_semaphore_release a s = Some s'" and t: "t < tc s"
  shows "ranks (os_tasks s' ! t) = ranks (os_tasks s ! t)"
proof (cases "next_waiter a s")
  case None
  then have none: "waiters s (SemQ a) = []" by (simp add: next_waiter_def)
  have "os_tasks s' = os_tasks s" using sem_release_token(1) [OF inv x none] ex by auto
  then show ?thesis by simp
next
  case (Some n)
  obtain s'' where s'': "os_semaphore_release a s = Some s''"
    "os_tasks s'' = (os_tasks s)[n := woken (os_tasks s ! n)]" by (rule sem_release_handoff [OF inv x Some])
  with ex waits_okD(3) [OF kinvD(1) [OF inv] t] show ?thesis by (simp add: ranks_put)
qed

lemma lock_ranks:
  assumes inv: "kinv s" and k: "kernel_running s" and c: "running s c" and x: "mutexes s m = Some x"
    and ex: "exec (Lock m timeout) s = Some s'" and t: "t < tc s"
  shows "ranks (os_tasks s' ! t) = ranks_after s (Lock m timeout) t"
proof -
  have cur: "current_tcb s = Some c" using c by (simp add: running_def)
  have free: "holder s m = None \<longleftrightarrow> lock x = 0"
    using x mutex_ok_owner(3) [OF inv x] by (auto simp: holder_def)
  have held: "lock x \<noteq> 0 \<Longrightarrow> holder s m = owner x" using x by (simp add: holder_def)
  show ?thesis
    using x
  proof (cases rule: mutex_acquire_cases [where timeout = timeout])
    case 1
    with free mutex_acquire_free [OF x 1] ex cur show ?thesis by auto
  next
    case 2
    with held mutex_acquire_own [OF x 2] ex cur show ?thesis by auto
  next
    case 3
    with k mutex_acquire_poll [OF x 3] ex cur show ?thesis by auto
  next
    case 4
    have "owner x \<noteq> Some c" using 4(2) cur by simp
    then obtain o' s'' where s'': "owner x = Some o'" "os_mutex_acquire m timeout s = Some (Parked, s'')"
      "os_tasks s'' = (donated c o' (os_tasks s))[c := parked (MutexQ m) timeout (os_tasks s ! c)]" "o' \<noteq> c"
      using mutex_acquire_block [OF inv c x 4(1) _ 4(3,4)] by metis
    have len: "t < length (donated c o' (os_tasks s))" "t < length (os_tasks s)"
      using waits_okD(3) [OF kinvD(1) [OF inv] t] by (simp_all add: donated_def)
    have "donated c o' (os_tasks s) ! c = os_tasks s ! c" using s''(4) by (simp add: donated_def)
    with s'' ex have "ranks (os_tasks s' ! t) = ranks (donated c o' (os_tasks s) ! t)"
      by (simp add: ranks_put [OF len(1)])
    with s''(1,4) held [OF 4(1)] 4(3) cur len(2) show ?thesis by (auto simp: ranks_donated prio_def)
  qed
qed

lemma unlock_ranks:
  assumes inv: "kinv s" and x: "mutexes s m = Some x" and ex: "os_mutex_release m s = Some s'" and t: "t < tc s"
  shows "ranks (os_tasks s' ! t) = ranks_after s (Unlock m) t"
proof -
  have len: "t < length (os_tasks s)" using waits_okD(3) [OF kinvD(1) [OF inv] t] .
  have own: "holder s m = owner x" using x mutex_ok_owner [OF inv x] by (auto simp: holder_def)
  have after: "ranks (undonated (owner x) (os_tasks s) ! t) = ranks_after s (Unlock m) t"
    using len own by (simp add: ranks_undonated)
  show ?thesis
  proof (cases "next_owner m s")
    case None
    then have none: "waiters s (MutexQ m) = []" by (simp add: next_owner_def)
    from mutex_release_last(1) [OF inv x none] ex after show ?thesis by auto
  next
    case (Some n)
    obtain s'' where s'': "os_mutex_release m s = Some s''"
      "os_tasks s'' = (undonated (owner x) (os_tasks s))[n := woken (os_tasks s ! n)]"
      by (rule mutex_release_handoff [OF inv x Some])
    have "Some n \<in> set (waiters s (MutexQ m))"
      using picked_waits(2) [OF kinvD(1) [OF inv] Some [unfolded next_owner_def]] .
    then have "undonated (owner x) (os_tasks s) ! n = os_tasks s ! n"
      using mutex_ok_owner(1) [OF inv x] by (auto simp: undonated_nth)
    with s'' ex len after show ?thesis by (simp add: ranks_put)
  qed
qed

lemma exec_ranks:
  assumes inv: "sys_inv idle s" and en: "enabled idle s e" and ex: "exec e s = Some s'" and t: "t < tc s"
  shows "ranks (os_tasks s' ! t) = ranks_after s e t"
proof -
  have I: "kinv s" "kernel_running s" using inv by (simp_all add: sys_inv_def)
  have len: "t < length (os_tasks s)" using waits_okD(3) [OF kinvD(1) [OF I(1)] t] .
  have obj: "object_ready e s" using en by (simp add: enabled_def)
  show ?thesis
  proof (cases e)
    case Tick
    obtain s'' where "SysTick_Handler s = Some s''" "\<forall>t<tc s. os_tasks s'' ! t = ticked (os_tasks s ! t)"
      by (rule systick_effect [OF I(1)])
    with Tick ex t show ?thesis by simp
  next
    case (Switch c)
    with switch_ranks [OF inv _ t] ex show ?thesis by simp
  next
    case (Lock m timeout)
    with obj obtain x where x: "mutexes s m = Some x" by auto
    from Lock en obtain c where c: "running s c" using enabled_thread by (metis by_thread.simps(4))
    from lock_ranks [OF I c x _ t] Lock ex show ?thesis by blast
  next
    case (Unlock m)
    with obj obtain x where "mutexes s m = Some x" by auto
    from unlock_ranks [OF I(1) this _ t] Unlock ex show ?thesis by simp
  next
    case (Take a timeout)
    with obj obtain x where x: "sems s a = Some x" by auto
    from Take en obtain c where c: "running s c" using enabled_thread by (metis by_thread.simps(6))
    consider "sem_count x \<noteq> 0" | "sem_count x = 0" "timeout = 0" | "sem_count x = 0" "timeout \<noteq> 0" by blast
    then show ?thesis
    proof cases
      case 1
      with Take ex sem_acquire_token [OF x 1] show ?thesis by auto
    next
      case 2
      with Take ex sem_acquire_poll [OF x] show ?thesis by auto
    next
      case 3
      obtain s'' where s'': "os_semaphore_acquire a timeout s = Some (Parked, s'')"
        "os_tasks s'' = (os_tasks s)[c := parked (SemQ a) timeout (os_tasks s ! c)]"
        by (rule sem_acquire_block [OF I(1) c x 3 I(2)])
      with Take ex len show ?thesis by (simp add: ranks_put)
    qed
  next
    case (Sleep ms)
    from Sleep en obtain c where c: "running s c" using enabled_thread by (metis by_thread.simps(8))
    show ?thesis
    proof (cases "ms = 0")
      case True
      with Sleep ex show ?thesis by (simp add: os_delay_def)
    next
      case False
      with os_delay_effect(1) [OF I(1) c I(2) False] Sleep ex len show ?thesis by (auto simp: ranks_put)
    qed
  next
    case (Store a v)
    with ex show ?thesis by auto
  next
    case (Give a)
    with obj obtain x where "sems s a = Some x" by auto
    with give_ranks [OF I(1) this _ t] Give ex show ?thesis by simp
  next
    case (Isr_give a)
    with obj obtain x where "sems s a = Some x" by auto
    with give_ranks [OF I(1) this _ t] Isr_give ex show ?thesis by simp
  qed
qed

subsection \<open>Who stays runnable\<close>

lemma keeps_runnable: "keeps B s s' \<Longrightarrow> t \<notin> B \<Longrightarrow> runnable_at s t \<Longrightarrow> runnable_at s' t"
  by (auto simp: keeps_def)

lemma switch_runnable:
  assumes inv: "sys_inv idle s" and ex: "exec (Switch c) s = Some s'" and run: "runnable_at s t"
  shows "runnable_at s' t"
proof -
  obtain a where a: "current_tcb s = Some a" using inv by (auto simp: sys_inv_def)
  have K: "kinv s" using inv by (simp add: sys_inv_def)
  have len: "t < length (os_tasks s)" using waits_okD(3) [OF kinvD(1) [OF K]] run by blast
  have saved: "runnable_at (saved c a s) t" using run len by (cases "t = a") (simp_all add: saved_def runnable_def)
  show ?thesis
  proof (cases rule: switch_effect [OF inv a, where c = c])
    case (1 c' s'')
    with ex have "s' = (saved c a s)\<lparr>halted_in := Some a\<rparr>" by simp
    with saved show ?thesis by simp
  next
    case (2 c' s'' b)
    with ex have s': "s' = (saved c a s)\<lparr>os_tasks := switched (Some a) b (os_tasks (saved c a s)),
      current_tcb := Some b\<rparr>" by simp
    have "b < length (os_tasks (saved c a s))" "t < length (os_tasks (saved c a s))"
      using 2(2) len waits_okD(3) [OF kinvD(1) [OF K]] by (simp_all add: saved_def)
    with saved show ?thesis by (auto simp: s' switched_nth runnable_def)
  qed
qed

lemma exec_runnable:
  assumes inv: "sys_inv idle s" and en: "enabled idle s e" and ex: "exec e s = Some s'" and run: "runnable_at s t"
    and calm: "current_tcb s = Some t \<Longrightarrow> by_thread e \<Longrightarrow> \<not> may_block e"
  shows "runnable_at s' t"
proof -
  have I: "kinv s" "kernel_running s" using inv by (simp_all add: sys_inv_def)
  have obj: "object_ready e s" using en by (simp add: enabled_def)
  have B: "t \<notin> (if n = 0 then {} else {c})" if "running s c" "may_block e \<longleftrightarrow> n \<noteq> 0" "by_thread e" for n :: u32 and c
    using calm that by (auto simp: running_def)
  show ?thesis
  proof (cases e)
    case Tick
    with keeps_tick [OF I(1)] ex keeps_runnable [OF _ _ run] show ?thesis by fastforce
  next
    case (Switch c)
    with switch_runnable [OF inv _ run] ex show ?thesis by simp
  next
    case (Lock m timeout)
    with obj obtain x where x: "mutexes s m = Some x" by auto
    from Lock en obtain c where c: "running s c" using enabled_thread by (metis by_thread.simps(4))
    from keeps_lock [OF I(1) c x I(2), of timeout] obtain r s'' where
      "os_mutex_acquire m timeout s = Some (r, s'')" "keeps (if timeout = 0 then {} else {c}) s s''" by metis
    with Lock ex keeps_runnable [OF _ B [OF c] run] show ?thesis by auto
  next
    case (Unlock m)
    with obj obtain x where "mutexes s m = Some x" by auto
    with keeps_unlock [OF I(1) this] Unlock ex keeps_runnable [OF _ _ run] show ?thesis by fastforce
  next
    case (Take a timeout)
    with obj obtain x where x: "sems s a = Some x" by auto
    from Take en obtain c where c: "running s c" using enabled_thread by (metis by_thread.simps(6))
    from keeps_take [OF I(1) c x I(2), of timeout] obtain r s'' where
      "os_semaphore_acquire a timeout s = Some (r, s'')" "keeps (if timeout = 0 then {} else {c}) s s''" by metis
    with Take ex keeps_runnable [OF _ B [OF c] run] show ?thesis by auto
  next
    case (Sleep ms)
    from Sleep en obtain c where c: "running s c" using enabled_thread by (metis by_thread.simps(8))
    from keeps_sleep [OF I(1) c I(2), of ms] obtain s'' where
      "os_delay ms s = Some s''" "keeps (if ms = 0 then {} else {c}) s s''" by metis
    with Sleep ex keeps_runnable [OF _ B [OF c] run] show ?thesis by auto
  next
    case (Store a v)
    with ex run show ?thesis by auto
  next
    case (Give a)
    with obj obtain x where "sems s a = Some x" by auto
    with keeps_give [OF I(1) this] Give ex keeps_runnable [OF _ _ run] show ?thesis by fastforce
  next
    case (Isr_give a)
    with obj obtain x where "sems s a = Some x" by auto
    with keeps_give [OF I(1) this] Isr_give ex keeps_runnable [OF _ _ run] show ?thesis by fastforce
  qed
qed

text \<open>
  The holder of a mutex is runnable as long as it does not block itself: who is handed the
  mutex is made ready, who takes it is running.
\<close>

lemma holder_runnable:
  assumes inv: "sys_inv idle s" and en: "enabled idle s e" and ex: "exec e s = Some s'" and t: "t < tc s"
    and run: "seat s m t = Holding \<Longrightarrow> runnable_at s t"
    and calm: "current_tcb s = Some t \<Longrightarrow> by_thread e \<Longrightarrow> seat s m t = Holding \<Longrightarrow> \<not> may_block e"
    and holds: "seat s' m t = Holding"
  shows "runnable_at s' t"
proof (cases "seat s m t = Holding")
  case True
  with exec_runnable [OF inv en ex run] calm show ?thesis by blast
next
  case False
  have I: "kinv s" using inv by (simp add: sys_inv_def)
  have obj: "object_ready e s" using en by (simp add: enabled_def)
  have "holder s' = holder_after s e" using exec_views [OF inv en ex] by (simp add: views_def)
  with holds False consider (lock) n where "e = Lock m n" "holder s m = None" "current_tcb s = Some t"
    | (unlock) "e = Unlock m" "next_owner m s = Some t"
    by (cases e) (auto simp: seat_simps split: if_splits)
  then show ?thesis
  proof cases
    case (lock n)
    with obj obtain x where x: "mutexes s m = Some x" by auto
    have "lock x = 0" using lock(2) x mutex_ok_owner(3) [OF I x] by (auto simp: holder_def split: if_splits)
    with mutex_acquire_free [OF x this, of n] ex lock have s': "s' = set_lock m 1 (Some t) s" by auto
    have "running s t" using lock en by (simp add: enabled_def)
    then have "runnable_at s t" by (auto simp: running_def runnable_def)
    with s' show ?thesis by simp
  next
    case unlock
    with obj obtain x where x: "mutexes s m = Some x" by auto
    obtain s'' where s'': "os_mutex_release m s = Some s''"
      "os_tasks s'' = (undonated (owner x) (os_tasks s))[t := woken (os_tasks s ! t)]" "task_count s'' = task_count s"
      by (rule mutex_release_handoff [OF I x unlock(2)])
    have "t < length (os_tasks s)" using waits_okD(3) [OF kinvD(1) [OF I] t] .
    with s'' ex unlock(1) t show ?thesis by (simp add: runnable_def)
  qed
qed

end
