(* ===== verification/Queue_Account.thy ===== *)
theory Queue_Account
  imports Priorities Firmware_Steps
begin

text \<open>
  One task sending to a queue and one receiving from it, both without waiting, in any
  interleaving of their steps: what each owes the other at each point of its call, and the
  account that balances the two semaphores, the ring and these debts.
\<close>

subsection \<open>The points of a call\<close>

text \<open>Inside the section that the mutex of the queue guards, waiting for the mutex included.\<close>

fun in_section :: "q_pc \<Rightarrow> bool" where
  "in_section (S_lock_wait _ _) = True"
| "in_section (S_write _ _) = True"
| "in_section (S_unlock _) = True"
| "in_section R_lock_wait = True"
| "in_section R_read = True"
| "in_section (R_unlock _) = True"
| "in_section _ = False"

fun at_lock_wait :: "q_pc \<Rightarrow> bool" where
  "at_lock_wait (S_lock_wait _ _) = True"
| "at_lock_wait R_lock_wait = True"
| "at_lock_wait _ = False"

text \<open>The points of a send and of a receive that do not wait and do not fail.\<close>

fun sending :: "q_pc \<Rightarrow> bool" where
  "sending (S_take _ timeout) = (timeout = 0)"
| "sending (S_lock _ _) = True"
| "sending (S_lock_wait _ _) = True"
| "sending (S_write _ _) = True"
| "sending (S_unlock _) = True"
| "sending (S_post _) = True"
| "sending (Q_done _ _) = True"
| "sending _ = False"

fun draining :: "q_pc \<Rightarrow> bool" where
  "draining (R_take timeout) = (timeout = 0)"
| "draining R_lock = True"
| "draining R_lock_wait = True"
| "draining R_read = True"
| "draining (R_unlock _) = True"
| "draining (R_post _) = True"
| "draining (Q_done _ _) = True"
| "draining _ = False"

text \<open>A slot taken but not yet written, a message written but not yet announced.\<close>

fun slot_held :: "q_pc \<Rightarrow> nat" where
  "slot_held (S_lock _ had) = of_bool had"
| "slot_held (S_lock_wait _ had) = of_bool had"
| "slot_held (S_write _ had) = of_bool had"
| "slot_held _ = 0"

fun msg_unposted :: "q_pc \<Rightarrow> nat" where
  "msg_unposted (S_unlock had) = of_bool had"
| "msg_unposted (S_post had) = of_bool had"
| "msg_unposted _ = 0"

text \<open>A message taken but not yet read, a slot emptied but not yet announced.\<close>

fun msg_held :: "q_pc \<Rightarrow> nat" where
  "msg_held R_lock = 1"
| "msg_held R_lock_wait = 1"
| "msg_held R_read = 1"
| "msg_held _ = 0"

fun slot_unposted :: "q_pc \<Rightarrow> nat" where
  "slot_unposted (R_unlock _) = 1"
| "slot_unposted (R_post _) = 1"
| "slot_unposted _ = 0"

subsection \<open>The account\<close>

text \<open>
  The number of messages in the ring, by the semaphore that counts them and by what the
  sender (at \<open>p\<close>) and the receiver (at \<open>r\<close>) are doing; the ring's indices are that far apart,
  and together with the free slots they make up the capacity.
\<close>

definition in_ring :: "nat \<Rightarrow> kernel \<Rightarrow> q_pc \<Rightarrow> q_pc \<Rightarrow> nat" where
  "in_ring q s p r = unat (tokens s (Queue_Filled q)) + msg_unposted p + msg_held r"

definition account :: "nat \<Rightarrow> u32 \<Rightarrow> kernel \<Rightarrow> q_pc \<Rightarrow> q_pc \<Rightarrow> bool" where
  "account q n s p r \<longleftrightarrow> (\<exists>x. queues s q = Some x \<and> q_capacity x = n \<and> q_tail x < q_capacity x \<and>
     unat (q_head x) = (unat (q_tail x) + in_ring q s p r) mod unat (q_capacity x) \<and>
     in_ring q s p r + unat (tokens s (Queue_Empty q)) + slot_held p + slot_unposted r = unat (q_capacity x) \<and>
     max_tokens s (Queue_Empty q) = q_capacity x \<and> max_tokens s (Queue_Filled q) = q_capacity x)"

lemma account_same:
  assumes "account q n s p r" "queues s' q = queues s q" "max_tokens s' = max_tokens s"
    and "in_ring q s' p' r' = in_ring q s p r"
    and "unat (tokens s' (Queue_Empty q)) + slot_held p' + slot_unposted r' =
      unat (tokens s (Queue_Empty q)) + slot_held p + slot_unposted r"
  shows "account q n s' p' r'"
proof -
  have "in_ring q s p r + unat (tokens s (Queue_Empty q)) + slot_held p + slot_unposted r =
      in_ring q s' p' r' + unat (tokens s' (Queue_Empty q)) + slot_held p' + slot_unposted r'"
    using assms(4,5) by simp
  with assms(1-4) show ?thesis by (auto simp: account_def)
qed

text \<open>The events that leave the account alone.\<close>

fun queue_event :: "nat \<Rightarrow> event \<Rightarrow> bool" where
  "queue_event q (Take a _) = (a = Queue_Empty q \<or> a = Queue_Filled q)"
| "queue_event q (Give a) = (a = Queue_Empty q \<or> a = Queue_Filled q)"
| "queue_event q (Isr_give a) = (a = Queue_Empty q \<or> a = Queue_Filled q)"
| "queue_event q _ = False"

lemma tokens_elsewhere:
  "\<not> queue_event q e \<Longrightarrow> a = Queue_Empty q \<or> a = Queue_Filled q \<Longrightarrow> tokens_after s e a = tokens s a"
  by (cases e) (auto simp: given_def)

lemma account_elsewhere:
  assumes A: "account q n s p r" and inv: "sys_inv idle s" and en: "enabled idle s e" and ex: "exec e s = Some s'"
    and e: "\<not> queue_event q e"
    and debts: "slot_held p' = slot_held p" "msg_unposted p' = msg_unposted p" "msg_held r' = msg_held r"
      "slot_unposted r' = slot_unposted r"
  shows "account q n s' p' r'"
proof (rule account_same [OF A])
  have V: "tokens s' = tokens_after s e" "max_tokens s' = max_tokens s"
    using exec_views [OF inv en ex] by (simp_all add: views_def)
  show "max_tokens s' = max_tokens s" by (rule V(2))
  show "queues s' q = queues s q" using exec_objects [OF ex] by (simp add: same_objects_def)
  show "in_ring q s' p' r' = in_ring q s p r"
    using tokens_elsewhere [OF e] debts by (simp add: in_ring_def V(1))
  show "unat (tokens s' (Queue_Empty q)) + slot_held p' + slot_unposted r' =
      unat (tokens s (Queue_Empty q)) + slot_held p + slot_unposted r"
    using tokens_elsewhere [OF e] debts by (simp add: V(1))
qed

subsection \<open>Nobody waits for a message or a slot\<close>

definition unwaited :: "nat \<Rightarrow> kernel \<Rightarrow> bool" where
  "unwaited q s \<longleftrightarrow> waiters s (SemQ (Queue_Empty q)) = [] \<and> waiters s (SemQ (Queue_Filled q)) = []"

lemma poll_result:
  assumes "sems s a = Some x"
  shows "os_semaphore_acquire a 0 s = Some (if tokens s a \<noteq> 0
    then (Returned OS_SUCCESS, set_tokens a (tokens s a - 1) s) else (Returned OS_TIMEOUT, s))"
  using assms sem_acquire_token [OF assms] sem_acquire_poll [OF assms] by (simp add: tokens_def)

text \<open>A task never comes to wait for an object it does not ask for, or only polls.\<close>

lemma exec_unwaited:
  assumes inv: "sys_inv idle s" and en: "enabled idle s e" and ex: "exec e s = Some s'"
    and none: "waiters s (SemQ a) = []" and e: "\<And>n. e = Take a n \<Longrightarrow> n = 0"
  shows "waiters s' (SemQ a) = []"
proof -
  have K: "kinv s" "kinv s'" using inv exec_ok [OF inv en] ex by (auto simp: sys_inv_def)
  have obj: "object_ready e s" using en by (simp add: enabled_def)
  have tc: "tc s' = tc s" using exec_objects [OF ex] by (simp add: same_objects_def)
  show ?thesis
  proof (cases "\<exists>n. e = Take a n")
    case True
    with e have e0: "e = Take a 0" by blast
    then obtain x where "sems s a = Some x" using obj by auto
    from poll_result [OF this] e0 ex none show ?thesis by (auto split: if_splits)
  next
    case False
    have "wait_queue (os_tasks s' ! t) \<noteq> Some (SemQ a)" if t: "t < tc s" for t
    proof -
      have "wait_queue (os_tasks s ! t) \<noteq> Some (SemQ a)" using none t no_waiters_iff [OF K(1)] by blast
      moreover have "wait_queue (ticked y) = None \<or> wait_queue (ticked y) = wait_queue y" for y
        by (simp add: ticked_def)
      ultimately show ?thesis
        using exec_waits [OF inv en ex t] False
        by (cases e) (auto simp: waits_after_def wait_part_def split: if_splits, (metis option.distinct(1))+)
    qed
    then show ?thesis by (simp add: no_waiters_iff [OF K(2)] tc)
  qed
qed

subsection \<open>The mutex of the queue is always granted\<close>

text \<open>Handed over by a release, the mutex comes with the result \<^verbatim>\<open>OS_SUCCESS\<close>.\<close>

definition granted :: "kernel \<Rightarrow> maddr \<Rightarrow> tid \<Rightarrow> bool" where
  "granted s m t \<longleftrightarrow> (seat s m t = Holding \<longrightarrow>
     wait_queue (os_tasks s ! t) = None \<and> wait_result (os_tasks s ! t) = OS_SUCCESS)"

lemma granted_exec:
  assumes inv: "sys_inv idle s" and en: "enabled idle s e" and ex: "exec e s = Some s'" and t: "t < tc s"
    and other: "by_thread e \<Longrightarrow> current_tcb s \<noteq> Some t" and g: "granted s m t"
  shows "granted s' m t"
proof -
  have K: "kinv s" using inv by (simp add: sys_inv_def)
  have H: "holder s' = holder_after s e" using exec_views [OF inv en ex] by (simp add: views_def)
  have W: "waits_after s e t (os_tasks s' ! t)" by (rule exec_waits [OF inv en ex t])
  have "wait_queue (os_tasks s' ! t) = None \<and> wait_result (os_tasks s' ! t) = OS_SUCCESS" if hold: "seat s' m t = Holding"
  proof (cases "wakes s e = Some t")
    case True
    with W show ?thesis by (simp add: waits_after_def wait_part_def)
  next
    case False
    with H hold other have "seat s m t = Holding" by (cases e) (auto simp: seat_simps split: if_splits)
    with g have free: "wait_queue (os_tasks s ! t) = None" "wait_result (os_tasks s ! t) = OS_SUCCESS"
      by (simp_all add: granted_def)
    moreover have "wait_queue (ticked y) = None" "wait_result (ticked y) = wait_result y" if "wait_queue y = None" for y
      using that by (simp_all add: ticked_def)
    ultimately show ?thesis
      using W False other by (auto simp: waits_after_def wait_part_def split: if_splits)
  qed
  then show ?thesis by (simp add: granted_def)
qed

lemma lock_result:
  assumes inv: "kinv s" and k: "kernel_running s" and c: "running s c" and x: "mutexes s m = Some x"
    and away: "seat s m c = Away" and ex: "os_mutex_acquire m WAIT_FOREVER s = Some (out, s')"
  shows "out = Returned OS_SUCCESS \<and> seat s' m c = Holding \<or> out = Parked \<and> seat s' m c \<noteq> Holding"
proof (cases "lock x = 0")
  case True
  have "current_tcb s = Some c" using c by (simp add: running_def)
  with mutex_acquire_free [OF x True] ex holder_set_lock [OF x] show ?thesis by (auto simp: seat_simps)
next
  case False
  have own: "owner x \<noteq> Some c" using away False x by (simp add: seat_simps holder_def)
  have "WAIT_FOREVER \<noteq> 0" by (simp add: WAIT_FOREVER_def)
  from mutex_acquire_block [OF inv c x False own this k] obtain o' s'' where
    s'': "os_mutex_acquire m WAIT_FOREVER s = Some (Parked, s'')" "obj_cores s'' = obj_cores s" by metis
  have "holder s'' = holder s" using same_cores [OF s''(2)] by simp
  with s''(1) ex away show ?thesis by (simp add: seat_simps)
qed

subsection \<open>A step of the sender and of the receiver\<close>

text \<open>
  What a task knows of the mutex at a point of its call: while it waits, that it will be
  granted; past the wait, that the task holds it.
\<close>

definition poised :: "nat \<Rightarrow> tid \<Rightarrow> q_pc \<Rightarrow> kernel \<Rightarrow> bool" where
  "poised q t p s \<longleftrightarrow> (at_lock_wait p \<longrightarrow> granted s (Queue_Lock q) t) \<and>
     (in_section p \<and> \<not> at_lock_wait p \<longrightarrow> seat s (Queue_Lock q) t = Holding)"

definition at_queue :: "nat \<Rightarrow> tid \<Rightarrow> q_pc \<Rightarrow> kernel \<Rightarrow> bool" where
  "at_queue q t p s \<longleftrightarrow> (in_section p \<longleftrightarrow> seat s (Queue_Lock q) t \<noteq> Away) \<and> poised q t p s"

lemma poised_outside: "\<not> in_section p \<Longrightarrow> \<not> at_lock_wait p \<Longrightarrow> poised q t p s"
  by (simp add: poised_def)

text \<open>Each side goes through its call without failing.\<close>

lemma lock_step:
  assumes inv: "sys_inv idle s" and c: "running s c" and x: "mutexes s (Queue_Lock q) = Some x"
    and at: "at_queue q c p s" and st: "q_step q p s = Some (p', s')"
  shows "p = S_lock msg had \<Longrightarrow> p' = S_write msg had \<and> seat s' (Queue_Lock q) c = Holding \<or>
      p' = S_lock_wait msg had \<and> granted s' (Queue_Lock q) c"
    and "p = R_lock \<Longrightarrow> p' = R_read \<and> seat s' (Queue_Lock q) c = Holding \<or>
      p' = R_lock_wait \<and> granted s' (Queue_Lock q) c"
proof -
  have I: "kinv s" "kernel_running s" using inv by (simp_all add: sys_inv_def)
  have *: "cont = (\<lambda>c. cont c) \<Longrightarrow> after_acquire w cont (out, t) = (p', s') \<Longrightarrow>
      os_mutex_acquire (Queue_Lock q) WAIT_FOREVER s = Some (out, t) \<Longrightarrow> \<not> in_section p \<Longrightarrow>
      p' = cont OS_SUCCESS \<and> seat s' (Queue_Lock q) c = Holding \<or> p' = w \<and> granted s' (Queue_Lock q) c" for w cont out t
    using lock_result [OF I c x, of out t] at
    by (cases out) (auto simp: after_acquire_def at_queue_def granted_def)
  show "p = S_lock msg had \<Longrightarrow> p' = S_write msg had \<and> seat s' (Queue_Lock q) c = Holding \<or>
      p' = S_lock_wait msg had \<and> granted s' (Queue_Lock q) c"
    using * st by (fastforce simp: s_locked_def)
  show "p = R_lock \<Longrightarrow> p' = R_read \<and> seat s' (Queue_Lock q) c = Holding \<or>
      p' = R_lock_wait \<and> granted s' (Queue_Lock q) c"
    using * st by (fastforce simp: r_locked_def)
qed

lemma resume_step:
  assumes K: "kinv s" and c: "running s c" and at: "at_queue q c p s" and w: "at_lock_wait p"
  shows "os_resume_result s = Some OS_SUCCESS" "seat s (Queue_Lock q) c = Holding"
proof -
  have "in_section p" using w by (cases p) simp_all
  then show hold: "seat s (Queue_Lock q) c = Holding" using running_seat [OF K c] at by (simp add: at_queue_def)
  with at w have "wait_result (os_tasks s ! c) = OS_SUCCESS" by (simp add: at_queue_def poised_def granted_def)
  moreover have "c < length (os_tasks s)" using waits_okD(3) [OF kinvD(1) [OF K]] c by (simp add: running_def)
  ultimately show "os_resume_result s = Some OS_SUCCESS"
    using c by (simp add: os_resume_result_def get_tcb_def running_def)
qed

text \<open>The ring steps keep the mutex.\<close>

lemma ring_seat:
  "ring_write q msg had s = Some s' \<Longrightarrow> seat s' m t = seat s m t" "ring_read q s = Some (v, s') \<Longrightarrow> seat s' m t = seat s m t"
  by (auto simp: ring_write_def ring_read_def seat_def holder_def Let_def Option.bind_eq_Some_conv split: if_splits)

text \<open>Where the step leads, and whether it is in the section there.\<close>

definition section_after :: "nat \<Rightarrow> q_pc \<Rightarrow> bool" where
  "section_after q p \<longleftrightarrow> (if q_event q p = Some (Lock (Queue_Lock q) WAIT_FOREVER) then True
     else if q_event q p = Some (Unlock (Queue_Lock q)) then False else in_section p)"

lemma took_cases: "s_took msg c = S_lock msg (c = OS_SUCCESS)" "r_took c = R_lock \<or> r_took c = Q_done OS_TIMEOUT None"
  by (simp_all add: s_took_def r_took_def)

lemma poll_step:
  assumes "sems s (Queue_Empty q) \<noteq> None" "sems s (Queue_Filled q) \<noteq> None" "q_step q p s = Some (p', s')"
  shows "p = S_take msg 0 \<Longrightarrow> p' = S_lock msg (tokens s (Queue_Empty q) \<noteq> 0)"
    and "p = R_take 0 \<Longrightarrow> p' = (if tokens s (Queue_Filled q) \<noteq> 0 then R_lock else Q_done OS_TIMEOUT None)"
proof -
  obtain x y where xy: "sems s (Queue_Empty q) = Some x" "sems s (Queue_Filled q) = Some y" using assms(1,2) by auto
  have codes: "OS_TIMEOUT \<noteq> OS_SUCCESS" by (simp add: model_defs)
  show "p = S_take msg 0 \<Longrightarrow> p' = S_lock msg (tokens s (Queue_Empty q) \<noteq> 0)"
    using assms(3) poll_result [OF xy(1)] codes by (auto simp: after_acquire_def s_took_def split: if_splits)
  show "p = R_take 0 \<Longrightarrow> p' = (if tokens s (Queue_Filled q) \<noteq> 0 then R_lock else Q_done OS_TIMEOUT None)"
    using assms(3) poll_result [OF xy(2)] codes by (auto simp: after_acquire_def r_took_def split: if_splits)
qed

lemma sending_step:
  assumes inv: "sys_inv idle s" and c: "running s c" and x: "mutexes s (Queue_Lock q) = Some x"
    and y: "sems s (Queue_Empty q) \<noteq> None" "sems s (Queue_Filled q) \<noteq> None"
    and at: "at_queue q c p s" and st: "q_step q p s = Some (p', s')" and p: "sending p"
  shows "sending p' \<and> in_section p' = section_after q p \<and> poised q c p' s'"
proof -
  have K: "kinv s" using inv by (simp add: sys_inv_def)
  note lk = lock_step(1) [OF inv c x at st] and rs = resume_step [OF K c at] and po = poll_step(1) [OF y st]
  show ?thesis
  proof (cases p)
    case (S_take msg timeout)
    with p po show ?thesis by (simp add: section_after_def poised_outside)
  next
    case (S_lock msg had)
    with lk show ?thesis by (auto simp: section_after_def poised_def)
  next
    case (S_lock_wait msg had)
    with rs st show ?thesis by (auto simp: section_after_def s_locked_def poised_def)
  next
    case (S_write msg had)
    with at st ring_seat(1) show ?thesis
      by (auto simp: section_after_def Option.bind_eq_Some_conv poised_def at_queue_def)
  qed (use p st in \<open>auto simp: section_after_def Option.bind_eq_Some_conv poised_outside\<close>)
qed

lemma draining_step:
  assumes inv: "sys_inv idle s" and c: "running s c" and x: "mutexes s (Queue_Lock q) = Some x"
    and y: "sems s (Queue_Empty q) \<noteq> None" "sems s (Queue_Filled q) \<noteq> None"
    and at: "at_queue q c p s" and st: "q_step q p s = Some (p', s')" and p: "draining p"
  shows "draining p' \<and> in_section p' = section_after q p \<and> poised q c p' s'"
proof -
  have K: "kinv s" using inv by (simp add: sys_inv_def)
  note lk = lock_step(2) [OF inv c x at st] and rs = resume_step [OF K c at] and po = poll_step(2) [OF y st]
  show ?thesis
  proof (cases p)
    case (R_take timeout)
    with p po show ?thesis by (simp add: section_after_def poised_outside)
  next
    case R_lock
    with lk show ?thesis by (auto simp: section_after_def poised_def)
  next
    case R_lock_wait
    with rs st show ?thesis by (auto simp: section_after_def r_locked_def poised_def)
  next
    case R_read
    with at st ring_seat(2) show ?thesis
      by (auto simp: section_after_def Option.bind_eq_Some_conv poised_def at_queue_def)
  qed (use p st in \<open>auto simp: section_after_def Option.bind_eq_Some_conv poised_outside\<close>)
qed

subsection \<open>The account is kept\<close>

text \<open>What the account says of the two counters and of the ring.\<close>

lemma accountE:
  assumes "account q n s p r"
  obtains x where "queues s q = Some x" "q_tail x < q_capacity x"
    "unat (q_head x) = (unat (q_tail x) + in_ring q s p r) mod unat (q_capacity x)"
    "in_ring q s p r + unat (tokens s (Queue_Empty q)) + slot_held p + slot_unposted r = unat (q_capacity x)"
    "max_tokens s (Queue_Empty q) = q_capacity x" "max_tokens s (Queue_Filled q) = q_capacity x"
    "q_capacity x = n"
  using assms by (auto simp: account_def)

lemma next_index:
  fixes i n :: u32
  assumes "i < n"
  shows "unat ((i + 1) mod n) = (unat i + 1) mod unat n" "(i + 1) mod n < n"
proof -
  have "unat i < unat n" "unat n < 2 ^ 32" using assms unat_u32_less [of n] by (simp_all add: word_less_nat_alt)
  then have "unat (i + 1) = unat i + 1" using unat_inc [of i] by simp
  then show "unat ((i + 1) mod n) = (unat i + 1) mod unat n" by (simp add: unat_mod_distrib)
  show "(i + 1) mod n < n" using assms by (intro mod_below)
qed

lemma give_back:
  fixes k n :: u32
  assumes "unat k < unat n"
  shows "unat (k + 1) = unat k + 1" "k < n"
  using assms unat_u32_less [of n] unat_inc [of k] by (simp_all add: word_less_nat_alt)

lemma take_one: "k \<noteq> 0 \<Longrightarrow> unat (k - 1) = unat k - 1 \<and> 0 < unat k" for k :: u32
  by (simp add: unat_dec unat_gt_0)

lemma counters_after:
  assumes inv: "sys_inv idle s" and en: "enabled idle s e" and ex: "exec e s = Some s'"
  shows "tokens s' = tokens_after s e" "max_tokens s' = max_tokens s" "queues s' = queues s"
  using exec_views [OF inv en ex] exec_objects [OF ex] by (simp_all add: views_def same_objects_def)

lemma account_taken:
  assumes A: "account q n s p r" and inv: "sys_inv idle s" and en: "enabled idle s e" and ex: "exec e s = Some s'"
  shows "e = Take (Queue_Empty q) k \<Longrightarrow> slot_held p' = slot_held p + of_bool (tokens s (Queue_Empty q) \<noteq> 0) \<Longrightarrow>
      msg_unposted p' = msg_unposted p \<Longrightarrow> account q n s' p' r"
    and "e = Take (Queue_Filled q) k \<Longrightarrow> msg_held r' = msg_held r + of_bool (tokens s (Queue_Filled q) \<noteq> 0) \<Longrightarrow>
      slot_unposted r' = slot_unposted r \<Longrightarrow> account q n s' p r'"
  using take_one [of "tokens s (Queue_Empty q)"] take_one [of "tokens s (Queue_Filled q)"] counters_after [OF inv en ex]
  by (auto intro!: account_same [OF A] simp: in_ring_def)

lemma account_given:
  assumes A: "account q n s p r" and inv: "sys_inv idle s" and en: "enabled idle s e" and ex: "exec e s = Some s'"
    and none: "unwaited q s"
  shows "e = Give (Queue_Filled q) \<Longrightarrow> msg_unposted p = 1 \<Longrightarrow> slot_held p' = slot_held p \<Longrightarrow> msg_unposted p' = 0 \<Longrightarrow>
      account q n s' p' r"
    and "e = Give (Queue_Empty q) \<Longrightarrow> slot_unposted r = 1 \<Longrightarrow> msg_held r' = msg_held r \<Longrightarrow> slot_unposted r' = 0 \<Longrightarrow>
      account q n s' p r'"
proof -
  obtain x where x: "in_ring q s p r + unat (tokens s (Queue_Empty q)) + slot_held p + slot_unposted r = unat (q_capacity x)"
    "queues s q = Some x" "max_tokens s (Queue_Empty q) = q_capacity x" "max_tokens s (Queue_Filled q) = q_capacity x"
    using A unfolding account_def by blast
  note T = counters_after [OF inv en ex]
  show "account q n s' p' r" if e: "e = Give (Queue_Filled q)" "msg_unposted p = 1" "slot_held p' = slot_held p" "msg_unposted p' = 0"
  proof -
    have "unat (tokens s (Queue_Filled q)) < unat (q_capacity x)" using x(1) e(2) by (simp add: in_ring_def)
    with give_back [OF this] e none T x(4) show ?thesis
      by (intro account_same [OF A]) (auto simp: in_ring_def given_def unwaited_def)
  qed
  show "account q n s' p r'" if e: "e = Give (Queue_Empty q)" "slot_unposted r = 1" "msg_held r' = msg_held r" "slot_unposted r' = 0"
  proof -
    have "unat (tokens s (Queue_Empty q)) < unat (q_capacity x)" using x(1) e(2) by simp
    with give_back [OF this] e none T x(3) show ?thesis
      by (intro account_same [OF A]) (auto simp: in_ring_def given_def unwaited_def)
  qed
qed

text \<open>The two steps on the ring.\<close>

lemma account_write:
  assumes A: "account q n s (S_write msg had) r" and wr: "ring_write q msg had s = Some s'"
  shows "account q n s' (S_unlock had) r"
proof -
  obtain x where x: "queues s q = Some x" "q_tail x < q_capacity x"
    "unat (q_head x) = (unat (q_tail x) + in_ring q s (S_write msg had) r) mod unat (q_capacity x)"
    "in_ring q s (S_write msg had) r + unat (tokens s (Queue_Empty q)) + slot_held (S_write msg had) + slot_unposted r =
      unat (q_capacity x)"
    "max_tokens s (Queue_Empty q) = q_capacity x" "max_tokens s (Queue_Filled q) = q_capacity x"
    "q_capacity x = n"
    by (rule accountE [OF A])
  have head: "q_head x < q_capacity x" using x(2,3) by (simp add: word_less_nat_alt)
  let ?x1 = "x\<lparr>q_head := (q_head x + 1) mod q_capacity x\<rparr>"
  let ?x2 = "if had then ?x1 else ?x1\<lparr>q_tail := (q_tail x + 1) mod q_capacity x\<rparr>"
  have s': "queues s' q = Some ?x2" "tokens s' = tokens s" "max_tokens s' = max_tokens s"
    using wr x(1) head [unfolded not_le [symmetric]] by (auto simp: ring_write_def Let_def tokens_def max_tokens_def fun_eq_iff)
  note ix = next_index [OF head] next_index [OF x(2)]
  have "unat (q_head ?x2) = (unat (q_head x) + 1) mod unat (q_capacity x)" using ix(1) by simp
  then have head': "unat (q_head ?x2) = (unat (q_tail x) + in_ring q s (S_write msg had) r + 1) mod unat (q_capacity x)"
    by (simp only: x(3)) (simp add: mod_Suc_eq)
  have size: "in_ring q s' (S_unlock had) r = in_ring q s (S_write msg had) r + of_bool had"
    by (simp add: in_ring_def s'(2))
  have "unat (q_head ?x2) = (unat (q_tail ?x2) + in_ring q s' (S_unlock had) r) mod unat (q_capacity ?x2)"
  proof (cases had)
    case True
    with head' size show ?thesis by simp
  next
    case False
    with ix(3) have "unat (q_tail ?x2) = (unat (q_tail x) + 1) mod unat (q_capacity x)" by simp
    with head' size False show ?thesis by (simp add: mod_simps)
  qed
  moreover have "q_tail ?x2 < q_capacity ?x2" using x(2) ix(4) by simp
  ultimately show ?thesis using s' size x(4-7) by (cases had) (simp_all add: account_def)
qed

lemma account_read:
  assumes A: "account q n s p R_read" and rd: "ring_read q s = Some (v, s')"
  shows "account q n s' p (R_unlock v)"
proof -
  obtain x where x: "queues s q = Some x" "q_tail x < q_capacity x"
    "unat (q_head x) = (unat (q_tail x) + in_ring q s p R_read) mod unat (q_capacity x)"
    "in_ring q s p R_read + unat (tokens s (Queue_Empty q)) + slot_held p + slot_unposted R_read = unat (q_capacity x)"
    "max_tokens s (Queue_Empty q) = q_capacity x" "max_tokens s (Queue_Filled q) = q_capacity x"
    "q_capacity x = n"
    by (rule accountE [OF A])
  let ?x' = "x\<lparr>q_tail := (q_tail x + 1) mod q_capacity x\<rparr>"
  have s': "queues s' q = Some ?x'" "tokens s' = tokens s" "max_tokens s' = max_tokens s"
    using rd x(1) x(2) [unfolded not_le [symmetric]] by (auto simp: ring_read_def tokens_def max_tokens_def fun_eq_iff)
  note ix = next_index [OF x(2)]
  have size: "in_ring q s p R_read = in_ring q s' p (R_unlock v) + 1" by (simp add: in_ring_def s'(2))
  have "(unat (q_tail ?x') + in_ring q s' p (R_unlock v)) mod unat (q_capacity x) =
      (unat (q_tail x) + 1 + in_ring q s' p (R_unlock v)) mod unat (q_capacity x)" using ix(1) by (simp add: mod_simps)
  with x(3) size have "unat (q_head ?x') = (unat (q_tail ?x') + in_ring q s' p (R_unlock v)) mod unat (q_capacity ?x')"
    by (simp add: add.commute)
  then show ?thesis using s' size x(4-7) ix(2) by (simp add: account_def)
qed

lemma q_step_exec: "q_step q p s = Some (p', s') \<Longrightarrow> q_event q p = Some e \<Longrightarrow> exec e s = Some s'"
  by (cases p) (auto simp: Option.bind_eq_Some_conv dest!: after_acquire_snd split: if_splits)

lemma account_still: "account q n s p r \<Longrightarrow> slot_held p' = slot_held p \<Longrightarrow> msg_unposted p' = msg_unposted p \<Longrightarrow>
    msg_held r' = msg_held r \<Longrightarrow> slot_unposted r' = slot_unposted r \<Longrightarrow> account q n s p' r'"
  by (rule account_same) (simp_all add: in_ring_def)

lemma send_account:
  assumes A: "account q n s p r" and inv: "sys_inv idle s" and en: "\<And>e. q_event q p = Some e \<Longrightarrow> enabled idle s e"
    and y: "sems s (Queue_Empty q) \<noteq> None" "sems s (Queue_Filled q) \<noteq> None" and none: "unwaited q s"
    and st: "q_step q p s = Some (p', s')" and p: "sending p" "sending p'"
  shows "account q n s' p' r"
proof -
  note ev = en q_step_exec [OF st]
  note else' = account_elsewhere [OF A inv ev]
  show ?thesis
  proof (cases p)
    case (S_take msg timeout)
    with p poll_step(1) [OF y st] have "p' = S_lock msg (tokens s (Queue_Empty q) \<noteq> 0)" "timeout = 0" by simp_all
    with S_take account_taken(1) [OF A inv ev] show ?thesis by simp
  next
    case (S_lock msg had)
    with st p(2) have "p' = S_lock_wait msg had \<or> p' = S_write msg had"
      by (auto simp: s_locked_def dest!: after_acquire_cases split: if_splits)
    with S_lock else' show ?thesis by auto
  next
    case (S_lock_wait msg had)
    with st p(2) have "p' = S_write msg had" "s' = s" by (auto simp: Option.bind_eq_Some_conv s_locked_def split: if_splits)
    with A S_lock_wait account_still show ?thesis by simp
  next
    case (S_write msg had)
    with st account_write A show ?thesis by (auto simp: Option.bind_eq_Some_conv)
  next
    case (S_unlock had)
    with st else' show ?thesis by (auto simp: Option.bind_eq_Some_conv)
  next
    case (S_post had)
    show ?thesis
    proof (cases had)
      case True
      with S_post st account_given(1) [OF A inv ev none] show ?thesis by (auto simp: Option.bind_eq_Some_conv)
    next
      case False
      with S_post st A account_still [OF A] show ?thesis by auto
    qed
  qed (use p st A in auto)
qed

lemma receive_account:
  assumes A: "account q n s r p" and inv: "sys_inv idle s" and en: "\<And>e. q_event q p = Some e \<Longrightarrow> enabled idle s e"
    and y: "sems s (Queue_Empty q) \<noteq> None" "sems s (Queue_Filled q) \<noteq> None" and none: "unwaited q s"
    and st: "q_step q p s = Some (p', s')" and p: "draining p" "draining p'"
  shows "account q n s' r p'"
proof -
  note ev = en q_step_exec [OF st]
  note else' = account_elsewhere [OF A inv ev]
  show ?thesis
  proof (cases p)
    case (R_take timeout)
    with p poll_step(2) [OF y st] have "p' = (if tokens s (Queue_Filled q) \<noteq> 0 then R_lock else Q_done OS_TIMEOUT None)"
      "timeout = 0" by simp_all
    with R_take account_taken(2) [OF A inv ev] show ?thesis by simp
  next
    case R_lock
    with st p(2) have "p' = R_lock_wait \<or> p' = R_read"
      by (auto simp: r_locked_def dest!: after_acquire_cases split: if_splits)
    with R_lock else' show ?thesis by auto
  next
    case R_lock_wait
    with st p(2) have "p' = R_read" "s' = s" by (auto simp: Option.bind_eq_Some_conv r_locked_def split: if_splits)
    with A R_lock_wait account_still show ?thesis by simp
  next
    case R_read
    with st account_read A show ?thesis by (auto simp: Option.bind_eq_Some_conv)
  next
    case (R_unlock v)
    with st else' show ?thesis by (auto simp: Option.bind_eq_Some_conv)
  next
    case (R_post v)
    with st account_given(2) [OF A inv ev none] show ?thesis by (auto simp: Option.bind_eq_Some_conv)
  qed (use p st A in auto)
qed

lemma q_step_unwaited:
  assumes inv: "sys_inv idle s" and en: "\<And>e. q_event q p = Some e \<Longrightarrow> enabled idle s e"
    and st: "q_step q p s = Some (p', s')" and p: "sending p \<or> draining p" and none: "unwaited q s"
    and still: "q_event q p = None \<Longrightarrow> waiters s' = waiters s"
  shows "unwaited q s'"
proof (cases "q_event q p")
  case (Some e)
  have "\<And>a n. e = Take a n \<Longrightarrow> n = 0" using p Some by (cases p) (auto split: if_splits)
  with exec_unwaited [OF inv en q_step_exec [OF st]] Some none show ?thesis unfolding unwaited_def by blast
qed (use none still in \<open>simp add: unwaited_def\<close>)

end
