(* ===== verification/Shared_Queue.thy ===== *)
theory Shared_Queue
  imports Firmware_Inv Queue_Account
begin

text \<open>
  The angle queue of the running firmware: the sweep task sends, the radar task receives, and
  the interrupts come in between. The mutex of the queue is used in the discipline of
  \<open>mutex_user\<close>; the account of the queue balances in every reachable state.
\<close>

subsection \<open>A client of the queue\<close>

abbreviation queue_lock :: maddr where
  "queue_lock \<equiv> Queue_Lock sweep_queue"

interpretation sender: mutex_user queue_lock 1 "q_event sweep_queue" in_section
proof (unfold_locales, goal_cases)
  case (2 p e)
  then show ?case by (rule q_event_shared)
next
  case (3 p n)
  then show ?case by (cases p) (auto split: if_splits)
next
  case (4 p)
  then show ?case by (cases p) (auto split: if_splits)
qed simp

interpretation receiver: mutex_user queue_lock 0 "q_event sweep_queue" in_section
  by unfold_locales (simp_all add: sender.events sender.locks sender.unlocks)

lemma section_after_eq: "sender.wants_after p = section_after sweep_queue p"
  by (simp add: sender.wants_after_def section_after_def)

definition client :: "tid \<Rightarrow> q_pc \<Rightarrow> kernel \<Rightarrow> bool" where
  "client t p s \<longleftrightarrow> claims queue_lock t (in_section p) s \<and> poised sweep_queue t p s"

lemma client_at: "client t p s \<Longrightarrow> at_queue sweep_queue t p s"
  by (simp add: client_def at_queue_def claims_def)

lemma client_same:
  assumes "os_tasks s' = os_tasks s" "mutexes s' = mutexes s"
  shows "client t p s' = client t p s"
  using assms by (simp add: client_def claims_def poised_def granted_def patient_def seat_def holder_def)

text \<open>An event of somebody else.\<close>

lemma client_other:
  assumes ok: "kernel_ok s" and en: "enabled 2 s e" and ex: "exec e s = Some s'" and t: "t < 3"
    and other: "by_thread e \<Longrightarrow> current_tcb s \<noteq> Some t" and mine: "e = Unlock queue_lock \<Longrightarrow> holder s queue_lock = current_tcb s"
    and c: "client t p s"
  shows "client t p s'"
proof -
  have inv: "sys_inv 2 s" "t < tc s" using ok t by (simp_all add: kernel_ok_def)
  have "claims queue_lock t (in_section p) s" using c by (simp add: client_def)
  then have "undisturbed queue_lock t s s'" "claims queue_lock t (in_section p) s'"
    using undisturbed_exec [OF ok en ex t other mine] claims_undisturbed claimsD(1) by blast+
  with c granted_exec [OF inv(1) en ex inv(2) other] show ?thesis
    by (auto simp: client_def poised_def undisturbed_def)
qed

text \<open>A task's own event that has nothing to do with the queue.\<close>

fun elsewhere :: "event \<Rightarrow> bool" where
  "elsewhere (Lock m _) = (m \<noteq> queue_lock)"
| "elsewhere (Unlock m) = (m \<noteq> queue_lock)"
| "elsewhere e = (\<not> queue_event sweep_queue e)"

lemma elsewhereD: "elsewhere e \<Longrightarrow> \<not> queue_event sweep_queue e" "elsewhere e \<Longrightarrow> e \<noteq> Lock queue_lock n"
  "elsewhere e \<Longrightarrow> e \<noteq> Unlock queue_lock"
  by (cases e; auto)+

lemma client_own_elsewhere:
  assumes ok: "kernel_ok s" and en: "enabled 2 s e" and ex: "exec e s = Some s'" and on: "on_cpu s t"
    and e: "elsewhere e" "by_thread e" and c: "client t p s" and p: "\<not> in_section p" "\<not> at_lock_wait p"
  shows "client t p s'"
proof -
  have inv: "sys_inv 2 s" "running s t" using ok on by (simp_all add: kernel_ok_def on_cpu_def)
  have "seat s' queue_lock t = seat s queue_lock t \<and> patient s' queue_lock t"
    using seat_self [OF inv(1) en ex inv(2) e(2)] elsewhereD(2,3) [OF e(1)] by blast
  with c p show ?thesis by (simp add: client_def claims_def poised_def)
qed

lemma unwaited_elsewhere:
  assumes "sys_inv 2 s" "enabled 2 s e" "exec e s = Some s'" "elsewhere e" "unwaited sweep_queue s"
  shows "unwaited sweep_queue s'"
proof -
  have "e \<noteq> Take (Queue_Empty sweep_queue) n" "e \<noteq> Take (Queue_Filled sweep_queue) n" for n
    using elsewhereD(1) [OF assms(4)] by auto
  with exec_unwaited [OF assms(1-3)] assms(5) show ?thesis unfolding unwaited_def by blast
qed

subsection \<open>Both clients\<close>

text \<open>The state of the queue and of its two clients, the sweep at \<open>p\<close> and the radar at \<open>r\<close>.\<close>

definition queue_ok :: "kernel \<Rightarrow> q_pc \<Rightarrow> q_pc \<Rightarrow> bool" where
  "queue_ok s p r \<longleftrightarrow> client 1 p s \<and> client 0 r s \<and> seat s queue_lock 2 = Away \<and> sending p \<and> draining r \<and>
     unwaited sweep_queue s \<and> account sweep_queue 8 s p r"

text \<open>The points at which a task has nothing to do with the queue.\<close>

fun resting :: "q_pc \<Rightarrow> bool" where
  "resting (Q_done _ _) = True"
| "resting (S_take _ timeout) = (timeout = 0)"
| "resting (R_take timeout) = (timeout = 0)"
| "resting _ = False"

lemma resting_simps: "resting p \<Longrightarrow> \<not> in_section p \<and> \<not> at_lock_wait p \<and> slot_held p = 0 \<and> msg_unposted p = 0 \<and>
    msg_held p = 0 \<and> slot_unposted p = 0"
  by (cases p) simp_all

lemma idle_away: "seat s queue_lock 2 = Away \<longleftrightarrow> client 2 (Q_done 0 None) s"
  by (simp add: client_def claims_outside poised_outside)

lemma queue_ok_interrupt:
  assumes ok: "kernel_ok s" and Q: "queue_ok s p r" and en: "enabled 2 s e" and ex: "exec e s = Some s'"
    and e: "\<not> by_thread e" "elsewhere e"
  shows "queue_ok s' p r"
proof -
  have inv: "sys_inv 2 s" using ok by (simp add: kernel_ok_def)
  have keep: "client t x s'" if "t < 3" "client t x s" for t x
    using client_other [OF ok en ex that(1) _ _ that(2)] e elsewhereD(3) by blast
  show ?thesis
    using Q keep [of 1 p] keep [of 0 r] keep [of 2 "Q_done 0 None"] unwaited_elsewhere [OF inv en ex e(2)]
      account_elsewhere [OF _ inv en ex elsewhereD(1) [OF e(2)] refl refl refl refl, of 8 p r]
    by (simp add: queue_ok_def idle_away)
qed

text \<open>What a step of the task \<open>me\<close> leaves to everybody else.\<close>

lemma others_keep:
  assumes ok: "kernel_ok s" and on: "on_cpu s me" and t: "t < 3" "t \<noteq> me" and c: "client t x s"
    and mv: "moved eo s s'" and en: "\<And>e. eo = Some e \<Longrightarrow> enabled 2 s e"
    and mine: "eo = Some (Unlock queue_lock) \<Longrightarrow> holder s queue_lock = current_tcb s"
  shows "client t x s'"
proof (cases eo)
  case None
  with mv have "os_tasks s' = os_tasks s" "mutexes s' = mutexes s" by (auto simp: moved_def)
  with client_same c show ?thesis by blast
next
  case (Some e)
  with mv have ex: "exec e s = Some s'" by (simp add: moved_def)
  have "current_tcb s \<noteq> Some t" using on t(2) by (simp add: on_cpu_def running_def)
  with client_other [OF ok en [OF Some] ex t(1) _ _ c] mine Some show ?thesis by blast
qed

lemma moved_waiters: "moved None s s' \<Longrightarrow> waiters s' = waiters s"
proof -
  assume "moved None s s'"
  then have "get_wait_array s' k = get_wait_array s k" "get_wait_count s' k = get_wait_count s k" for k
    by (cases k; auto simp: moved_def)+
  then show ?thesis by (simp add: waiters_def fun_eq_iff)
qed

lemma objectsD:
  assumes "kernel_ok s"
  obtains x where "mutexes s queue_lock = Some x" "sems s (Queue_Empty sweep_queue) \<noteq> None"
    "sems s (Queue_Filled sweep_queue) \<noteq> None"
  using assms by (auto simp: kernel_ok_def objects_made_def)

lemma queue_ok_send:
  assumes ok: "kernel_ok s" and Q: "queue_ok s p r" and on: "on_cpu s 1" and st: "q_step sweep_queue p s = Some (p', s')"
  shows "queue_ok s' p' r"
proof -
  have inv: "sys_inv 2 s" "running s 1" using ok on by (simp_all add: kernel_ok_def on_cpu_def)
  have q: "client 1 p s" "sending p" "unwaited sweep_queue s" "account sweep_queue 8 s p r"
    using Q by (simp_all add: queue_ok_def)
  obtain x where x: "mutexes s queue_lock = Some x" "sems s (Queue_Empty sweep_queue) \<noteq> None"
    "sems s (Queue_Filled sweep_queue) \<noteq> None" by (rule objectsD [OF ok])
  note mv = q_step_moved [OF st]
  have en: "q_event sweep_queue p = Some e \<Longrightarrow> enabled 2 s e" for e by (rule sender.may_exec(1) [OF ok on])
  have cl: "claims queue_lock 1 (in_section p) s" using q(1) by (simp add: client_def)
  have S: "sending p' \<and> in_section p' = section_after sweep_queue p \<and> poised sweep_queue 1 p' s'"
    by (rule sending_step [OF inv x client_at [OF q(1)] st q(2)])
  have mine: "holder s queue_lock = current_tcb s" if "q_event sweep_queue p = Some (Unlock queue_lock)"
    using claims_hold(2) [OF ok on] cl sender.unlocks [OF that] by simp
  have "client 1 p' s'" using sender.own_claim(1) [OF ok on mv cl] S by (simp add: client_def section_after_eq)
  moreover have "client 0 r s'" "client 2 (Q_done 0 None) s'"
    by (rule others_keep [OF ok on _ _ _ mv en mine]; use Q in \<open>simp add: queue_ok_def idle_away\<close>)+
  moreover have "unwaited sweep_queue s'"
    by (rule q_step_unwaited [OF inv(1) en st _ q(3)]) (use q(2) mv moved_waiters in auto)
  moreover have "account sweep_queue 8 s' p' r"
    using send_account [OF q(4) inv(1) en x(2,3) q(3) st q(2)] S by blast
  ultimately show ?thesis using S Q by (simp add: queue_ok_def idle_away)
qed

lemma queue_ok_receive:
  assumes ok: "kernel_ok s" and Q: "queue_ok s p r" and on: "on_cpu s 0" and st: "q_step sweep_queue r s = Some (r', s')"
  shows "queue_ok s' p r'"
proof -
  have inv: "sys_inv 2 s" "running s 0" using ok on by (simp_all add: kernel_ok_def on_cpu_def)
  have q: "client 0 r s" "draining r" "unwaited sweep_queue s" "account sweep_queue 8 s p r"
    using Q by (simp_all add: queue_ok_def)
  obtain x where x: "mutexes s queue_lock = Some x" "sems s (Queue_Empty sweep_queue) \<noteq> None"
    "sems s (Queue_Filled sweep_queue) \<noteq> None" by (rule objectsD [OF ok])
  note mv = q_step_moved [OF st]
  have en: "q_event sweep_queue r = Some e \<Longrightarrow> enabled 2 s e" for e by (rule receiver.may_exec(1) [OF ok on])
  have cl: "claims queue_lock 0 (in_section r) s" using q(1) by (simp add: client_def)
  have S: "draining r' \<and> in_section r' = section_after sweep_queue r \<and> poised sweep_queue 0 r' s'"
    by (rule draining_step [OF inv x client_at [OF q(1)] st q(2)])
  have mine: "holder s queue_lock = current_tcb s" if "q_event sweep_queue r = Some (Unlock queue_lock)"
    using claims_hold(2) [OF ok on] cl sender.unlocks [OF that] by simp
  have "client 0 r' s'" using receiver.own_claim(1) [OF ok on mv cl] S by (simp add: client_def section_after_eq)
  moreover have "client 1 p s'" "client 2 (Q_done 0 None) s'"
    by (rule others_keep [OF ok on _ _ _ mv en mine]; use Q in \<open>simp add: queue_ok_def idle_away\<close>)+
  moreover have "unwaited sweep_queue s'"
    by (rule q_step_unwaited [OF inv(1) en st _ q(3)]) (use q(2) mv moved_waiters in auto)
  moreover have "account sweep_queue 8 s' p r'"
    using receive_account [OF q(4) inv(1) en x(2,3) q(3) st q(2)] S by blast
  ultimately show ?thesis using S Q by (simp add: queue_ok_def idle_away)
qed

text \<open>A step of a task that has nothing to do with the queue.\<close>

lemma queue_ok_rest:
  assumes Q: "queue_ok s p r" and p: "resting p \<and> resting p' \<or> p' = p" "resting r \<and> resting r' \<or> r' = r"
    and side: "sending p'" "draining r'"
  shows "queue_ok s p' r'"
proof -
  have "client 1 p' s" "client 0 r' s" using Q p by (auto simp: queue_ok_def client_def poised_def dest!: resting_simps)
  moreover have "account sweep_queue 8 s p r" using Q by (simp add: queue_ok_def)
  from account_still [OF this] have "account sweep_queue 8 s p' r'" using p by (auto dest!: resting_simps)
  ultimately show ?thesis using Q side by (simp add: queue_ok_def)
qed

lemma queue_ok_event:
  assumes ok: "kernel_ok s" and Q: "queue_ok s p r" and on: "on_cpu s t" "t < 2" and en: "enabled 2 s e"
    and ex: "exec e s = Some s'" and e: "elsewhere e" "by_thread e" and rest: "resting (if t = 1 then p else r)"
  shows "queue_ok s' p r"
proof -
  have inv: "sys_inv 2 s" using ok by (simp add: kernel_ok_def)
  have own: "client t x s'" if "resting x" "client t x s" for x
    using client_own_elsewhere [OF ok en ex on(1) e that(2)] resting_simps [OF that(1)] by simp
  have other: "client u x s'" if "u < 3" "u \<noteq> t" "client u x s" for u x
    using others_keep [OF ok on(1) that, of "Some e"] ex en elsewhereD(3) [OF e(1)] by (simp add: moved_def)
  have "t = 0 \<or> t = 1" using on(2) by auto
  then have "client 1 p s' \<and> client 0 r s' \<and> client 2 (Q_done 0 None) s'"
    using Q rest own other on(2) by (auto simp: queue_ok_def idle_away)
  moreover have "account sweep_queue 8 s' p r"
    using account_elsewhere [OF _ inv en ex elsewhereD(1) [OF e(1)] refl refl refl refl, of 8 p r] Q
    by (simp add: queue_ok_def)
  ultimately show ?thesis
    using Q unwaited_elsewhere [OF inv en ex e(1)] by (simp add: queue_ok_def idle_away)
qed

lemma queue_ok_aside:
  assumes ok: "kernel_ok s" and Q: "queue_ok s p r" and on: "on_cpu s t" "t < 2"
    and st: "s' = s \<or> (\<exists>e. eo = Some e \<and> elsewhere e \<and> exec e s = Some s')"
    and ev: "\<And>e. eo = Some e \<Longrightarrow> shared_event e \<and> by_thread e" and rest: "resting (if t = 1 then p else r)"
  shows "queue_ok s' p r"
  using st
proof
  assume "\<exists>e. eo = Some e \<and> elsewhere e \<and> exec e s = Some s'"
  then obtain e where e: "eo = Some e" "elsewhere e" "exec e s = Some s'" by blast
  from ev [OF e(1)] shared_enabled [OF ok on] have "enabled 2 s e" "by_thread e" by blast+
  from queue_ok_event [OF ok Q on this(1) e(3,2) this(2) rest] show ?thesis .
qed (use Q in simp)

subsection \<open>The queue in the firmware\<close>

text \<open>The queue call a task is in.\<close>

fun sweep_call :: "sweep_pc \<Rightarrow> q_pc" where
  "sweep_call (W_send _ _ p) = p"
| "sweep_call _ = Q_done OS_SUCCESS None"

fun radar_call :: "radar_pc \<Rightarrow> q_pc" where
  "radar_call (P_recv _ _ r) = r"
| "radar_call _ = Q_done OS_SUCCESS None"

lemma own_objects: "elsewhere (Lock uart_lock n)" "elsewhere (Unlock uart_lock)" "elsewhere (Take echo_ready n)"
  "elsewhere (Isr_give echo_ready)"
  by (simp_all add: uart_lock_def echo_ready_def)

lemma sweep_step_call:
  assumes "sweep_step hw pt b = Some (pt', b')" "sweep_prints pt = []"
  shows "q_step sweep_queue (sweep_call pt) (krn b) = Some (sweep_call pt', krn b') \<or>
    resting (sweep_call pt) \<and> resting (sweep_call pt') \<and> sending (sweep_call pt') \<and>
      (krn b' = krn b \<or> (\<exists>e. sweep_event pt = Some e \<and> elsewhere e \<and> exec e (krn b) = Some (krn b')))"
proof (cases pt)
  case W_banner
  with assms(2) show ?thesis by (simp add: codes_def banner_def)
next
  case (W_send a d q)
  show ?thesis
  proof (cases "q_finished q")
    case True
    with W_send assms(1) show ?thesis by (cases q) (auto split: prod.splits)
  next
    case False
    with W_send assms(1) show ?thesis by (auto simp: Option.bind_eq_Some_conv simp del: q_step.simps)
  qed
qed (use assms own_objects in \<open>auto simp: Option.bind_eq_Some_conv on_kernel_Some lock_uart_Some split: if_splits\<close>)

lemma radar_step_call:
  assumes "radar_step c hw pt b = Some (pt', b')" "radar_prints pt = []"
  shows "q_step sweep_queue (radar_call pt) (krn b) = Some (radar_call pt', krn b') \<or>
    resting (radar_call pt) \<and> resting (radar_call pt') \<and> draining (radar_call pt') \<and>
      (krn b' = krn b \<or> (\<exists>e. radar_event pt = Some e \<and> elsewhere e \<and> exec e (krn b) = Some (krn b')))"
proof (cases pt)
  case (P_recv angle distance q)
  show ?thesis
  proof (cases "q_finished q")
    case True
    with P_recv assms(1) show ?thesis by (cases q) (auto split: if_splits option.splits)
  next
    case False
    from radar_recv_step [OF assms(1) [unfolded P_recv] this] P_recv show ?thesis by fastforce
  qed
next
  case (P_ping angle)
  with assms(1) show ?thesis by (auto simp: ultrasonic_trigger_eq)
next
  case (P_take angle)
  with radar_take_step [OF assms(1) [unfolded P_take]] own_objects show ?thesis by auto
qed (use assms own_objects in \<open>auto simp: Option.bind_eq_Some_conv on_kernel_Some lock_uart_Some split: if_splits\<close>)

definition fw_queue :: "firmware \<Rightarrow> bool" where
  "fw_queue w \<longleftrightarrow> queue_ok (krn (brd w)) (sweep_call (fst (swp w))) (radar_call (fst (rdr w)))"

text \<open>A turn either is the task's own step or leaves the kernel alone.\<close>

lemma turn_cases:
  assumes "turn hw prints rest go (pt, out) b = Some ((pt', out'), b')"
  obtains (quiet) "krn b' = krn b" "pt' = pt \<or> prints pt \<noteq> [] \<and> pt' = rest pt"
  | (own) "go pt b = Some (pt', b')" "prints pt = []"
  using assms by (auto simp: turn_def Option.bind_eq_Some_conv split: list.splits if_splits)

lemma rest_calls:
  "sweep_prints pt \<noteq> [] \<Longrightarrow> sweep_call pt = Q_done OS_SUCCESS None \<and> sweep_call (sweep_rest pt) = Q_done OS_SUCCESS None"
  "radar_prints qt \<noteq> [] \<Longrightarrow> radar_call qt = Q_done OS_SUCCESS None \<and> radar_call (radar_rest qt) = Q_done OS_SUCCESS None"
  by (cases pt; simp) (cases qt; simp)

lemma sweep_turn_queue:
  assumes ok: "kernel_ok (krn b)" and Q: "queue_ok (krn b) (sweep_call pt) r" and on: "on_cpu (krn b) 1"
    and st: "sweep_turn_at hw (pt, out) b = Some ((pt', out'), b')"
  shows "queue_ok (krn b') (sweep_call pt') r"
  using st
proof (cases rule: turn_cases)
  case quiet
  with Q rest_calls(1) [of pt] show ?thesis by auto
next
  case own
  from sweep_step_call [OF own] show ?thesis
  proof
    assume "q_step sweep_queue (sweep_call pt) (krn b) = Some (sweep_call pt', krn b')"
    then show ?thesis by (rule queue_ok_send [OF ok Q on])
  next
    assume A: "resting (sweep_call pt) \<and> resting (sweep_call pt') \<and> sending (sweep_call pt') \<and>
      (krn b' = krn b \<or> (\<exists>e. sweep_event pt = Some e \<and> elsewhere e \<and> exec e (krn b) = Some (krn b')))"
    have "queue_ok (krn b') (sweep_call pt) r"
    proof (rule queue_ok_aside [OF ok Q on, where eo = "sweep_event pt"])
      show "shared_event e \<and> by_thread e" if "sweep_event pt = Some e" for e using events_shared(1) [OF that] .
    qed (use A in simp_all)
    then show ?thesis by (rule queue_ok_rest) (use A Q in \<open>simp_all add: queue_ok_def\<close>)
  qed
qed

lemma radar_turn_queue:
  assumes ok: "kernel_ok (krn b)" and Q: "queue_ok (krn b) p (radar_call pt)" and on: "on_cpu (krn b) 0"
    and st: "radar_turn_at c hw (pt, out) b = Some ((pt', out'), b')"
  shows "queue_ok (krn b') p (radar_call pt')"
  using st
proof (cases rule: turn_cases)
  case quiet
  with Q rest_calls(2) [of pt] show ?thesis by auto
next
  case own
  from radar_step_call [OF own] show ?thesis
  proof
    assume "q_step sweep_queue (radar_call pt) (krn b) = Some (radar_call pt', krn b')"
    then show ?thesis by (rule queue_ok_receive [OF ok Q on])
  next
    assume A: "resting (radar_call pt) \<and> resting (radar_call pt') \<and> draining (radar_call pt') \<and>
      (krn b' = krn b \<or> (\<exists>e. radar_event pt = Some e \<and> elsewhere e \<and> exec e (krn b) = Some (krn b')))"
    have "queue_ok (krn b') p (radar_call pt)"
    proof (rule queue_ok_aside [OF ok Q on, where eo = "radar_event pt"])
      show "shared_event e \<and> by_thread e" if "radar_event pt = Some e" for e using events_shared(2) [OF that] .
    qed (use A in simp_all)
    then show ?thesis by (rule queue_ok_rest) (use A Q in \<open>simp_all add: queue_ok_def\<close>)
  qed
qed

text \<open>What an event of the firmware is to the kernel and the tasks.\<close>

lemma fw_exec_cases:
  assumes ok: "fw_ok hw base w" and en: "fw_enabled e w" and ex: "fw_exec c hw e w = Some w'"
  obtains (interrupt) k where "exec k (krn (brd w)) = Some (krn (brd w'))" "enabled 2 (krn (brd w)) k"
      "\<not> by_thread k" "shared_event k" "elsewhere k" "swp w' = swp w" "rdr w' = rdr w"
  | (nothing) "krn (brd w') = krn (brd w)" "swp w' = swp w" "rdr w' = rdr w"
  | (radar) pt out pt' out' where "on_cpu (krn (brd w)) 0" "rdr w = (pt, out)" "rdr w' = (pt', out')" "swp w' = swp w"
      "radar_turn_at c hw (pt, out) (brd w) = Some ((pt', out'), brd w')"
  | (sweep) pt out pt' out' where "on_cpu (krn (brd w)) 1" "swp w = (pt, out)" "swp w' = (pt', out')" "rdr w' = rdr w"
      "sweep_turn_at hw (pt, out) (brd w) = Some ((pt', out'), brd w')"
proof (cases e)
  case (Run t)
  have on: "on_cpu (krn (brd w)) t" using en Run by simp
  obtain pt out qt out' where p: "swp w = (pt, out)" "rdr w = (qt, out')" by (metis surj_pair)
  consider "t = 0" | "t = 1" | "t \<noteq> 0" "t \<noteq> 1" by blast
  then show ?thesis
  proof cases
    case 1
    with Run ex p on show ?thesis by (auto simp: Option.bind_eq_Some_conv intro: radar)
  next
    case 2
    with Run ex p on show ?thesis by (auto simp: Option.bind_eq_Some_conv intro: sweep)
  next
    case 3
    show ?thesis by (rule nothing) (use 3 Run ex in \<open>auto simp: os_idle_task_def\<close>)
  qed
next
  case Timer
  with en ex show ?thesis
    by (intro interrupt [of Tick]) (auto simp: enabled_def Option.bind_eq_Some_conv on_kernel_Some)
next
  case (Pend core)
  with en ex show ?thesis
    by (intro interrupt [of "Switch core"]) (auto simp: enabled_def Option.bind_eq_Some_conv on_kernel_Some)
next
  case Capture
  have "objects_made (krn (brd w))" using fw_okD(1) [OF ok] by (simp add: kernel_ok_def)
  then have en': "enabled 2 (krn (brd w)) (Isr_give echo_ready)"
    using en Capture by (auto simp: enabled_def objects_made_def)
  show ?thesis
  proof (cases rule: capture_event [of c hw "ech (brd w)" "krn (brd w)" "hst (brd w)"])
    case (kept e' h')
    show ?thesis by (rule nothing) (use kept Capture ex in auto)
  next
    case (given e' h')
    with Capture ex en' own_objects(4) show ?thesis
      by (intro interrupt [of "Isr_give echo_ready"]; cases "exec (Isr_give echo_ready) (krn (brd w))") auto
  qed
qed

text \<open>Every event of the firmware keeps the queue's account.\<close>

lemma fw_exec_queue:
  assumes ok: "fw_ok hw base w" and Q: "fw_queue w" and en: "fw_enabled e w" and ex: "fw_exec c hw e w = Some w'"
  shows "fw_queue w'"
proof -
  note K = fw_okD(1) [OF ok] and Q' = Q [unfolded fw_queue_def]
  from ok en ex show ?thesis
  proof (cases rule: fw_exec_cases)
    case (interrupt k)
    with queue_ok_interrupt [OF K Q' interrupt(2,1,3,5)] show ?thesis by (simp add: fw_queue_def)
  next
    case nothing
    with Q show ?thesis by (simp add: fw_queue_def)
  next
    case (radar pt out pt' out')
    with radar_turn_queue [OF K _ radar(1,5)] Q' show ?thesis by (simp add: fw_queue_def)
  next
    case (sweep pt out pt' out')
    with sweep_turn_queue [OF K _ sweep(1,5)] Q' show ?thesis by (simp add: fw_queue_def)
  qed
qed

lemma fw_reachable_queue:
  assumes "fw_reachable c hw w0 w" "fw_ok hw base w0" "fw_queue w0"
  shows "fw_queue w"
  using assms
proof (induction rule: fw_reachable.induct)
  case (later w e w')
  from later.hyps(2) have step: "fw_enabled e w" "fw_exec c hw e w = Some w'" by (simp_all add: fw_step_iff)
  show ?case
    by (rule fw_exec_queue [OF fw_reachable_ok [OF later.hyps(1) later.prems(1)] later.IH [OF later.prems] step])
qed

end
