(* ===== verification/Firmware_Priorities.thy ===== *)
theory Firmware_Priorities
  imports Shared_Queue
begin

text \<open>
  Priorities in the running firmware. The radar (task 0, priority 2) and the sweep (task 1,
  priority 1) share two mutexes. A task that waits for one of them is outranked by no less
  than its own priority: the holder is runnable and has at least the priority of the waiter,
  because it never blocks with a mutex in hand and never holds both.
\<close>

subsection \<open>The shared mutexes\<close>

abbreviation locks :: "maddr set" where
  "locks \<equiv> {uart_lock, queue_lock}"

definition prio_ok :: "kernel \<Rightarrow> bool" where
  "prio_ok s \<longleftrightarrow> ranks (os_tasks s ! 0) = (2, 2) \<and> base_priority (os_tasks s ! 1) = 1 \<and> prio s 1 \<in> {1, 2} \<and>
     (prio s 1 = 2 \<longrightarrow> (\<exists>m\<in>locks. holder s m = Some 1)) \<and>
     (\<forall>m\<in>locks. (seat s m 0 = Waiting \<longrightarrow> prio s 1 = 2) \<and> (\<forall>t<2. seat s m t = Holding \<longrightarrow> runnable_at s t))"

lemma prio_ok_same:
  assumes "os_tasks s' = os_tasks s" "mutexes s' = mutexes s" "task_count s' = task_count s"
  shows "prio_ok s' = prio_ok s"
  using assms by (simp add: prio_ok_def seat_def holder_def prio_def)

text \<open>What the tasks promise about the locks when \<open>e\<close> happens: who steps is \<open>c\<close>.\<close>

definition disciplined :: "kernel \<Rightarrow> event \<Rightarrow> bool" where
  "disciplined s e \<longleftrightarrow> (\<forall>m\<in>locks. (\<forall>t<2. patient s m t) \<and> seat s m 2 = Away \<and>
     (e = Unlock m \<longrightarrow> holder s m = current_tcb s) \<and> e \<noteq> Lock m 0 \<and>
     (\<forall>c. by_thread e \<longrightarrow> running s c \<longrightarrow> c < 2 \<and> (seat s m c = Holding \<longrightarrow> \<not> may_block e) \<and>
        (\<forall>k\<in>locks. e = Unlock k \<longrightarrow> k \<noteq> m \<longrightarrow> seat s m c \<noteq> Holding)))"

lemma waiting_held:
  assumes K: "kinv s" and m: "mutexes s m \<noteq> None" and w: "seat s m t = Waiting" "t < tc s"
  obtains h where "holder s m = Some h" "h < tc s" "h \<noteq> t"
proof -
  obtain x where x: "mutexes s m = Some x" using m by auto
  have "Some t \<in> set (waiters s (MutexQ m))" using w waits_okD(8) [OF kinvD(1) [OF K] w(2)] by (simp add: seat_simps)
  with mutex_ok_owner [OF K x] obtain h where "owner x = Some h" "h < tc s" "lock x \<noteq> 0" by force
  with that x w(1) show ?thesis by (auto simp: seat_simps holder_def)
qed

text \<open>A task goes to wait only by its own acquire.\<close>

lemma seat_becomes:
  assumes ok: "kernel_ok s" and en: "enabled 2 s e" and ex: "exec e s = Some s'" and m: "m \<in> locks" and t: "t < 2"
    and D: "disciplined s e" and w: "seat s' m t = Waiting"
  shows "seat s m t = Waiting \<or> current_tcb s = Some t \<and> (\<exists>n. e = Lock m n)"
proof (cases "by_thread e \<and> current_tcb s = Some t")
  case False
  have "undisturbed m t s s'"
    by (rule undisturbed_exec [OF ok en ex]) (use False D m t in \<open>auto simp: disciplined_def\<close>)
  with w show ?thesis by (auto simp: undisturbed_def)
next
  case True
  have inv: "sys_inv 2 s" using ok by (simp add: kernel_ok_def)
  have run: "running s t" using en True by (simp add: enabled_def)
  show ?thesis
  proof (cases "(\<exists>n. e = Lock m n) \<or> e = Unlock m")
    case True
    with seat_unlock [OF inv _ _ run] en ex w \<open>by_thread e \<and> current_tcb s = Some t\<close> show ?thesis by auto
  next
    case False
    with seat_self [OF inv en ex run] \<open>by_thread e \<and> current_tcb s = Some t\<close> w show ?thesis by auto
  qed
qed

lemma disciplinedD:
  assumes "disciplined s e" "m \<in> locks"
  shows "seat s m 2 = Away" "e = Unlock m \<Longrightarrow> holder s m = current_tcb s" "e \<noteq> Lock m 0"
    and "by_thread e \<Longrightarrow> running s c \<Longrightarrow> c < 2"
    and "by_thread e \<Longrightarrow> running s c \<Longrightarrow> seat s m c = Holding \<Longrightarrow> \<not> may_block e"
    and "by_thread e \<Longrightarrow> running s c \<Longrightarrow> e = Unlock k \<Longrightarrow> k \<in> locks \<Longrightarrow> k \<noteq> m \<Longrightarrow> seat s m c \<noteq> Holding"
  using assms unfolding disciplined_def by blast+

lemma below_three: "t < 3 \<Longrightarrow> t = 0 \<or> t = 1 \<or> t = 2" for t :: nat
  by auto

text \<open>While the radar waits, the sweep is the holder.\<close>

lemma sweep_holds:
  assumes ok: "kernel_ok s" and m: "m \<in> locks" "seat s m 2 = Away" and w: "seat s m 0 = Waiting"
  shows "holder s m = Some 1"
proof -
  have K: "kinv s" "task_count s = 3" "mutexes s m \<noteq> None"
    using ok m(1) by (auto simp: kernel_ok_def sys_inv_def objects_made_def)
  obtain h where h: "holder s m = Some h" "h < tc s" "h \<noteq> 0" by (rule waiting_held [OF K(1,3) w]) (use K(2) in auto)
  have "h < 3" using h(2) K(2) by simp
  from below_three [OF this] h m(2) show ?thesis by (auto simp: seat_simps)
qed

text \<open>Handing over a mutex the radar waits for makes the radar its holder.\<close>

lemma radar_next:
  assumes ok: "kernel_ok s" and m: "seat s m 2 = Away" and run: "running s 1" and w: "seat s m 0 = Waiting"
  shows "next_owner m s = Some 0"
proof -
  have K: "kinv s" "task_count s = 3" using ok by (auto simp: kernel_ok_def sys_inv_def)
  have "0 < tc s" using K(2) by simp
  then have "Some 0 \<in> set (waiters s (MutexQ m))"
    using w waits_okD(8) [OF kinvD(1) [OF K(1)], of 0 "MutexQ m"] by (simp add: seat_simps)
  then have "waiters s (MutexQ m) \<noteq> []" by auto
  then obtain n where n: "next_owner m s = Some n"
    by (cases "next_owner m s") (simp_all add: next_owner_def)
  have "n < 3" using picked_waits(1) [OF kinvD(1) [OF K(1)] n [unfolded next_owner_def]] K(2) by simp
  moreover have "wait_queue (os_tasks s ! n) = Some (MutexQ m)" by (rule next_waits(1) [OF K(1) n])
  moreover have "wait_queue (os_tasks s ! 1) = None" by (rule running_free [OF kinvD(1) [OF K(1)] run])
  ultimately show ?thesis using below_three [of n] m n by (auto simp: seat_simps)
qed

text \<open>Where the priority of a task comes from after an event.\<close>

lemma ranks_after_cases:
  obtains (same) "ranks_after s e t = ranks (os_tasks s ! t)"
  | (dropped) k where "e = Unlock k" "holder s k = Some t"
      "ranks_after s e t = (base_priority (os_tasks s ! t), base_priority (os_tasks s ! t))"
  | (lent) k n c where "e = Lock k n" "by_thread e" "holder s k = Some t" "current_tcb s = Some c" "c \<noteq> t"
      "ranks_after s e t = (base_priority (os_tasks s ! t), max (prio s t) (prio s c))"
proof (cases e)
  case (Unlock k)
  with same dropped show ?thesis by (cases "holder s k = Some t") auto
next
  case (Lock k n)
  show ?thesis
  proof (cases "n \<noteq> 0 \<and> holder s k = Some t \<and> (\<exists>c. current_tcb s = Some c \<and> c \<noteq> t)")
    case True
    with Lock lent show ?thesis by auto
  next
    case False
    with Lock same show ?thesis by (cases "current_tcb s") auto
  qed
qed (use same in simp_all)

lemma prio_ok_event:
  assumes ok: "kernel_ok s" and en: "enabled 2 s e" and ex: "exec e s = Some s'" and sh: "shared_event e"
    and D: "disciplined s e" and P: "prio_ok s"
  shows "prio_ok s'"
proof -
  have inv: "sys_inv 2 s" "tc s = 3" using ok by (simp_all add: kernel_ok_def)
  have P': "ranks (os_tasks s ! 0) = (2, 2)" "base_priority (os_tasks s ! 1) = 1" "prio s 0 = 2" "prio s 1 \<in> {1, 2}"
    "\<And>m. m \<in> locks \<Longrightarrow> seat s m 0 = Waiting \<Longrightarrow> prio s 1 = 2"
    using P by (auto simp: prio_ok_def ranks_def prio_def)
  have ranks: "ranks (os_tasks s' ! t) = ranks_after s e t" if "t < 2" for t
    using exec_ranks [OF inv(1) en ex, of t] that inv(2) by simp
  have cur: "running s c \<and> c < 2" if "by_thread e" "current_tcb s = Some c" for c
    using en that disciplinedD(4) [OF D, of uart_lock c] by (auto simp: enabled_def)
  have two: "c < 2 \<Longrightarrow> c = 0 \<or> c = 1" for c :: nat by auto
  have base: "base_priority (os_tasks s ! 0) = 2" "ranks (os_tasks s ! 1) = (1, prio s 1)"
    using P'(1,2) by (simp_all add: ranks_def prio_def)
  have zero: "ranks_after s e 0 = (2, 2)"
  proof (cases rule: ranks_after_cases [of s e 0])
    case (lent k n c)
    then have "c = 1" using cur [of c] two [of c] by auto
    with lent(6) base(1) P'(3,4) show ?thesis by (auto simp: max_def word_le_nat_alt)
  qed (use P'(1) base(1) in simp_all)
  have one: "fst (ranks_after s e 1) = 1 \<and> snd (ranks_after s e 1) \<in> {1, 2}"
  proof (cases rule: ranks_after_cases [of s e 1])
    case (lent k n c)
    then have "c = 0" using cur [of c] two [of c] by auto
    with lent(6) P'(2,3,4) show ?thesis by (auto simp: max_def)
  qed (use P'(2,4) base(2) in auto)
  have boost: "snd (ranks_after s e 1) = 2" if m: "m \<in> locks" and w: "seat s' m 0 = Waiting" for m
  proof -
    note A = disciplinedD(1) [OF D m]
    have H: "holder s' = holder_after s e" using exec_views [OF inv(1) en ex] by (simp add: views_def)
    consider (was) "seat s m 0 = Waiting" | (lock) n where "current_tcb s = Some 0" "e = Lock m n"
      using seat_becomes [OF ok en ex m _ D w] by auto
    then show ?thesis
    proof cases
      case was
      note p = P'(5) [OF m was] and h = sweep_holds [OF ok m A was]
      show ?thesis
      proof (cases "\<exists>k. e = Unlock k \<and> holder s k = Some 1")
        case True
        then obtain k where k: "e = Unlock k" "holder s k = Some 1" by blast
        have kl: "k \<in> locks" using sh k(1) by simp
        with disciplinedD(2) [OF D kl] k have "current_tcb s = Some 1" by simp
        with cur k(1) have run: "running s 1" "by_thread e" by simp_all
        show ?thesis
        proof (cases "k = m")
          case True
          with radar_next [OF ok A run(1) was] H k(1) w show ?thesis by (simp add: seat_simps)
        next
          case False
          with disciplinedD(6) [OF D m run(2,1) k(1) kl] h show ?thesis by (simp add: seat_simps)
        qed
      next
        case False
        then show ?thesis
        proof (cases rule: ranks_after_cases [of s e 1])
          case (lent k n c)
          then have "c = 0" using cur [of c] two [of c] by auto
          with lent(6) p P'(3) show ?thesis by simp
        qed (use False p base(2) in auto)
      qed
    next
      case (lock n)
      have "n \<noteq> 0" using disciplinedD(3) [OF D m] lock(2) by auto
      moreover have "holder s m = Some 1"
      proof (cases "holder s m")
        case None
        with H lock w show ?thesis by (simp add: seat_simps)
      next
        case (Some h)
        with H lock w have "h \<noteq> 0" by (auto simp: seat_simps)
        moreover have "h < 3" using holder_waits_not(1) [OF _ Some] inv by (simp add: sys_inv_def)
        ultimately show ?thesis using Some A below_three [of h] by (auto simp: seat_simps)
      qed
      ultimately show ?thesis using lock P' by (auto simp: prio_def max_def ranks_def)
    qed
  qed
  have lent: "\<exists>m\<in>locks. holder s' m = Some 1" if up: "snd (ranks_after s e 1) = 2"
  proof -
    have H: "holder s' = holder_after s e" using exec_views [OF inv(1) en ex] by (simp add: views_def)
    show ?thesis
    proof (cases rule: ranks_after_cases [of s e 1])
      case same
      with up base(2) have "prio s 1 = 2" by simp
      with P obtain m where m: "m \<in> locks" "holder s m = Some 1" by (auto simp: prio_ok_def)
      have "e \<noteq> Unlock m" using same m(2) up P'(2) base(2) by auto
      with m(2) have "holder s' m = Some 1" by (cases e) (auto simp: H)
      with m(1) show ?thesis by blast
    next
      case (dropped k)
      with up P'(2) show ?thesis by simp
    next
      case (lent k n c)
      with sh have "k \<in> locks" by simp
      moreover have "holder s' k = Some 1" using lent by (simp add: H)
      ultimately show ?thesis by blast
    qed
  qed
  have run: "runnable_at s' t" if m: "m \<in> locks" and t: "t < 2" and h: "seat s' m t = Holding" for m t
  proof (rule holder_runnable [OF inv(1) en ex _ _ _ h])
    show "t < tc s" using t inv(2) by simp
    show "seat s m t = Holding \<Longrightarrow> runnable_at s t" using P m t by (auto simp: prio_ok_def)
    show "\<not> may_block e" if "current_tcb s = Some t" "by_thread e" "seat s m t = Holding"
      using disciplinedD(5) [OF D m that(2) _ that(3)] cur [OF that(2,1)] by simp
  qed
  have "tc s' = tc s" using exec_objects [OF ex] by (simp add: same_objects_def)
  moreover have "base_priority (os_tasks s' ! 1) = fst (ranks_after s e 1)" "prio s' 1 = snd (ranks_after s e 1)"
    using arg_cong [OF ranks [of 1], of fst] arg_cong [OF ranks [of 1], of snd] by (simp_all add: ranks_def prio_def)
  ultimately show ?thesis using ranks [of 0] zero one boost lent run by (simp add: prio_ok_def)
qed

subsection \<open>The discipline of the two tasks\<close>

text \<open>The claims of both tasks to both mutexes.\<close>

definition all_claims :: "kernel \<Rightarrow> (maddr \<Rightarrow> tid \<Rightarrow> bool) \<Rightarrow> bool" where
  "all_claims s inside \<longleftrightarrow> (\<forall>m\<in>locks. seat s m 2 = Away \<and> (\<forall>t<2. claims m t (inside m t) s))"

lemma disciplined_interrupt:
  assumes "all_claims s inside" "\<not> by_thread e"
  shows "disciplined s e"
proof -
  have "e \<noteq> Unlock m" "e \<noteq> Lock m n" for m n using assms(2) by auto
  with assms show ?thesis by (auto simp: disciplined_def all_claims_def claims_def)
qed

lemma disciplined_own:
  assumes ok: "kernel_ok s" and C: "all_claims s inside" and on: "on_cpu s t" "t < 2"
    and e: "\<And>m. m \<in> locks \<Longrightarrow> inside m t \<Longrightarrow> \<not> may_block e" "\<And>m. m \<in> locks \<Longrightarrow> e = Unlock m \<Longrightarrow> inside m t"
      "\<And>m. e \<noteq> Lock m 0" and one: "\<not> (inside uart_lock t \<and> inside queue_lock t)"
  shows "disciplined s e"
  unfolding disciplined_def
proof (intro ballI conjI allI impI)
  fix m assume m: "m \<in> locks"
  have cl: "claims m u (inside m u) s" if "u < 2" for u using C m that by (auto simp: all_claims_def)
  then show "patient s m u" if "u < 2" for u using that by (simp add: claims_def)
  show "seat s m 2 = Away" using C m by (auto simp: all_claims_def)
  show "holder s m = current_tcb s" if "e = Unlock m"
    using claims_hold(2) [OF ok on(1)] cl [OF on(2)] e(2) [OF m that] by simp
  show "e \<noteq> Lock m 0" by (rule e(3))
  fix c assume "running s c"
  then have c: "c = t" using on(1) by (simp add: on_cpu_def running_def)
  then show "c < 2" using on(2) by simp
  show "\<not> may_block e" if "seat s m c = Holding"
    using e(1) [OF m] cl [OF on(2)] that c by (simp add: claims_def)
  fix k assume k: "k \<in> locks" "e = Unlock k" "k \<noteq> m"
  with e(2) [OF k(1,2)] one m have "\<not> inside m t" by auto
  with cl [OF on(2)] c show "seat s m c \<noteq> Holding" by (simp add: claims_def)
qed

text \<open>The points of the code: no blocking call in a section, and never two sections at once.\<close>

lemma q_event_points:
  "q_event q p = Some e \<Longrightarrow> in_section p \<Longrightarrow> \<not> may_block e" "q_event q p = Some (Unlock (Queue_Lock q)) \<Longrightarrow> in_section p"
  "q_event q p \<noteq> Some (Lock m 0)"
  by (cases p; auto simp: WAIT_FOREVER_def split: if_splits)+

lemma no_poll: "WAIT_FOREVER \<noteq> 0"
  by (simp add: WAIT_FOREVER_def)

lemma sweep_points:
  "sweep_event pt = Some e \<Longrightarrow> sweep_wants pt \<or> in_section (sweep_call pt) \<Longrightarrow> \<not> may_block e"
  "sweep_event pt = Some (Unlock queue_lock) \<Longrightarrow> in_section (sweep_call pt)" "sweep_event pt \<noteq> Some (Lock m 0)"
  "\<not> (sweep_wants pt \<and> in_section (sweep_call pt))"
  using no_poll
  by (cases pt; auto simp: uart_lock_def q_event_points(3) dest: q_event_points(1,2) split: if_splits)+

lemma radar_points:
  "radar_event pt = Some e \<Longrightarrow> radar_wants pt \<or> in_section (radar_call pt) \<Longrightarrow> \<not> may_block e"
  "radar_event pt = Some (Unlock queue_lock) \<Longrightarrow> in_section (radar_call pt)" "radar_event pt \<noteq> Some (Lock m 0)"
  "\<not> (radar_wants pt \<and> in_section (radar_call pt))"
  using no_poll
  by (cases pt; auto simp: uart_lock_def q_event_points(3) dest: q_event_points(1,2))+

definition inside_of :: "firmware \<Rightarrow> maddr \<Rightarrow> tid \<Rightarrow> bool" where
  "inside_of w m t = (if m = uart_lock
     then (if t = 0 then radar_wants (fst (rdr w)) else sweep_wants (fst (swp w)))
     else in_section (if t = 0 then radar_call (fst (rdr w)) else sweep_call (fst (swp w))))"

lemma firmware_claims:
  assumes "fw_ok hw base w" "fw_queue w"
  shows "all_claims (krn (brd w)) (inside_of w)"
proof -
  have two: "t < 2 \<longleftrightarrow> t = 0 \<or> t = 1" for t :: nat by auto
  have "queue_lock \<noteq> uart_lock" by (simp add: uart_lock_def)
  with assms fw_okD(4-6) [OF assms(1)] show ?thesis
    by (auto simp: all_claims_def inside_of_def two placed_def fw_queue_def queue_ok_def client_def split: prod.splits)
qed

subsection \<open>Every event\<close>

lemma moved_prio_ok:
  assumes ok: "kernel_ok s" and P: "prio_ok s" and mv: "moved eo s s'"
    and e: "\<And>e. eo = Some e \<Longrightarrow> enabled 2 s e \<and> shared_event e \<and> disciplined s e"
  shows "prio_ok s'"
proof (cases eo)
  case None
  with mv P prio_ok_same [of s' s] show ?thesis by (auto simp: moved_def)
next
  case (Some k)
  with mv e prio_ok_event [OF ok _ _ _ _ P] show ?thesis by (auto simp: moved_def)
qed

lemma fw_exec_prio:
  assumes ok: "fw_ok hw base w" and Q: "fw_queue w" and P: "prio_ok (krn (brd w))" and en: "fw_enabled e w"
    and ex: "fw_exec c hw e w = Some w'"
  shows "prio_ok (krn (brd w'))"
proof -
  note K = fw_okD(1) [OF ok] and C = firmware_claims [OF ok Q]
  from ok en ex show ?thesis
  proof (cases rule: fw_exec_cases)
    case (interrupt k)
    show ?thesis by (rule prio_ok_event [OF K interrupt(2,1,4) disciplined_interrupt [OF C interrupt(3)] P])
  next
    case nothing
    with P show ?thesis by simp
  next
    case (radar pt out pt' out')
    have ev: "enabled 2 (krn (brd w)) k \<and> shared_event k \<and> disciplined (krn (brd w)) k" if "radar_event pt = Some k" for k
    proof -
      have "disciplined (krn (brd w)) k"
        by (rule disciplined_own [OF K C radar(1)])
          (use that radar radar_points [of pt] events_at_lock(4) [of pt] in \<open>auto simp: inside_of_def uart_lock_def\<close>)
      with radar_uart.may_exec(1) [OF K radar(1) that] events_shared(2) [OF that] show ?thesis by simp
    qed
    from radar(5) show ?thesis
    proof (cases rule: turn_cases)
      case own
      with radar_step_moved have "moved (radar_event pt) (krn (brd w)) (krn (brd w'))" by blast
      from moved_prio_ok [OF K P this ev] show ?thesis .
    qed (use P in simp)
  next
    case (sweep pt out pt' out')
    have ev: "enabled 2 (krn (brd w)) k \<and> shared_event k \<and> disciplined (krn (brd w)) k" if "sweep_event pt = Some k" for k
    proof -
      have "disciplined (krn (brd w)) k"
        by (rule disciplined_own [OF K C sweep(1)])
          (use that sweep sweep_points [of pt] events_at_lock(2) [of pt] in \<open>auto simp: inside_of_def uart_lock_def\<close>)
      with sweep_uart.may_exec(1) [OF K sweep(1) that] events_shared(1) [OF that] show ?thesis by simp
    qed
    from sweep(5) show ?thesis
    proof (cases rule: turn_cases)
      case own
      with sweep_step_moved have "moved (sweep_event pt) (krn (brd w)) (krn (brd w'))" by blast
      from moved_prio_ok [OF K P this ev] show ?thesis .
    qed (use P in simp)
  qed
qed

lemma fw_reachable_prio:
  assumes "fw_reachable c hw w0 w" "fw_ok hw base w0" "fw_queue w0" "prio_ok (krn (brd w0))"
  shows "prio_ok (krn (brd w))"
  using assms
proof (induction rule: fw_reachable.induct)
  case (later w e w')
  from later.hyps(2) have step: "fw_enabled e w" "fw_exec c hw e w = Some w'" by (simp_all add: fw_step_iff)
  show ?case
    by (rule fw_exec_prio [OF fw_reachable_ok [OF later.hyps(1) later.prems(1)]
      fw_reachable_queue [OF later.hyps(1) later.prems(1,2)] later.IH [OF later.prems] step])
qed

end
