(* ===== verification/Microbench.thy ===== *)
theory Microbench
  imports Self_Test Scheduler Uart
begin

text \<open>
  \<^verbatim>\<open>Bench/microbench.c\<close>: the timed loops with their effect on the kernel, the cycle counter
  they read, and the report they print. The objects on the stack of the benchmarks are
  parameters: the addresses of the mutex, the semaphore, the queue and its buffer. The lemmas
  show that a benchmark leaves the kernel as an initialised object and no more, and that the
  report is exact.
\<close>

subsection \<open>The model\<close>

definition BENCH_ITERATIONS :: nat where [model_defs]: "BENCH_ITERATIONS = 100"

definition CYCLES_PER_US :: u32 where "CYCLES_PER_US = SYS_CLK_HZ div 1000000"

text \<open>\<^verbatim>\<open>(DWT->CYCCNT - start) / BENCH_ITERATIONS\<close>.\<close>

definition per_iteration :: "u32 \<Rightarrow> u32 \<Rightarrow> u32" where
  "per_iteration start stop = (stop - start) div of_nat BENCH_ITERATIONS"

definition measure_overhead_cycles :: "hardware \<Rightarrow> history \<Rightarrow> u32 \<times> history" where
  "measure_overhead_cycles hw h =
     (let (start, h) = load hw DWT_CYCCNT h;
          h = h @ [Pause (of_nat BENCH_ITERATIONS)];
          (stop, h) = load hw DWT_CYCCNT h
      in (per_iteration start stop, h))"

text \<open>The whole microseconds and the tenths that \<^verbatim>\<open>report\<close> prints.\<close>

definition whole_us :: "u32 \<Rightarrow> u32" where
  "whole_us cycles = cycles div CYCLES_PER_US"

definition tenths_us :: "u32 \<Rightarrow> u32" where
  "tenths_us cycles = ((cycles mod CYCLES_PER_US) * 10) div CYCLES_PER_US"

definition report :: "hardware \<Rightarrow> string \<Rightarrow> u32 \<Rightarrow> history \<Rightarrow> history option" where
  "report hw name cycles h = do {
     h \<leftarrow> uart_print hw ''[Bench] '' h;
     h \<leftarrow> uart_print hw name h;
     h \<leftarrow> uart_print hw '': '' h;
     h \<leftarrow> uart_print_number hw cycles h;
     h \<leftarrow> uart_print hw '' cycles ('' h;
     h \<leftarrow> uart_print_number hw (whole_us cycles) h;
     h \<leftarrow> uart_print hw ''.'' h;
     h \<leftarrow> uart_print_number hw (tenths_us cycles) h;
     uart_print hw ('' us)'' @ [CHR 0x0D, CHR 0x0A]) h }"

text \<open>\<^verbatim>\<open>microbench_init\<close>: the counter is switched on and the ping-pong semaphores made.\<close>

definition microbench_init ::
  "cmsis \<Rightarrow> hardware \<Rightarrow> saddr \<Rightarrow> saddr \<Rightarrow> kernel \<times> history \<Rightarrow> kernel \<times> history" where
  "microbench_init c hw ping_sem pong_sem = (\<lambda>(s, h).
     let h = set_bits hw COREDEBUG_DEMCR (CoreDebug_DEMCR_TRCENA_Msk c) h;
         h = store DWT_CYCCNT 0 h;
         h = set_bits hw DWT_CTRL (DWT_CTRL_CYCCNTENA_Msk c) h;
         s = os_semaphore_init ping_sem 0 1 s;
         s = os_semaphore_init pong_sem 0 1 s
     in (s, h))"

text \<open>The four loops.\<close>

fun repeat_for :: "nat list \<Rightarrow> (nat \<Rightarrow> kernel \<Rightarrow> kernel option) \<Rightarrow> kernel \<Rightarrow> kernel option" where
  "repeat_for [] body s = Some s"
| "repeat_for (i # is) body s = do { s' \<leftarrow> body i s; repeat_for is body s' }"

definition mutex_rounds :: "maddr \<Rightarrow> kernel \<Rightarrow> kernel option" where
  "mutex_rounds m s = repeat_for [0..<BENCH_ITERATIONS]
     (\<lambda>_ s. do { (_, s1) \<leftarrow> os_mutex_acquire m 0 s; os_mutex_release m s1 }) s"

definition semaphore_rounds :: "saddr \<Rightarrow> kernel \<Rightarrow> kernel option" where
  "semaphore_rounds a s = repeat_for [0..<BENCH_ITERATIONS]
     (\<lambda>_ s. do { (_, s1) \<leftarrow> os_semaphore_acquire a 0 s; os_semaphore_release a s1 }) s"

definition queue_rounds :: "nat \<Rightarrow> kernel \<Rightarrow> kernel option" where
  "queue_rounds q s = repeat_for [0..<BENCH_ITERATIONS]
     (\<lambda>i s. do { (_, s1) \<leftarrow> os_queue_send q (of_nat i) 0 s;
                 (_, s2) \<leftarrow> os_queue_receive q 0 s1; Some s2 }) s"

definition scheduler_rounds :: "kernel \<Rightarrow> kernel option" where
  "scheduler_rounds s = repeat_for [0..<BENCH_ITERATIONS] (\<lambda>_. os_scheduler) s"

text \<open>A loop between two readings of the counter, and the report on it.\<close>

definition timed ::
  "hardware \<Rightarrow> string \<Rightarrow> (kernel \<Rightarrow> kernel option) \<Rightarrow> kernel \<times> history \<Rightarrow> (kernel \<times> history) option" where
  "timed hw name rounds = (\<lambda>(s, h). do {
     let (start, h) = load hw DWT_CYCCNT h;
     s \<leftarrow> rounds s;
     let (stop, h) = load hw DWT_CYCCNT h;
     let cycles = per_iteration start stop;
     let (overhead, h) = measure_overhead_cycles hw h;
     h \<leftarrow> report hw name (cycles - overhead) h;
     Some (s, h) })"

definition bench_mutex_overhead :: "hardware \<Rightarrow> maddr \<Rightarrow> kernel \<times> history \<Rightarrow> (kernel \<times> history) option" where
  "bench_mutex_overhead hw m = (\<lambda>(s, h).
     timed hw ''Mutex acquire+release (uncontested)'' (mutex_rounds m) (os_mutex_init m s, h))"

definition bench_semaphore_overhead :: "hardware \<Rightarrow> saddr \<Rightarrow> kernel \<times> history \<Rightarrow> (kernel \<times> history) option" where
  "bench_semaphore_overhead hw a = (\<lambda>(s, h).
     timed hw ''Semaphore take+give (uncontested)'' (semaphore_rounds a) (os_semaphore_init a 1 1 s, h))"

definition bench_queue_roundtrip ::
  "hardware \<Rightarrow> nat \<Rightarrow> u32 \<Rightarrow> kernel \<times> history \<Rightarrow> (kernel \<times> history) option" where
  "bench_queue_roundtrip hw q buf = (\<lambda>(s, h).
     timed hw ''Queue send+receive (1 word)'' (queue_rounds q) (os_queue_init q buf 8 s, h))"

definition bench_scheduler_decision :: "hardware \<Rightarrow> kernel \<times> history \<Rightarrow> (kernel \<times> history) option" where
  "bench_scheduler_decision hw = timed hw ''Scheduler decision'' scheduler_rounds"

definition bench_header :: string where
  "bench_header = [CHR 0x0D, CHR 0x0A] @ ''--- SENTINEL MICROBENCH START ---'' @ [CHR 0x0D, CHR 0x0A]"

definition bench_footer :: string where
  "bench_footer = ''--- BENCHMARK COMPLETE ---'' @ [CHR 0x0D, CHR 0x0A, CHR 0x0D, CHR 0x0A]"

definition microbench_run_all ::
  "hardware \<Rightarrow> maddr \<Rightarrow> saddr \<Rightarrow> nat \<Rightarrow> u32 \<Rightarrow> kernel \<times> history \<Rightarrow> (kernel \<times> history) option" where
  "microbench_run_all hw m a q buf = (\<lambda>(s, h). do {
     h \<leftarrow> uart_print hw bench_header h;
     (s, h) \<leftarrow> bench_mutex_overhead hw m (s, h);
     (s, h) \<leftarrow> bench_semaphore_overhead hw a (s, h);
     (s, h) \<leftarrow> bench_queue_roundtrip hw q buf (s, h);
     (s, h) \<leftarrow> bench_scheduler_decision hw (s, h);
     h \<leftarrow> uart_print hw bench_footer h;
     Some (s, h) })"

subsection \<open>The loops change nothing\<close>

lemma repeat_for_fixed: "(\<And>i. body i s = Some s) \<Longrightarrow> repeat_for is body s = Some s"
  by (induction "is") simp_all

definition settled :: "kernel \<Rightarrow> bool" where
  "settled s \<longleftrightarrow> (case current_tcb s of None \<Rightarrow> True
     | Some c \<Rightarrow> c < length (os_tasks s) \<and>
         current_priority (os_tasks s ! c) = base_priority (os_tasks s ! c))"

lemma settled_undonated: "settled s \<Longrightarrow> undonated (current_tcb s) (os_tasks s) = os_tasks s"
  by (cases "current_tcb s") (auto simp: settled_def undonated_def intro!: list_update_same_conv [THEN iffD2])

lemma bench_mutex:
  assumes "settled s"
  shows "mutex_rounds m (os_mutex_init m s) = Some (os_mutex_init m s)"
  unfolding mutex_rounds_def
proof (rule repeat_for_fixed)
  fix i
  let ?s0 = "os_mutex_init m s"
  obtain x where x: "mutexes ?s0 m = Some x" "lock x = 0" "owner x = None" "m_wait_count x = 0"
    using mutex_init_at by blast
  let ?s1 = "set_lock m 1 (current_tcb s) ?s0"
  have a: "os_mutex_acquire m 0 ?s0 = Some (Returned OS_SUCCESS, ?s1)"
    using mutex_acquire_free [OF x(1,2), of 0] by simp
  have m1: "mutexes ?s1 m = Some (x\<lparr>lock := 1, owner := current_tcb s\<rparr>)"
    using x by (simp add: set_lock_mutexes)
  have "\<forall>o'. current_tcb s = Some o' \<longrightarrow> o' < length (os_tasks ?s1)"
    using assms by (auto simp: settled_def)
  then have "os_mutex_release m ?s1 = Some (set_lock m 0 None (?s1\<lparr>os_tasks := os_tasks ?s1\<rparr>))"
    using mutex_release_uncontended [OF m1] x settled_undonated [OF assms] by simp
  moreover have "set_lock m 0 None (?s1\<lparr>os_tasks := os_tasks ?s1\<rparr>) = ?s0"
    using x by (simp add: set_lock_def fun_upd_idem)
  ultimately show "do { (_, s1) \<leftarrow> os_mutex_acquire m 0 ?s0; os_mutex_release m s1 } = Some ?s0"
    using a by simp
qed

lemma bench_semaphore:
  "semaphore_rounds a (os_semaphore_init a 1 1 s) = Some (os_semaphore_init a 1 1 s)"
  unfolding semaphore_rounds_def
proof (rule repeat_for_fixed)
  fix i
  let ?s0 = "os_semaphore_init a 1 1 s"
  obtain x where x: "sems ?s0 a = Some x" "sem_count x = 1" "sem_max_count x = 1" "s_wait_count x = 0"
    by (auto simp: os_semaphore_init_def split: option.splits)
  let ?s1 = "set_tokens a 0 ?s0"
  have a: "os_semaphore_acquire a 0 ?s0 = Some (Returned OS_SUCCESS, ?s1)"
    using sem_acquire_token [OF x(1), of 0] x(2) by simp
  have s1: "sems ?s1 a = Some (x\<lparr>sem_count := 0\<rparr>)" using x by (simp add: set_tokens_sems)
  have "set_tokens a 1 ?s1 = ?s0"
    using x by (simp add: set_tokens_def option.map_comp comp_def fun_upd_idem)
  then have "os_semaphore_release a ?s1 = Some ?s0"
    using sem_release_uncontended [OF s1] x by simp
  with a show "do { (_, s1) \<leftarrow> os_semaphore_acquire a 0 ?s0; os_semaphore_release a s1 } = Some ?s0"
    by simp
qed

lemma queue_loop:
  "q_from q s0 s \<Longrightarrow> contents q s = [] \<Longrightarrow> 0 < q_size q s \<Longrightarrow>
   \<exists>s'. repeat_for is (\<lambda>i s. do { (_, s1) \<leftarrow> os_queue_send q (of_nat i) 0 s;
                 (_, s2) \<leftarrow> os_queue_receive q 0 s1; Some s2 }) s = Some s' \<and> q_from q s0 s'"
proof (induction "is" arbitrary: s)
  case (Cons i "is")
  from send_free [of q s "of_nat i" 0] Cons.prems obtain s1 where s1:
    "os_queue_send q (of_nat i) 0 s = Some (Q_done OS_SUCCESS None, s1)" "q_ok q s1"
    "contents q s1 = [of_nat i]" "q_size q s1 = q_size q s" "q_frame q s s1"
    by (auto simp: q_from_def)
  from receive_some [of q s1 0] s1 obtain s2 where s2:
    "os_queue_receive q 0 s1 = Some (Q_done OS_SUCCESS (Some (of_nat i)), s2)" "q_ok q s2"
    "contents q s2 = []" "q_size q s2 = q_size q s" "q_frame q s1 s2" by auto
  have "q_from q s0 s2"
    using q_fromI [OF q_fromI [OF Cons.prems(1) s1(5,2)] s2(5,2)] .
  from Cons.IH [OF this s2(3)] s1(1) s2(1,4) Cons.prems(3) show ?case by simp
qed auto

lemma bench_queue:
  assumes "\<And>c. current_tcb s = Some c \<Longrightarrow> c < length (os_tasks s)"
  obtains s' where "queue_rounds q (os_queue_init q buf 8 s) = Some s'" "q_from q (os_queue_init q buf 8 s) s'"
proof -
  have init: "q_ok q (os_queue_init q buf 8 s)" "contents q (os_queue_init q buf 8 s) = []"
    "0 < q_size q (os_queue_init q buf 8 s)"
    using q_ok_init [of 8 s q buf] assms by auto
  from queue_loop [OF q_from_refl [OF init(1)] init(2,3)] that show ?thesis
    by (auto simp: queue_rounds_def)
qed

subsection \<open>The report\<close>

text \<open>The counter may wrap between two readings; the difference does not.\<close>

lemma elapsed_wraps:
  assumes "t0 \<le> t1" "t1 - t0 < 2 ^ 32"
  shows "unat (of_nat t1 - of_nat t0 :: u32) = t1 - t0"
proof -
  have "of_nat t1 - of_nat t0 = (of_nat (t1 - t0) :: u32)" using assms(1) by (simp add: of_nat_diff)
  then show ?thesis using assms(2) by (simp add: unsigned_of_nat take_bit_nat_eq_self)
qed

lemma whole_us_eq: "unat (whole_us c) = unat c div 16"
  by (simp add: whole_us_def CYCLES_PER_US_def model_defs unat_div)

lemma tenths_us_eq: "unat (tenths_us c) = unat c mod 16 * 10 div 16"
proof -
  have m: "unat (c mod 16) = unat c mod 16" by (simp add: unat_mod)
  have "unat ((c mod 16) * 10) = unat c mod 16 * 10"
    by (subst unat_mult_lem [THEN iffD1]) (simp_all add: m order.strict_trans1 [of _ 160])
  then have "unat ((c mod 16) * 10 div 16) = unat c mod 16 * 10 div 16" by (simp add: unat_div)
  then show ?thesis by (simp add: tenths_us_def CYCLES_PER_US_def model_defs)
qed

text \<open>The printed figure is the number of tenths of a microsecond, rounded down.\<close>

lemma report_exact: "unat (tenths_us c) < 10" "10 * unat (whole_us c) + unat (tenths_us c) = 10 * unat c div 16"
proof -
  have "unat c mod 16 < 16" by simp
  then show "unat (tenths_us c) < 10" unfolding tenths_us_eq by linarith
  have "10 * unat c = unat c mod 16 * 10 + 16 * (10 * (unat c div 16))"
    using div_mult_mod_eq [of "unat c" 16] by linarith
  then have "10 * unat c div 16 = (unat c mod 16 * 10 + 16 * (10 * (unat c div 16))) div 16" by simp
  also have "\<dots> = 10 * (unat c div 16) + unat c mod 16 * 10 div 16" by simp
  finally show "10 * unat (whole_us c) + unat (tenths_us c) = 10 * unat c div 16"
    by (simp add: whole_us_eq tenths_us_eq)
qed

subsection \<open>What is printed\<close>

lemma report_sends:
  assumes "uart_ready hw h"
  obtains h' where "report hw name cycles h = Some h'" "uart_ready hw h'"
    "sends (codes ''[Bench] '' @ codes name @ codes '': '' @ number_bytes cycles @ codes '' cycles ('' @
       number_bytes (whole_us cycles) @ codes ''.'' @ number_bytes (tenths_us cycles) @
       codes ('' us)'' @ [CHR 0x0D, CHR 0x0A])) h h'"
proof -
  obtain h1 where h1: "uart_print hw ''[Bench] '' h = Some h1" "sends (codes ''[Bench] '') h h1" "uart_ready hw h1"
    by (rule print_codes [OF assms])
  obtain h2 where h2: "uart_print hw name h1 = Some h2" "sends (codes name) h1 h2" "uart_ready hw h2"
    by (rule print_codes [OF h1(3)])
  obtain h3 where h3: "uart_print hw '': '' h2 = Some h3" "sends (codes '': '') h2 h3" "uart_ready hw h3"
    by (rule print_codes [OF h2(3)])
  obtain h4 where h4: "uart_print_number hw cycles h3 = Some h4" "sends (number_bytes cycles) h3 h4" "uart_ready hw h4"
    by (rule print_number_bytes [OF h3(3)])
  obtain h5 where h5: "uart_print hw '' cycles ('' h4 = Some h5" "sends (codes '' cycles ('') h4 h5" "uart_ready hw h5"
    by (rule print_codes [OF h4(3)])
  obtain h6 where h6: "uart_print_number hw (whole_us cycles) h5 = Some h6"
    "sends (number_bytes (whole_us cycles)) h5 h6" "uart_ready hw h6"
    by (rule print_number_bytes [OF h5(3)])
  obtain h7 where h7: "uart_print hw ''.'' h6 = Some h7" "sends (codes ''.'') h6 h7" "uart_ready hw h7"
    by (rule print_codes [OF h6(3)])
  obtain h8 where h8: "uart_print_number hw (tenths_us cycles) h7 = Some h8"
    "sends (number_bytes (tenths_us cycles)) h7 h8" "uart_ready hw h8"
    by (rule print_number_bytes [OF h7(3)])
  obtain h9 where h9: "uart_print hw ('' us)'' @ [CHR 0x0D, CHR 0x0A]) h8 = Some h9"
    "sends (codes ('' us)'' @ [CHR 0x0D, CHR 0x0A])) h8 h9" "uart_ready hw h9"
    by (rule print_codes [OF h8(3)])
  note chain = sends_trans [OF h1(2) sends_trans [OF h2(2) sends_trans [OF h3(2) sends_trans [OF h4(2)
    sends_trans [OF h5(2) sends_trans [OF h6(2) sends_trans [OF h7(2) sends_trans [OF h8(2) h9(2)]]]]]]]]
  show ?thesis
    by (rule that [OF _ h9(3) chain]) (simp only: report_def h1(1) h2(1) h3(1) h4(1) h5(1) h6(1) h7(1) h8(1) h9(1) bind.bind_lunit)
qed

lemma timed_ok:
  assumes "uart_ready hw h" "rounds s = Some s'"
  obtains h' where "timed hw name rounds (s, h) = Some (s', h')" "uart_ready hw h'"
proof -
  let ?h2 = "(h @ [Rd DWT_CYCCNT]) @ [Rd DWT_CYCCNT]"
  let ?h3 = "(?h2 @ [Rd DWT_CYCCNT]) @ [Pause (of_nat BENCH_ITERATIONS)] @ [Rd DWT_CYCCNT]"
  let ?over = "measure_overhead_cycles hw ?h2"
  have h3: "snd ?over = ?h3" by (simp add: measure_overhead_cycles_def load_def Let_def)
  have "uart_ready hw ?h3" by (rule uart_ready_quiet [OF assms(1)]) simp
  then obtain h' where "report hw name (per_iteration (hw h DWT_CYCCNT) (hw (h @ [Rd DWT_CYCCNT]) DWT_CYCCNT) - fst ?over) ?h3
      = Some h'" "uart_ready hw h'"
    using report_sends by metis
  with that show ?thesis
    using assms(2) h3 by (cases ?over) (simp add: timed_def load_def Let_def)
qed

subsection \<open>What the benchmarks need of the system they run in\<close>

text \<open>
  \<open>made n\<close> holds of the kernel while the benchmarks run, after \<open>n\<close> scheduling decisions: they may
  initialise and use objects of their own, and ask the scheduler.
\<close>

locale bench_ground =
  fixes made :: "nat \<Rightarrow> kernel \<Rightarrow> bool" and m :: maddr and a :: saddr and q :: nat and buf :: u32
  assumes made_settled: "made n s \<Longrightarrow> settled s"
    and made_mutex: "made n s \<Longrightarrow> made n (os_mutex_init m s)"
    and made_semaphore: "made n s \<Longrightarrow> made n (os_semaphore_init a 1 1 s)"
    and made_queue: "made n s \<Longrightarrow> q_from q (os_queue_init q buf 8 s) s' \<Longrightarrow> made n s'"
    and made_decision: "made n s \<Longrightarrow> \<exists>s'. os_scheduler s = Some s' \<and> made (Suc n) s'"
begin

lemma decisions:
  assumes "made n s"
  shows "\<exists>s'. repeat_for is (\<lambda>_. os_scheduler) s = Some s' \<and> made (n + length is) s'"
  using assms
proof (induction "is" arbitrary: n s)
  case (Cons i "is")
  from made_decision [OF Cons.prems] obtain s1 where "os_scheduler s = Some s1" "made (Suc n) s1" by blast
  with Cons.IH [of "Suc n" s1] show ?case by simp
qed simp

lemma run_all:
  assumes made: "made n s" and on: "uart_ready hw h"
  obtains s' h' where "microbench_run_all hw m a q buf (s, h) = Some (s', h')" "made (n + BENCH_ITERATIONS) s'"
    "uart_ready hw h'"
proof -
  let ?s1 = "os_mutex_init m s" and ?s2 = "os_semaphore_init a 1 1 (os_mutex_init m s)"
  have made2: "made n ?s2" by (intro made_semaphore made_mutex made)
  obtain h0 where h0: "uart_print hw bench_header h = Some h0" "uart_ready hw h0" by (rule print_codes [OF on])
  have b1: "mutex_rounds m ?s1 = Some ?s1" by (rule bench_mutex [OF made_settled [OF made]])
  obtain h1 where h1: "bench_mutex_overhead hw m (s, h0) = Some (?s1, h1)" "uart_ready hw h1"
    by (rule timed_ok [OF h0(2), where rounds = "mutex_rounds m", OF b1]) (simp add: bench_mutex_overhead_def)
  have b2: "semaphore_rounds a ?s2 = Some ?s2" by (rule bench_semaphore)
  obtain h2 where h2: "bench_semaphore_overhead hw a (?s1, h1) = Some (?s2, h2)" "uart_ready hw h2"
    by (rule timed_ok [OF h1(2), where rounds = "semaphore_rounds a", OF b2]) (simp add: bench_semaphore_overhead_def)
  have cur: "c < length (os_tasks ?s2)" if "current_tcb ?s2 = Some c" for c
    using made_settled [OF made2] that by (simp add: settled_def)
  obtain s3 where s3: "queue_rounds q (os_queue_init q buf 8 ?s2) = Some s3" "q_from q (os_queue_init q buf 8 ?s2) s3"
    by (rule bench_queue [of ?s2 q buf]) (use cur in blast)
  obtain h3 where h3: "bench_queue_roundtrip hw q buf (?s2, h2) = Some (s3, h3)" "uart_ready hw h3"
    by (rule timed_ok [OF h2(2), where rounds = "queue_rounds q", OF s3(1)]) (simp add: bench_queue_roundtrip_def)
  from decisions [OF made_queue [OF made2 s3(2)], of "[0..<BENCH_ITERATIONS]"]
  obtain s4 where s4: "scheduler_rounds s3 = Some s4" "made (n + BENCH_ITERATIONS) s4"
    by (auto simp: scheduler_rounds_def)
  obtain h4 where h4: "bench_scheduler_decision hw (s3, h3) = Some (s4, h4)" "uart_ready hw h4"
    by (rule timed_ok [OF h3(2), where rounds = scheduler_rounds, OF s4(1)]) (simp add: bench_scheduler_decision_def)
  obtain h5 where h5: "uart_print hw bench_footer h4 = Some h5" "uart_ready hw h5" by (rule print_codes [OF h4(2)])
  show ?thesis
    using that [OF _ s4(2) h5(2)] h0(1) h1(1) h2(1) h3(1) h4(1) h5(1) by (simp add: microbench_run_all_def)
qed

end

end
