(* ===== verification/Boot.thy ===== *)
theory Boot
  imports Tasks Microbench
begin

text \<open>
  \<^verbatim>\<open>main\<close> (\<^verbatim>\<open>Src/main.c\<close>, the build without \<^verbatim>\<open>SENTINEL_BENCH\<close>): from the machine after
  reset to the first task. The addresses the linker assigns to the task entry points, the
  stacks and the buffers are a parameter, \<open>image\<close>. The lemmas follow the boot phase by phase;
  \<open>tasks_made\<close> is what holds once the tasks exist and until the launch.
\<close>

subsection \<open>The model\<close>

record image =
  radar_entry :: u32
  sweep_entry :: u32
  idle_entry :: u32
  radar_stack :: u32
  sweep_stack :: u32
  idle_stack :: u32
  sweep_queue_buffer :: u32
  post_buffer :: u32
  bench_buffer :: u32

text \<open>
  The objects by address: the globals of \<^verbatim>\<open>main.c\<close> have number 0; the locals of the self-test
  and of the benchmarks come after them.
\<close>

definition post_mutex :: maddr where "post_mutex = Mutex_At 1"
definition bench_mutex_at :: maddr where "bench_mutex_at = Mutex_At 2"
definition post_sem :: saddr where "post_sem = Sem_At 1"
definition bench_sem :: saddr where "bench_sem = Sem_At 2"
definition ping_sem :: saddr where "ping_sem = Sem_At 3"
definition pong_sem :: saddr where "pong_sem = Sem_At 4"
definition post_queue :: nat where "post_queue = 1"
definition bench_queue_at :: nat where "bench_queue_at = 2"

definition boot_banner :: string where
  "boot_banner = ''--- SENTINEL RTOS BOOTING ---'' @ [CHR 0x0D, CHR 0x0A]"

text \<open>A failed self-test never returns.\<close>

definition main ::
    "cmsis \<Rightarrow> hardware \<Rightarrow> image \<Rightarrow> cpu \<Rightarrow> kernel \<times> history \<Rightarrow> (cpu \<times> board) option" where
  "main c hw img core = (\<lambda>(s, h). do {
     let s = os_kernel_init s;
     h \<leftarrow> uart_init c hw h;
     let (s, h) = microbench_init c hw ping_sem pong_sem (s, h);
     h \<leftarrow> uart_print hw boot_banner h;
     (post, s) \<leftarrow> os_run_post post_mutex post_sem post_queue (post_buffer img) s;
     if post \<noteq> Passed then None
     else do {
       (period, h) \<leftarrow> servo_init c hw h;
       h \<leftarrow> ultrasonic_init c hw h;
       let s = os_queue_init sweep_queue (sweep_queue_buffer img) 8 s;
       let s = os_semaphore_init echo_ready 0 1 s;
       let s = os_mutex_init uart_lock s;
       (_, s) \<leftarrow> os_task_create (radar_entry img) (radar_stack img) STACK_SIZE 2 s;
       (_, s) \<leftarrow> os_task_create (sweep_entry img) (sweep_stack img) STACK_SIZE 1 s;
       (_, s) \<leftarrow> os_task_create (idle_entry img) (idle_stack img) STACK_SIZE 0 s;
       (s, h) \<leftarrow> microbench_run_all hw bench_mutex_at bench_sem bench_queue_at (bench_buffer img) (s, h);
       (core, s) \<leftarrow> os_kernel_launch core s;
       Some (core, \<lparr>krn = s, ech = echo_zero, pwm_period_us = period, hst = h\<rparr>) } })"

subsection \<open>What the linker promises\<close>

definition apart :: "u32 \<Rightarrow> nat \<Rightarrow> u32 \<Rightarrow> nat \<Rightarrow> bool" where
  "apart a n b k \<longleftrightarrow> unat a + n \<le> unat b \<or> unat b + k \<le> unat a"

definition image_ok :: "image \<Rightarrow> bool" where
  "image_ok img \<longleftrightarrow> radar_entry img \<noteq> 0 \<and> sweep_entry img \<noteq> 0 \<and> idle_entry img \<noteq> 0 \<and>
     unat (radar_stack img) + 1024 < 2 ^ 32 \<and> unat (sweep_stack img) + 1024 < 2 ^ 32 \<and>
     unat (idle_stack img) + 1024 < 2 ^ 32 \<and> unat (bench_buffer img) + 32 < 2 ^ 32 \<and>
     apart (radar_stack img) 1024 (sweep_stack img) 1024 \<and>
     apart (radar_stack img) 1024 (idle_stack img) 1024 \<and>
     apart (sweep_stack img) 1024 (idle_stack img) 1024 \<and>
     apart (radar_stack img) 1024 (bench_buffer img) 32"

subsection \<open>Before the tasks\<close>

lemma no_tasks_no_waiters: "kinv s \<Longrightarrow> tc s = 0 \<Longrightarrow> waiters s r = []"
  by (rule no_waiters) simp_all

definition quiet :: "kernel \<Rightarrow> bool" where
  "quiet s \<longleftrightarrow> \<not> kernel_running s \<and> halted_in s = None \<and> \<not> pendsv s"

text \<open>No task yet: every object can be initialised.\<close>

definition unpopulated :: "kernel \<Rightarrow> bool" where
  "unpopulated s \<longleftrightarrow> kinv s \<and> task_count s = 0 \<and> current_tcb s = None \<and> quiet s"

lemma unpopulated_boot: "unpopulated (os_kernel_init (reset_state h cr))"
  using kinv_boot by (simp add: unpopulated_def quiet_def) (simp add: os_kernel_init_def reset_state_def)

lemma quiet_init [simp]:
  "quiet (os_mutex_init m s) = quiet s" "quiet (os_semaphore_init a i n s) = quiet s"
  "quiet (os_queue_init q buf cap s) = quiet s"
  by (simp_all add: quiet_def os_mutex_init_def os_semaphore_init_def os_queue_init_def Let_def)

lemma queue_init_frame [simp]:
  "os_tasks (os_queue_init q buf cap s) = os_tasks s" "task_count (os_queue_init q buf cap s) = task_count s"
  "current_tcb (os_queue_init q buf cap s) = current_tcb s" "mem (os_queue_init q buf cap s) = mem s"
  by (simp_all add: os_queue_init_def Let_def)

lemma unpopulated_init:
  assumes "unpopulated s"
  shows "unpopulated (os_mutex_init m s)" "i \<le> n \<Longrightarrow> unpopulated (os_semaphore_init a i n s)"
    "unpopulated (os_queue_init q buf cap s)"
  using assms no_tasks_no_waiters [of s] kinv_mutex_init kinv_semaphore_init kinv_queue_init
  by (simp_all add: unpopulated_def)

lemma unpopulated_post:
  assumes "unpopulated s"
  obtains s' where "os_run_post m a q buf s = Some (Passed, s')" "unpopulated s'"
proof -
  have inv: "kinv s" "current_tcb s = None" and w: "waiters s r = []" for r
    using assms no_tasks_no_waiters [of s] by (simp_all add: unpopulated_def)
  obtain s' where "os_run_post m a q buf s = Some (Passed, s')" "kinv s'" "os_tasks s' = os_tasks s"
    "task_count s' = task_count s" "current_tcb s' = None" "primask s' = primask s"
    "pendsv s' = pendsv s" "kernel_running s' = kernel_running s" "halted_in s' = halted_in s"
    by (rule run_post_ok [OF inv w w w w w])
  with that assms show ?thesis by (simp add: unpopulated_def quiet_def)
qed

text \<open>The objects the tasks share are initialised: the mutexes are free and the queue is empty.\<close>

definition shared_made :: "kernel \<Rightarrow> bool" where
  "shared_made s \<longleftrightarrow> (\<forall>m\<in>{uart_lock, Queue_Lock sweep_queue}. \<exists>x. mutexes s m = Some x \<and> lock x = 0) \<and>
     echo_ready \<in> dom (sems s) \<and>
     (\<exists>x. sems s (Queue_Empty sweep_queue) = Some x \<and> sem_count x = 8 \<and> sem_max_count x = 8) \<and>
     (\<exists>x. sems s (Queue_Filled sweep_queue) = Some x \<and> sem_count x = 0 \<and> sem_max_count x = 8) \<and>
     (\<exists>x. queues s sweep_queue = Some x \<and> q_capacity x = 8 \<and> q_head x = 0 \<and> q_tail x = 0)"

lemma shared_made_init:
  "shared_made s \<Longrightarrow> shared_made (os_mutex_init m s)"
  "shared_made s \<Longrightarrow> a \<notin> {Queue_Empty sweep_queue, Queue_Filled sweep_queue} \<Longrightarrow> shared_made (os_semaphore_init a i n s)"
  "shared_made s \<Longrightarrow> q \<noteq> sweep_queue \<Longrightarrow> shared_made (os_queue_init q buf cap s)"
  by (auto simp: shared_made_def os_mutex_init_def os_semaphore_init_def os_queue_init_def Let_def split: option.splits)

lemma shared_made_main:
  "shared_made (os_mutex_init uart_lock (os_semaphore_init echo_ready i n (os_queue_init sweep_queue buf 8 s)))"
  by (auto simp: shared_made_def os_mutex_init_def os_semaphore_init_def os_queue_init_def Let_def echo_ready_def
      split: option.splits)

subsection \<open>Creating a task\<close>

lemma create_mem_outside:
  assumes fits: "unat base + 4 * unat stk_words < 2 ^ 32" "64 \<le> stk_words"
    and out: "unat a < unat base \<or> unat base + 4 * unat stk_words \<le> unat a"
  shows "snd (os_task_init_stack taskptr (stack_top base stk_words) (m(base := STACK_CANARY))) a = m a"
proof -
  have "a \<noteq> stack_top base stk_words - k" if "0 < unat k" "unat k \<le> 64" for k
    using frame_addr_above [OF fits that] out by (metis less_asym' not_less)
  moreover have "a \<noteq> base" using out fits by (auto simp: word_le_nat_alt)
  ultimately show ?thesis by (simp add: init_stack_mem)
qed

lemma create_task:
  assumes inv: "kinv s" and room: "tc s < MAX_TASKS" and entry: "entry \<noteq> 0"
    and fits: "unat base + 1024 < 2 ^ 32"
  obtains s' where "os_task_create entry base STACK_SIZE p s = Some (True, s')" "kinv s'"
    "os_tasks s' = (os_tasks s)[tc s := created base STACK_SIZE p (os_tasks s ! tc s)]"
    "task_count s' = task_count s + 1"
    "current_tcb s' = (case current_tcb s of None \<Rightarrow> Some (tc s) | Some c \<Rightarrow> Some c)" "quiet s' = quiet s"
    "mem s' base = STACK_CANARY" "mem s' (stack_top base STACK_SIZE - 8) = entry"
    "\<forall>a. unat a < unat base \<or> unat base + 1024 \<le> unat a \<longrightarrow> mem s' a = mem s a"
    "shared_made s' = shared_made s"
proof -
  have w: "64 \<le> STACK_SIZE" "unat STACK_SIZE = 256" by (simp_all add: model_defs)
  let ?h = "snd (os_task_init_stack entry (stack_top base STACK_SIZE) ((mem s)(base := STACK_CANARY)))"
  let ?s' = "s\<lparr>os_tasks := (os_tasks s)[tc s := created base STACK_SIZE p (os_tasks s ! tc s)], mem := ?h,
      current_tcb := (case current_tcb s of None \<Rightarrow> Some (tc s) | Some c \<Rightarrow> Some c),
      task_count := task_count s + 1\<rparr>"
  have create: "os_task_create entry base STACK_SIZE p s = Some (True, ?s')"
    by (rule os_task_create_eq [OF waits_okD(1) [OF kinvD(1) [OF inv]] room entry w(1)])
  have f: "unat base + 4 * unat STACK_SIZE < 2 ^ 32" using fits w(2) by simp
  have "base \<noteq> stack_top base STACK_SIZE - k" if "0 < unat k" "unat k \<le> 64" for k
    using frame_addr_above(1) [OF f w(1) that] by auto
  then have "?h base = STACK_CANARY" by (simp add: init_stack_mem)
  moreover have "?h (stack_top base STACK_SIZE - 8) = entry" by (simp add: init_stack_mem)
  moreover have "\<forall>a. unat a < unat base \<or> unat base + 1024 \<le> unat a \<longrightarrow> ?h a = mem s a"
    using create_mem_outside [OF f w(1)] w(2) by simp
  ultimately show ?thesis
    using that [OF create kinv_task_create [OF inv create]] by (simp add: quiet_def shared_made_def)
qed

subsection \<open>The three tasks\<close>

text \<open>The fields of a TCB that the boot relies on.\<close>

definition booted :: "task_state set \<Rightarrow> u8 \<Rightarrow> tcb \<Rightarrow> bool" where
  "booted S p x \<longleftrightarrow> state x \<in> S \<and> current_priority x = p \<and> base_priority x = p \<and> wait_queue x = None"

definition tasks_made :: "image \<Rightarrow> kernel \<Rightarrow> bool" where
  "tasks_made img s \<longleftrightarrow> kinv s \<and> task_count s = 3 \<and> current_tcb s = Some 0 \<and> quiet s \<and>
     booted {READY, RUNNING} 2 (os_tasks s ! 0) \<and> booted {READY} 1 (os_tasks s ! 1) \<and>
     booted {READY} 0 (os_tasks s ! 2) \<and> stackBase (os_tasks s ! 0) = radar_stack img \<and>
     stackPtr (os_tasks s ! 0) = stack_top (radar_stack img) STACK_SIZE - 64 \<and>
     mem s (radar_stack img) = STACK_CANARY \<and>
     mem s (stack_top (radar_stack img) STACK_SIZE - 8) = radar_entry img \<and> shared_made s"

lemma booted_created [simp]: "booted {READY} p (created b w p x)" "booted {READY, RUNNING} p (created b w p x)"
  by (simp_all add: booted_def)

lemma radar_words:
  assumes "image_ok img"
  shows "unat (radar_stack img) < unat (radar_stack img) + 1024"
    and "unat (radar_stack img) \<le> unat (stack_top (radar_stack img) STACK_SIZE - 8)"
    and "unat (stack_top (radar_stack img) STACK_SIZE - 8) < unat (radar_stack img) + 1024"
proof -
  have "unat (radar_stack img) + 4 * unat STACK_SIZE < 2 ^ 32" "64 \<le> STACK_SIZE" "unat STACK_SIZE = 256"
    using assms by (simp_all add: image_ok_def model_defs)
  from frame_addr_above [OF this(1,2), of 8] this(3)
  show "unat (radar_stack img) \<le> unat (stack_top (radar_stack img) STACK_SIZE - 8)"
    "unat (stack_top (radar_stack img) STACK_SIZE - 8) < unat (radar_stack img) + 1024" by simp_all
qed simp

lemma create_tasks:
  assumes un: "unpopulated s" and made: "shared_made s" and img: "image_ok img"
  obtains s1 s2 s3 where
    "os_task_create (radar_entry img) (radar_stack img) STACK_SIZE 2 s = Some (True, s1)"
    "os_task_create (sweep_entry img) (sweep_stack img) STACK_SIZE 1 s1 = Some (True, s2)"
    "os_task_create (idle_entry img) (idle_stack img) STACK_SIZE 0 s2 = Some (True, s3)"
    "tasks_made img s3"
proof -
  have I: "radar_entry img \<noteq> 0" "sweep_entry img \<noteq> 0" "idle_entry img \<noteq> 0"
    "unat (radar_stack img) + 1024 < 2 ^ 32" "unat (sweep_stack img) + 1024 < 2 ^ 32"
    "unat (idle_stack img) + 1024 < 2 ^ 32"
    "apart (radar_stack img) 1024 (sweep_stack img) 1024" "apart (radar_stack img) 1024 (idle_stack img) 1024"
    using img by (simp_all add: image_ok_def)
  have S: "kinv s" "task_count s = 0" "current_tcb s = None" "quiet s" using un by (simp_all add: unpopulated_def)
  have room: "tc s < MAX_TASKS" using S(2) by (simp add: model_defs)
  obtain s1 where s1: "os_task_create (radar_entry img) (radar_stack img) STACK_SIZE 2 s = Some (True, s1)" "kinv s1"
    "os_tasks s1 = (os_tasks s)[tc s := created (radar_stack img) STACK_SIZE 2 (os_tasks s ! tc s)]"
    "task_count s1 = task_count s + 1"
    "current_tcb s1 = (case current_tcb s of None \<Rightarrow> Some (tc s) | Some c \<Rightarrow> Some c)" "quiet s1 = quiet s"
    "mem s1 (radar_stack img) = STACK_CANARY" "mem s1 (stack_top (radar_stack img) STACK_SIZE - 8) = radar_entry img"
    "\<forall>a. unat a < unat (radar_stack img) \<or> unat (radar_stack img) + 1024 \<le> unat a \<longrightarrow> mem s1 a = mem s a"
    "shared_made s1 = shared_made s"
    by (rule create_task [OF S(1) room I(1,4)])
  have room1: "tc s1 < MAX_TASKS" using S(2) s1(4) by (simp add: model_defs)
  obtain s2 where s2: "os_task_create (sweep_entry img) (sweep_stack img) STACK_SIZE 1 s1 = Some (True, s2)" "kinv s2"
    "os_tasks s2 = (os_tasks s1)[tc s1 := created (sweep_stack img) STACK_SIZE 1 (os_tasks s1 ! tc s1)]"
    "task_count s2 = task_count s1 + 1"
    "current_tcb s2 = (case current_tcb s1 of None \<Rightarrow> Some (tc s1) | Some c \<Rightarrow> Some c)" "quiet s2 = quiet s1"
    "mem s2 (sweep_stack img) = STACK_CANARY" "mem s2 (stack_top (sweep_stack img) STACK_SIZE - 8) = sweep_entry img"
    "\<forall>a. unat a < unat (sweep_stack img) \<or> unat (sweep_stack img) + 1024 \<le> unat a \<longrightarrow> mem s2 a = mem s1 a"
    "shared_made s2 = shared_made s1"
    by (rule create_task [OF s1(2) room1 I(2,5)])
  have room2: "tc s2 < MAX_TASKS" using S(2) s1(4) s2(4) by (simp add: model_defs)
  obtain s3 where s3: "os_task_create (idle_entry img) (idle_stack img) STACK_SIZE 0 s2 = Some (True, s3)" "kinv s3"
    "os_tasks s3 = (os_tasks s2)[tc s2 := created (idle_stack img) STACK_SIZE 0 (os_tasks s2 ! tc s2)]"
    "task_count s3 = task_count s2 + 1"
    "current_tcb s3 = (case current_tcb s2 of None \<Rightarrow> Some (tc s2) | Some c \<Rightarrow> Some c)" "quiet s3 = quiet s2"
    "mem s3 (idle_stack img) = STACK_CANARY" "mem s3 (stack_top (idle_stack img) STACK_SIZE - 8) = idle_entry img"
    "\<forall>a. unat a < unat (idle_stack img) \<or> unat (idle_stack img) + 1024 \<le> unat a \<longrightarrow> mem s3 a = mem s2 a"
    "shared_made s3 = shared_made s2"
    by (rule create_task [OF s2(2) room2 I(3,6)])
  have n: "tc s = 0" "tc s1 = 1" "tc s2 = 2" using S(2) s1(4) s2(4) by simp_all
  have len: "length (os_tasks s) = 6" using waits_okD(1) [OF kinvD(1) [OF S(1)]] by (simp add: model_defs)
  have tasks: "os_tasks s3 ! 0 = created (radar_stack img) STACK_SIZE 2 (os_tasks s ! 0)"
    "os_tasks s3 ! 1 = created (sweep_stack img) STACK_SIZE 1 (os_tasks s ! 1)"
    "os_tasks s3 ! 2 = created (idle_stack img) STACK_SIZE 0 (os_tasks s ! 2)"
    using len by (simp_all add: s1(3) s2(3) s3(3) n)
  have kept: "mem s3 a = mem s1 a" if "unat (radar_stack img) \<le> unat a" "unat a < unat (radar_stack img) + 1024" for a
  proof -
    have "unat a < unat (sweep_stack img) \<or> unat (sweep_stack img) + 1024 \<le> unat a"
      "unat a < unat (idle_stack img) \<or> unat (idle_stack img) + 1024 \<le> unat a"
      using that I(7,8) unfolding apart_def by linarith+
    then show ?thesis using s2(9) s3(9) by metis
  qed
  have "tasks_made img s3"
    using s3(2) s1(4-8,10) s2(4-6,10) s3(4-6,10) S made tasks kept radar_words [OF img]
    by (simp add: tasks_made_def)
  with that s1(1) s2(1) s3(1) show ?thesis by blast
qed

subsection \<open>The benchmarks keep the tasks\<close>

lemma tasks_made_free:
  assumes "tasks_made img s"
  shows "waiters s r = []" "settled s" "kinv s"
proof -
  have three: "t < 3 \<longleftrightarrow> t = 0 \<or> t = 1 \<or> t = 2" for t :: nat by auto
  show k: "kinv s" using assms by (simp add: tasks_made_def)
  have "\<forall>t<tc s. wait_queue (os_tasks s ! t) = None"
    using assms by (simp add: tasks_made_def booted_def three)
  then show "waiters s r = []" by (rule no_waiters [OF k])
  show "settled s"
    using assms waits_okD(1) [OF kinvD(1) [OF k]] by (simp add: tasks_made_def booted_def settled_def model_defs)
qed

lemma tasks_made_init:
  assumes "tasks_made img s"
  shows "tasks_made img (os_mutex_init m s)"
    "i \<le> n \<Longrightarrow> a \<notin> {Queue_Empty sweep_queue, Queue_Filled sweep_queue} \<Longrightarrow> tasks_made img (os_semaphore_init a i n s)"
    "q \<noteq> sweep_queue \<Longrightarrow> tasks_made img (os_queue_init q buf cap s)"
proof -
  note free = tasks_made_free [OF assms]
  have "kinv (os_mutex_init m s)" "i \<le> n \<Longrightarrow> kinv (os_semaphore_init a i n s)" "kinv (os_queue_init q buf cap s)"
    by (rule kinv_mutex_init [OF free(3,1)], rule kinv_semaphore_init [OF free(3,1)],
      assumption, rule kinv_queue_init [OF free(3,1,1,1)])
  then show "tasks_made img (os_mutex_init m s)"
    "i \<le> n \<Longrightarrow> a \<notin> {Queue_Empty sweep_queue, Queue_Filled sweep_queue} \<Longrightarrow> tasks_made img (os_semaphore_init a i n s)"
    "q \<noteq> sweep_queue \<Longrightarrow> tasks_made img (os_queue_init q buf cap s)"
    using assms shared_made_init [of s] by (simp_all add: tasks_made_def)
qed

lemma buffer_word:
  fixes buf :: u32
  assumes "unat buf + 32 < 2 ^ 32" "i < 8"
  shows "unat (buf + 4 * of_nat i) = unat buf + 4 * i"
proof -
  have "unat (4 * of_nat i :: u32) = 4 * i" using assms(2) by (simp add: unat_word_ariths unat_of_nat)
  moreover from this have "unat buf + unat (4 * of_nat i :: u32) < 2 ^ 32" using assms by linarith
  ultimately show ?thesis by (subst unat_add_lem [THEN iffD1]) auto
qed

lemma option_lengths: "map_option f (x :: 'a option) = map_option f y \<Longrightarrow> (x = None) = (y = None)"
  by (cases x; cases y) simp_all

lemma q_frame_doms:
  assumes "q_frame q s s'"
  shows "dom (mutexes s') = dom (mutexes s)" "dom (sems s') = dom (sems s)"
proof -
  have "(mutexes s' m = None) = (mutexes s m = None)" for m
    by (rule option_lengths [of "length \<circ> m_wait_queue"]) (use assms in \<open>simp add: q_frame_def\<close>)
  moreover have "(sems s' a = None) = (sems s a = None)" for a
    by (rule option_lengths [of "length \<circ> s_wait_queue"]) (use assms in \<open>simp add: q_frame_def\<close>)
  ultimately show "dom (mutexes s') = dom (mutexes s)" "dom (sems s') = dom (sems s)"
    by (simp_all add: dom_def)
qed

lemma tasks_made_queue:
  assumes made: "tasks_made img s" and steps: "q_from q (os_queue_init q (bench_buffer img) 8 s) s'"
    and img: "image_ok img" and q: "q \<noteq> sweep_queue"
  shows "tasks_made img s'"
proof -
  let ?s0 = "os_queue_init q (bench_buffer img) 8 s"
  have made0: "tasks_made img ?s0" by (rule tasks_made_init(3) [OF made q])
  have cur: "c < length (os_tasks s)" if "current_tcb s = Some c" for c
    using tasks_made_free(2) [OF made] that by (simp add: settled_def)
  show ?thesis
  proof (cases "s' = ?s0")
    case False
    with steps have fr: "q_frame q ?s0 s'" and ok: "q_ok q s'" by (auto simp: q_from_def)
    have ok0: "q_ok q ?s0" by (rule q_ok_init(1)) (use cur in simp_all)
    have inv: "kinv s'" by (rule kinv_q_frame [OF tasks_made_free(3) [OF made0] fr ok0 ok])
    have tasks: "os_tasks s' = os_tasks ?s0"
      using fr settled_undonated [OF tasks_made_free(2) [OF made0]] by (simp add: q_frame_def)
    have here: "queues ?s0 q = Some \<lparr>q_buffer = bench_buffer img, q_capacity = 8, q_head = 0, q_tail = 0\<rparr>"
      by (simp add: os_queue_init_def Let_def)
    have "ring_frame q ?s0 s'" using fr by (simp add: q_frame_def)
    then have frame: "mem s' b = mem ?s0 b" if "\<forall>i<8. b \<noteq> bench_buffer img + 4 * of_nat i" for b
      using that here by (simp add: ring_frame_def q_addr_def)
    have kept: "mem s' a = mem ?s0 a"
      if "unat (radar_stack img) \<le> unat a" "unat a < unat (radar_stack img) + 1024" for a
    proof (rule frame, intro allI impI notI)
      fix i :: nat assume i: "i < 8" "a = bench_buffer img + 4 * of_nat i"
      with buffer_word [of "bench_buffer img" i] img have "unat a = unat (bench_buffer img) + 4 * i"
        by (simp add: image_ok_def)
      with i(1) that img show False by (auto simp: image_ok_def apart_def)
    qed
    have "shared_made s'"
    proof -
      have m: "dom (mutexes s') = dom (mutexes ?s0)" "dom (sems s') = dom (sems ?s0)"
        using q_frame_doms [OF fr] by simp_all
      have "mutexes s' uart_lock = mutexes ?s0 uart_lock" "queues s' sweep_queue = queues ?s0 sweep_queue"
        "mutexes s' (Queue_Lock sweep_queue) = mutexes ?s0 (Queue_Lock sweep_queue)"
        "sems s' (Queue_Empty sweep_queue) = sems ?s0 (Queue_Empty sweep_queue)"
        "sems s' (Queue_Filled sweep_queue) = sems ?s0 (Queue_Filled sweep_queue)"
        using fr q by (simp_all add: q_frame_def ring_frame_def uart_lock_def)
      then show ?thesis using made0 m by (simp add: tasks_made_def shared_made_def)
    qed
    then show ?thesis
      using made0 inv tasks fr kept radar_words [OF img]
      by (simp add: tasks_made_def q_frame_def quiet_def)
  qed (use made0 in simp)
qed

text \<open>The scheduler picks the radar, however often it is asked.\<close>

definition radar_chosen :: "kernel \<Rightarrow> kernel" where
  "radar_chosen s = s\<lparr>os_tasks := (os_tasks s)[0 := (os_tasks s ! 0)\<lparr>state := RUNNING\<rparr>]\<rparr>"

lemma radar_first:
  assumes made: "tasks_made img s"
  shows "os_scheduler s = Some (radar_chosen s)"
proof -
  note k = tasks_made_free(3) [OF made]
  have M: "task_count s = 3" "current_tcb s = Some 0" "booted {READY, RUNNING} 2 (os_tasks s ! 0)"
    "booted {READY} 1 (os_tasks s ! 1)" "booted {READY} 0 (os_tasks s ! 2)"
    "mem s (stackBase (os_tasks s ! 0)) = STACK_CANARY"
    using made by (simp_all add: tasks_made_def)
  have ready: "sched_ready s" using kinv_sched_ready [OF k] M(1) by simp
  have run0: "runnable_at s 0" using M(1,3) by (auto simp: runnable_def booted_def)
  obtain b where b: "sched_choice s = Some b"
    using run0 set_scan_order [of s] M(1) by (cases "sched_choice s") (auto simp: sched_choice_iff)
  have "prio s 0 \<le> prio s b" "b < 3" using sched_choice_best [OF ready b] run0 M(1) by simp_all
  moreover from this have "b = 0 \<or> b = 1 \<or> b = 2" by auto
  ultimately have "b = 0" using M(3-5) by (auto simp: prio_def booted_def word_le_nat_alt)
  then have "os_scheduler s = Some (s\<lparr>os_tasks := switched (Some 0) 0 (os_tasks s), current_tcb := Some 0\<rparr>)"
    using os_scheduler_eq [OF ready] b M(2,6) by simp
  then show ?thesis using M(2) by (simp add: radar_chosen_def switched_def Let_def)
qed

lemma tasks_made_chosen:
  assumes made: "tasks_made img s"
  shows "tasks_made img (radar_chosen s)"
proof -
  note k = tasks_made_free(3) [OF made]
  have len: "length (os_tasks s) = 6" using waits_okD(1) [OF kinvD(1) [OF k]] by (simp add: model_defs)
  have run0: "runnable_at s 0" using made by (auto simp: runnable_def booted_def tasks_made_def)
  have "kinv (s\<lparr>os_tasks := switched (current_tcb s) 0 (os_tasks s), current_tcb := Some 0\<rparr>)"
    by (rule kinv_switched [OF k run0])
  moreover have "s\<lparr>os_tasks := switched (current_tcb s) 0 (os_tasks s), current_tcb := Some 0\<rparr> = radar_chosen s"
    using made by (simp add: tasks_made_def radar_chosen_def switched_def Let_def)
  ultimately have "kinv (radar_chosen s)" by simp
  with made len show ?thesis by (simp add: tasks_made_def radar_chosen_def booted_def quiet_def shared_made_def)
qed

lemma bench_places: "bench_queue_at \<noteq> sweep_queue" "bench_sem \<notin> {Queue_Empty sweep_queue, Queue_Filled sweep_queue}"
  by (simp_all add: bench_queue_at_def sweep_queue_def bench_sem_def)

interpretation radar_ground: bench_ground "\<lambda>n s. image_ok img \<and> tasks_made img s" bench_mutex_at bench_sem bench_queue_at
    "bench_buffer img" for img
  by unfold_locales
    (use bench_places in \<open>auto intro: tasks_made_free tasks_made_init tasks_made_queue tasks_made_chosen
      simp: radar_first\<close>)

subsection \<open>The launch\<close>

definition clocked :: "kernel \<Rightarrow> kernel" where
  "clocked s = s\<lparr>systick_load := SYS_CLK_HZ div SYSTICK_FREQ - 1, systick_val := 0,
     systick_ctrl := 4 OR 2 OR 1, pendsv_prio := 0xFF, systick_prio := 0xFE\<rparr>"

lemma clocked_frame [simp]:
  "os_tasks (clocked s) = os_tasks s" "task_count (clocked s) = task_count s"
  "current_tcb (clocked s) = current_tcb s" "mutexes (clocked s) = mutexes s" "sems (clocked s) = sems s"
  "mem (clocked s) = mem s" "quiet (clocked s) = quiet s" "shared_made (clocked s) = shared_made s"
  by (simp_all add: clocked_def quiet_def shared_made_def)

lemma kinv_same_objects:
  assumes "os_tasks s' = os_tasks s" "task_count s' = task_count s" "current_tcb s' = current_tcb s"
    "mutexes s' = mutexes s" "sems s' = sems s" "kinv s"
  shows "kinv s'"
proof -
  have eq: "get_wait_array s' r = get_wait_array s r" "get_wait_count s' r = get_wait_count s r" for r
    using assms(4,5) by (cases r; simp)+
  then have "waiters s' r = waiters s r" for r by (simp add: waiters_def)
  with eq assms show ?thesis
    by (simp add: kinv_def waits_ok_def objs_ok_def mutex_ok_def sem_ok_def current_ok_def wait_shape_def)
qed

lemma tasks_made_clocked: "tasks_made img s \<Longrightarrow> tasks_made img (clocked s)"
  using kinv_same_objects [of "clocked s" s] by (simp add: tasks_made_def)

lemma launch_radar:
  assumes made: "tasks_made img s"
  obtains core' s' where "os_kernel_launch core s = Some (core', s')" "sys_inv 2 s'" "running s' 0"
    "halted_in s' = None" "primask s' = 0" "pc core' = radar_entry img"
    "psp core' = stack_top (radar_stack img) STACK_SIZE"
    "current_priority (os_tasks s' ! 0) = 2" "current_priority (os_tasks s' ! 1) = 1"
    "current_priority (os_tasks s' ! 2) = 0" "task_count s' = 3" "shared_made s'"
    "\<forall>t<3. wait_queue (os_tasks s' ! t) = None" "\<not> pendsv s'"
    "\<forall>t<3. base_priority (os_tasks s' ! t) = prio s' t"
proof -
  let ?s1 = "radar_chosen (clocked s)"
  have made1: "tasks_made img ?s1" by (rule tasks_made_chosen [OF tasks_made_clocked [OF made]])
  let ?s2 = "?s1\<lparr>kernel_running := True\<rparr>" and ?top = "stack_top (radar_stack img) STACK_SIZE"
  let ?s3 = "?s2\<lparr>primask := 0\<rparr>"
  have len: "length (os_tasks s) = 6"
    using waits_okD(1) [OF kinvD(1) [OF tasks_made_free(3) [OF made]]] by (simp add: model_defs)
  have M: "task_count ?s1 = 3" "current_tcb ?s1 = Some 0" "quiet ?s1" "booted {READY} 1 (os_tasks ?s1 ! 1)"
    "booted {READY} 0 (os_tasks ?s1 ! 2)" "booted {READY, RUNNING} 2 (os_tasks ?s1 ! 0)"
    "stackPtr (os_tasks ?s1 ! 0) = ?top - 64" "mem ?s1 (?top - 8) = radar_entry img"
    using made1 by (simp_all add: tasks_made_def)
  have run: "state (os_tasks ?s1 ! 0) = RUNNING" using len by (simp add: radar_chosen_def)
  have start: "os_start_first_task core ?s2 = Some (core\<lparr>r0 := ?top, r1 := radar_entry img, r2 := 2, psp := ?top,
      control := 2, pc := radar_entry img\<rparr>, ?s3)"
    by (rule start_first_task_eq [of _ 0]) (use M len in \<open>simp_all add: radar_chosen_def\<close>)
  have launch: "os_kernel_launch core s = os_start_first_task core ?s2"
    using radar_first [OF tasks_made_clocked [OF made]] M(3)
    unfolding os_kernel_launch_def clocked_def [symmetric] by (simp add: quiet_def)
  have inv: "kinv ?s3" by (rule kinv_same_objects [OF _ _ _ _ _ tasks_made_free(3) [OF made1]]) simp_all
  have three: "t < 3 \<longleftrightarrow> t = 0 \<or> t = 1 \<or> t = 2" for t :: nat by auto
  have one: "one_running ?s3" using M(1,2,4,5) by (auto simp: one_running_def three booted_def)
  have "sys_inv 2 ?s3" using inv one M run by (simp add: sys_inv_def runnable_def booted_def running_def)
  then show ?thesis
    using M run made1
    by (intro that [OF launch [unfolded start]])
      (auto simp: running_def booted_def quiet_def tasks_made_def shared_made_def three prio_def)
qed

subsection \<open>The drivers\<close>

lemma uart_init_ready:
  assumes "plain hw USART2_CR1" "responsive hw USART2_SR SR_TXE"
  obtains h' where "uart_init c hw h = Some h'" "uart_ready hw h'"
proof -
  have baud: "compute_uart_baud APB1_CLK DBG_UART_BAUDRATE = Some 139"
    by (simp add: compute_uart_baud_def APB1_CLK_def DBG_UART_BAUDRATE_def)
  have set: "((v OR CR1_UE) OR CR1_TE) AND CR1_UE \<noteq> 0" for v
  proof
    assume "((v OR CR1_UE) OR CR1_TE) AND CR1_UE = 0"
    then have "\<not> bit (((v OR CR1_UE) OR CR1_TE) AND CR1_UE) 13" by simp
    then show False by (simp add: bit_and_iff bit_or_iff CR1_UE_def bit_push_bit_iff)
  qed
  obtain h' where "uart_init c hw h = Some h'" "hw h' USART2_CR1 AND CR1_UE \<noteq> 0"
    using assms(1) set by (simp add: uart_init_def uart_set_baud_rate_def baud Let_def)
  with that assms show ?thesis by (simp add: uart_ready_def)
qed

lemma cr1: "USART2_CR1 \<notin> config_regs port"
  by (simp add: config_regs_def)

lemma servo_init_ready:
  assumes "uart_ready hw h" "port_ok c (GPIOA c)"
  obtains h' where "servo_init c hw h = Some (20000, h')" "uart_ready hw h'"
proof -
  have six: "(6 :: u8) < 16" by simp
  let ?h0 = "set_bits hw RCC_APB1ENR (RCC_APB1ENR_TIM3EN c) h"
  obtain h1 where h1: "gpio_config c hw (GPIOA c) 6 GPIO_AF 2 GPIO_NOPULL ?h0 = Some h1"
    "writes USART2_CR1 h1 = writes USART2_CR1 ?h0"
    using gpio_config_writes [OF six assms(2) cr1] by blast
  obtain h' where "servo_init c hw h = Some (20000, h')" "writes USART2_CR1 h' = writes USART2_CR1 h"
    using h1 by (simp add: servo_init_def pwm_init_def pwm_set_pulse_us_def Let_def)
  with that uart_ready_quiet [OF assms(1)] show ?thesis by blast
qed

lemma ultrasonic_init_some:
  assumes "port_ok c (GPIOA c)"
  obtains h' where "ultrasonic_init c hw h = Some h'" "writes USART2_CR1 h' = writes USART2_CR1 h"
proof -
  have pins: "TRIG_PIN < 16" "ECHO_PIN < 16" by (simp_all add: TRIG_PIN_def ECHO_PIN_def)
  let ?h0 = "set_bits hw RCC_APB1ENR (RCC_APB1ENR_TIM2EN c) h"
  obtain h1 where h1: "gpio_config c hw (GPIOA c) TRIG_PIN GPIO_OUTPUT 0 GPIO_NOPULL ?h0 = Some h1"
    "writes USART2_CR1 h1 = writes USART2_CR1 ?h0"
    using gpio_config_writes [OF pins(1) assms cr1] by blast
  obtain h2 where h2: "gpio_config c hw (GPIOA c) ECHO_PIN GPIO_AF 1 GPIO_NOPULL h1 = Some h2"
    "writes USART2_CR1 h2 = writes USART2_CR1 h1"
    using gpio_config_writes [OF pins(2) assms cr1] by blast
  show ?thesis using that h1 h2 by (simp add: ultrasonic_init_def Let_def)
qed

subsection \<open>From reset to the first task\<close>

lemma main_boots:
  assumes img: "image_ok img" and port: "port_ok c (GPIOA c)"
    and uart: "plain hw USART2_CR1" "responsive hw USART2_SR SR_TXE"
  obtains core' b where "main c hw img core (reset_state m cr, h) = Some (core', b)"
    "pc core' = radar_entry img" "psp core' = stack_top (radar_stack img) STACK_SIZE"
    "running (krn b) 0" "primask (krn b) = 0" "pwm_period_us b = 20000" "task_count (krn b) = 3"
    "map (prio (krn b)) [0, 1, 2] = [2, 1, 0]" "sys_inv 2 (krn b)" "halted_in (krn b) = None"
    "\<not> pendsv (krn b)" "shared_made (krn b)" "\<forall>t<3. wait_queue (os_tasks (krn b) ! t) = None" "uart_ready hw (hst b)"
    "\<forall>t<3. base_priority (os_tasks (krn b) ! t) = prio (krn b) t"
proof -
  let ?s0 = "os_kernel_init (reset_state m cr)"
  obtain h1 where h1: "uart_init c hw h = Some h1" "uart_ready hw h1" by (rule uart_init_ready [OF uart])
  obtain s2 h2 where b2: "microbench_init c hw ping_sem pong_sem (?s0, h1) = (s2, h2)" by (metis surj_pair)
  have s2: "unpopulated s2" and h2: "uart_ready hw h2"
    using b2 unpopulated_init(2) unpopulated_boot uart_ready_quiet [OF h1(2), of h2]
    by (auto simp: microbench_init_def Let_def)
  obtain h3 where h3: "uart_print hw boot_banner h2 = Some h3" "sends (codes boot_banner) h2 h3" "uart_ready hw h3"
    by (rule print_codes [OF h2])
  obtain s3 where s3: "os_run_post post_mutex post_sem post_queue (post_buffer img) s2 = Some (Passed, s3)"
    "unpopulated s3" by (rule unpopulated_post [OF s2])
  obtain h4 where h4: "servo_init c hw h3 = Some (20000, h4)" "uart_ready hw h4"
    by (rule servo_init_ready [OF h3(3) port])
  obtain h5 where h5: "ultrasonic_init c hw h4 = Some h5" "writes USART2_CR1 h5 = writes USART2_CR1 h4"
    by (rule ultrasonic_init_some [OF port])
  have on5: "uart_ready hw h5" by (rule uart_ready_quiet [OF h4(2) h5(2)])
  let ?s4 = "os_mutex_init uart_lock (os_semaphore_init echo_ready 0 1
    (os_queue_init sweep_queue (sweep_queue_buffer img) 8 s3))"
  have un4: "unpopulated ?s4" by (intro unpopulated_init s3(2)) simp
  obtain s5 s6 s7 where made:
    "os_task_create (radar_entry img) (radar_stack img) STACK_SIZE 2 ?s4 = Some (True, s5)"
    "os_task_create (sweep_entry img) (sweep_stack img) STACK_SIZE 1 s5 = Some (True, s6)"
    "os_task_create (idle_entry img) (idle_stack img) STACK_SIZE 0 s6 = Some (True, s7)"
    "tasks_made img s7"
    using create_tasks [OF un4 shared_made_main img] by blast
  obtain s8 h8 where s8: "microbench_run_all hw bench_mutex_at bench_sem bench_queue_at (bench_buffer img) (s7, h5)
      = Some (s8, h8)" "tasks_made img s8" "uart_ready hw h8"
    using radar_ground.run_all [of img s7 hw h5] img made(4) on5 by auto
  obtain core' s9 where s9: "os_kernel_launch core s8 = Some (core', s9)" "sys_inv 2 s9" "running s9 0"
    "halted_in s9 = None" "primask s9 = 0" "pc core' = radar_entry img"
    "psp core' = stack_top (radar_stack img) STACK_SIZE"
    "current_priority (os_tasks s9 ! 0) = 2" "current_priority (os_tasks s9 ! 1) = 1"
    "current_priority (os_tasks s9 ! 2) = 0" "task_count s9 = 3" "shared_made s9"
    "\<forall>t<3. wait_queue (os_tasks s9 ! t) = None" "\<not> pendsv s9"
    "\<forall>t<3. base_priority (os_tasks s9 ! t) = prio s9 t"
    by (rule launch_radar [OF s8(2)])
  have "main c hw img core (reset_state m cr, h) =
      Some (core', \<lparr>krn = s9, ech = echo_zero, pwm_period_us = 20000, hst = h8\<rparr>)"
    using h1(1) b2 h3(1) s3(1) h4(1) h5(1) made(1-3) s8(1) s9(1) by (simp add: main_def Let_def)
  then show ?thesis using that s9 s8(3) by (simp add: prio_def)
qed

end
