(* ===== verification/Boot_Properties.thy ===== *)
theory Boot_Properties
  imports Boot Hardware_Samples
begin

text \<open>The properties of the boot, of the radar's line and of the benchmark report.\<close>

subsection \<open>The boot\<close>

text \<open>C12: from reset, whatever memory and device registers hold, the firmware boots: the self-test
  passes, the benchmarks run, and the launch enters the radar task at its entry point, on an
  empty stack of its own, with interrupts on and a 20 ms servo frame. The kernel it enters
  satisfies the system invariant with the idle task as task 2, and so does every state it can
  reach from there.\<close>
theorem boot_starts_system:
  assumes img: "image_ok img" and port: "port_ok c (GPIOA c)"
    and uart: "plain hw USART2_CR1" "responsive hw USART2_SR SR_TXE"
  shows "\<exists>core' b. main c hw img core (reset_state m cr, h) = Some (core', b) \<and>
    pc core' = radar_entry img \<and> psp core' = stack_top (radar_stack img) STACK_SIZE \<and>
    running (krn b) 0 \<and> primask (krn b) = 0 \<and> pwm_period_us b = 20000 \<and> task_count (krn b) = 3 \<and>
    map (prio (krn b)) [0, 1, 2] = [2, 1, 0] \<and> sys_inv 2 (krn b) \<and>
    (\<forall>s. reachable 2 (krn b) s \<longrightarrow> sys_inv 2 s)"
proof -
  obtain core' b where "main c hw img core (reset_state m cr, h) = Some (core', b)"
    "pc core' = radar_entry img" "psp core' = stack_top (radar_stack img) STACK_SIZE"
    "running (krn b) 0" "primask (krn b) = 0" "pwm_period_us b = 20000" "task_count (krn b) = 3"
    "map (prio (krn b)) [0, 1, 2] = [2, 1, 0]" "sys_inv 2 (krn b)"
    by (rule main_boots [OF assms])
  then show ?thesis using reachable_sys_inv [of 2 "krn b"]
    by (intro exI [of _ core'] exI [of _ b]) simp
qed

definition board_image :: image where
  "board_image = \<lparr>radar_entry = 0x08001001, sweep_entry = 0x08001101, idle_entry = 0x08001201,
     radar_stack = 0x20000400, sweep_stack = 0x20000800, idle_stack = 0x20000C00,
     sweep_queue_buffer = 0x20001000, post_buffer = 0x20017F00, bench_buffer = 0x20017F40\<rparr>"

definition uart_off_hw :: hardware where
  "uart_off_hw = with_flags [USART2_SR \<mapsto> 0x80] (\<lambda>_. 0)"

definition reset_cpu :: cpu where
  "reset_cpu = \<lparr>r0 = 0, r1 = 0, r2 = 0, r3 = 0, r12 = 0, lr = 0xFFFFFFFF, pc = 0x08000200,
     xpsr = 0x01000000, hi = replicate 8 0, psp = 0, control = 0\<rparr>"

lemma board_boots:
  "image_ok board_image" "port_ok board_cmsis (GPIOA board_cmsis)" "plain uart_off_hw USART2_CR1"
  "responsive uart_off_hw USART2_SR SR_TXE"
proof -
  show "image_ok board_image" by (simp add: image_ok_def board_image_def apart_def)
  show "port_ok board_cmsis (GPIOA board_cmsis)" by (simp add: port_ok_def board_cmsis_def)
  show "plain uart_off_hw USART2_CR1" by (simp add: uart_off_hw_def with_flags_plain)
  show "responsive uart_off_hw USART2_SR SR_TXE"
    unfolding uart_off_hw_def by (rule with_flags_responsive [where x = "0x80"]) (simp_all add: SR_TXE_def)
qed

theorem boot_starts_system_witness:
  "\<exists>core' b. main board_cmsis uart_off_hw board_image reset_cpu (reset_state (\<lambda>_. 0) 0, []) = Some (core', b) \<and>
    pc core' = radar_entry board_image \<and> psp core' = stack_top (radar_stack board_image) STACK_SIZE \<and>
    running (krn b) 0 \<and> primask (krn b) = 0 \<and> pwm_period_us b = 20000 \<and> task_count (krn b) = 3 \<and>
    map (prio (krn b)) [0, 1, 2] = [2, 1, 0] \<and> sys_inv 2 (krn b) \<and>
    (\<forall>s. reachable 2 (krn b) s \<longrightarrow> sys_inv 2 s)"
  by (rule boot_starts_system [OF board_boots])

subsection \<open>What the firmware prints\<close>

text \<open>C40: the report of a benchmark prints the cycle count in decimal and the same time in
  microseconds with one decimal place, exact to the tenth below, on an enabled UART.\<close>
theorem bench_report_exact:
  assumes "uart_ready hw h"
  shows "\<exists>h' us tenths. report hw name cycles h = Some h' \<and>
    sends (codes ''[Bench] '' @ codes name @ codes '': '' @ number_bytes cycles @ codes '' cycles ('' @
      number_bytes us @ codes ''.'' @ number_bytes tenths @ codes ('' us)'' @ [CHR 0x0D, CHR 0x0A])) h h' \<and>
    parse_decimal (number_bytes cycles) = unat cycles \<and> length (number_bytes tenths) = 1 \<and>
    10 * parse_decimal (number_bytes us) + parse_decimal (number_bytes tenths) = 10 * unat cycles div 16"
proof -
  obtain h' where "report hw name cycles h = Some h'" "uart_ready hw h'"
    "sends (codes ''[Bench] '' @ codes name @ codes '': '' @ number_bytes cycles @ codes '' cycles ('' @
       number_bytes (whole_us cycles) @ codes ''.'' @ number_bytes (tenths_us cycles) @
       codes ('' us)'' @ [CHR 0x0D, CHR 0x0A])) h h'"
    by (rule report_sends [OF assms])
  moreover have "length (number_bytes (tenths_us cycles)) = 1"
    using report_exact(1) [of cycles] by (rule one_digit)
  ultimately show ?thesis
    using report_exact(2) [of cycles]
    by (intro exI [of _ h'] exI [of _ "whole_us cycles"] exI [of _ "tenths_us cycles"])
      (simp add: number_bytes_parse)
qed

definition uart_on_hw :: hardware where
  "uart_on_hw = with_flags [USART2_SR \<mapsto> 0x80] (\<lambda>r. if r = USART2_CR1 then 0x2008 else 0)"

lemma uart_on_ready: "uart_ready uart_on_hw []"
proof -
  have "plain uart_on_hw USART2_CR1" by (simp add: uart_on_hw_def with_flags_plain)
  moreover have "responsive uart_on_hw USART2_SR SR_TXE"
    unfolding uart_on_hw_def by (rule with_flags_responsive [where x = "0x80"]) (simp_all add: SR_TXE_def)
  moreover have "uart_on_hw [] USART2_CR1 AND CR1_UE \<noteq> 0"
    by (simp add: uart_on_hw_def with_flags_def memory_like_def held_def CR1_UE_def)
  ultimately show ?thesis by (simp add: uart_ready_def)
qed

theorem bench_report_exact_witness:
  "\<exists>h' us tenths. report uart_on_hw ''Mutex'' 1234 [] = Some h' \<and>
    sends (codes ''[Bench] '' @ codes ''Mutex'' @ codes '': '' @ number_bytes 1234 @ codes '' cycles ('' @
      number_bytes us @ codes ''.'' @ number_bytes tenths @ codes ('' us)'' @ [CHR 0x0D, CHR 0x0A])) [] h' \<and>
    parse_decimal (number_bytes 1234) = unat (1234 :: u32) \<and> length (number_bytes tenths) = 1 \<and>
    10 * parse_decimal (number_bytes us) + parse_decimal (number_bytes tenths) = 10 * unat (1234 :: u32) div 16"
  by (rule bench_report_exact [OF uart_on_ready])

end
