(* ===== verification/Firmware_Properties.thy ===== *)
theory Firmware_Properties
  imports Firmware_Priorities Boot_Properties
begin

text \<open>
  The properties of the whole firmware, from reset on: whatever the interleaving of the
  three tasks with the tick, the echo capture and the context switch.
\<close>

subsection \<open>The boot establishes the invariant\<close>

lemma launched_ok:
  assumes sys: "sys_inv 2 (krn b)" "task_count (krn b) = 3" and made: "shared_made (krn b)"
    and free: "\<forall>t<3. wait_queue (os_tasks (krn b) ! t) = None" and uart: "uart_ready hw (hst b)"
  shows "fw_ok hw (writes USART2_DR (hst b)) (launched b)"
proof -
  have "holder (krn b) uart_lock = None" using made by (auto simp: shared_made_def holder_def)
  then have away: "seat (krn b) uart_lock t = Away" if "t < 3" for t using free that by (simp add: seat_simps)
  have "objects_made (krn b)" "ring_good (krn b)" using made by (auto simp: shared_made_def objects_made_def ring_good_def)
  moreover have "in_lines base [] [] base" for base unfolding in_lines_def by (intro exI [of _ "[]"]) simp
  ultimately show ?thesis
    using sys uart away by (simp add: fw_ok_def launched_def kernel_ok_def placed_def claims_outside)
qed

lemma launched_queue:
  assumes sys: "sys_inv 2 (krn b)" "task_count (krn b) = 3" and made: "shared_made (krn b)"
    and free: "\<forall>t<3. wait_queue (os_tasks (krn b) ! t) = None"
  shows "fw_queue (launched b)"
proof -
  have "holder (krn b) queue_lock = None" using made by (auto simp: shared_made_def holder_def)
  then have away: "seat (krn b) queue_lock t = Away" if "t < 3" for t using free that by (simp add: seat_simps)
  have "waiters (krn b) k = []" for k using sys free by (intro no_waiters) (simp_all add: sys_inv_def)
  moreover have "account sweep_queue 8 (krn b) (Q_done OS_SUCCESS None) (Q_done OS_SUCCESS None)"
    using made by (auto simp: shared_made_def account_def in_ring_def tokens_def max_tokens_def)
  ultimately show ?thesis
    using away by (simp add: fw_queue_def queue_ok_def launched_def client_def claims_outside poised_outside unwaited_def)
qed

lemma launched_prio:
  assumes made: "shared_made (krn b)" and free: "\<forall>t<3. wait_queue (os_tasks (krn b) ! t) = None"
    and prio: "map (prio (krn b)) [0, 1, 2] = [2, 1, 0]"
    and base: "\<forall>t<3. base_priority (os_tasks (krn b) ! t) = prio (krn b) t"
  shows "prio_ok (krn b)"
proof -
  have "holder (krn b) m = None" if "m \<in> locks" for m using made that by (auto simp: shared_made_def holder_def)
  moreover from this have "seat (krn b) m t = Away" if "m \<in> locks" "t < 3" for m t
    using free that by (simp add: seat_simps)
  ultimately show ?thesis using prio base by (auto simp: prio_ok_def ranks_def prio_def)
qed

lemma main_launches:
  assumes "image_ok img" "port_ok c (GPIOA c)" "plain hw USART2_CR1" "responsive hw USART2_SR SR_TXE"
    and main: "main c hw img core (reset_state m cr, h) = Some (core', b)"
  shows "fw_ok hw (writes USART2_DR (hst b)) (launched b)" "on_cpu (krn b) 0" "fw_queue (launched b)"
    "prio_ok (krn b)"
proof -
  obtain core'' b' where "main c hw img core (reset_state m cr, h) = Some (core'', b')"
    "sys_inv 2 (krn b')" "task_count (krn b') = 3" "shared_made (krn b')" "uart_ready hw (hst b')"
    "\<forall>t<3. wait_queue (os_tasks (krn b') ! t) = None" "running (krn b') 0" "halted_in (krn b') = None"
    "\<not> pendsv (krn b')" "map (prio (krn b')) [0, 1, 2] = [2, 1, 0]"
    "\<forall>t<3. base_priority (os_tasks (krn b') ! t) = prio (krn b') t"
    by (rule main_boots [OF assms(1-4)])
  with main show "fw_ok hw (writes USART2_DR (hst b)) (launched b)" "on_cpu (krn b) 0" "fw_queue (launched b)"
    "prio_ok (krn b)"
    by (simp_all add: launched_ok launched_queue launched_prio on_cpu_def del: list.map)
qed

text \<open>The sample board, booted, and the first step of its radar task.\<close>

lemma board_launched:
  obtains core' b w where "main board_cmsis uart_off_hw board_image reset_cpu (reset_state (\<lambda>_. 0) 0, []) = Some (core', b)"
    "fw_enabled (Run 0) (launched b)" "fw_step board_cmsis uart_off_hw (launched b) (Run 0) w"
proof -
  obtain core' b where main: "main board_cmsis uart_off_hw board_image reset_cpu (reset_state (\<lambda>_. 0) 0, []) = Some (core', b)"
    using main_boots [OF board_boots] by metis
  note up = main_launches [OF board_boots main]
  have en: "fw_enabled (Run 0) (launched b)" using up(2) by (simp add: launched_def)
  obtain w where "fw_exec board_cmsis uart_off_hw (Run 0) (launched b) = Some w" by (rule fw_exec_ok [OF up(1) en])
  with that [OF main en] en show ?thesis by (simp add: fw_step_iff)
qed

subsection \<open>The firmware never gets stuck\<close>

text \<open>C4: the state of the firmware stays well-typed and every event that can happen is defined:
  after any boot and any interleaving of task steps, ticks, echo captures and context
  switches, the next step of the running task and every interrupt has a result (no call on an
  uninitialised object, no index outside an array, no missing message, no endless wait for
  the UART), and that result keeps the kernel's invariant and the shared objects.\<close>
theorem firmware_never_stuck:
  assumes "image_ok img" "port_ok c (GPIOA c)" "plain hw USART2_CR1" "responsive hw USART2_SR SR_TXE"
    and "main c hw img core (reset_state m cr, h) = Some (core', b)"
    and "fw_reachable c hw (launched b) w" "fw_enabled e w"
  shows "\<exists>w'. fw_exec c hw e w = Some w' \<and> kernel_ok (krn (brd w')) \<and> radar_typed (fst (rdr w')) \<and>
    uart_ready hw (hst (brd w')) \<and> fw_reachable c hw (launched b) w'"
proof -
  have ok: "fw_ok hw (writes USART2_DR (hst b)) w"
    by (rule fw_reachable_ok [OF assms(6) main_launches(1) [OF assms(1-5)]])
  obtain w' where w': "fw_exec c hw e w = Some w'" "fw_ok hw (writes USART2_DR (hst b)) w'"
    by (rule fw_exec_ok [OF ok assms(7)])
  moreover have "fw_reachable c hw (launched b) w'"
    using fw_reachable.later [OF assms(6)] assms(7) w'(1) by (simp add: fw_step_iff)
  ultimately show ?thesis using fw_okD(1-3) [OF w'(2)] by blast
qed

theorem firmware_never_stuck_witness:
  "\<exists>core' b w. main board_cmsis uart_off_hw board_image reset_cpu (reset_state (\<lambda>_. 0) 0, []) = Some (core', b) \<and>
    fw_exec board_cmsis uart_off_hw (Run 0) (launched b) = Some w \<and> kernel_ok (krn (brd w)) \<and>
    uart_ready uart_off_hw (hst (brd w))"
proof -
  obtain core' b w where run: "main board_cmsis uart_off_hw board_image reset_cpu (reset_state (\<lambda>_. 0) 0, []) = Some (core', b)"
    "fw_enabled (Run 0) (launched b)" "fw_step board_cmsis uart_off_hw (launched b) (Run 0) w" by (rule board_launched)
  from firmware_never_stuck [OF board_boots run(1) fw_reachable.start run(2)] run(1) show ?thesis by metis
qed

subsection \<open>Log lines never interleave\<close>

lemma begun_line:
  assumes "begun prints p \<noteq> []" "\<And>pt. prints pt \<noteq> [] \<Longrightarrow> log_line (prints pt)"
  shows "\<exists>more. log_line (begun prints p @ more)"
proof -
  obtain pt out where p: "p = (pt, out)" by (cases p)
  with assms(1) have "prints pt \<noteq> []" by auto
  with assms(2) have "log_line (begun prints p @ drop (length (prints pt) - length out) (prints pt))"
    by (simp add: p begun_def)
  then show ?thesis ..
qed

text \<open>C5: what has gone over the UART since the boot is a sequence of whole log lines, each the
  banner of the sweep task or a line of the radar task with its two numbers in decimal,
  followed by the beginning of at most one more line; if such a line has been begun, the task
  that prints it holds the UART's mutex.\<close>
theorem log_lines_whole:
  assumes "image_ok img" "port_ok c (GPIOA c)" "plain hw USART2_CR1" "responsive hw USART2_SR SR_TXE"
    and "main c hw img core (reset_state m cr, h) = Some (core', b)"
    and "fw_reachable c hw (launched b) w"
  shows "\<exists>ls part. writes USART2_DR (hst (brd w)) = writes USART2_DR (hst b) @ concat ls @ part \<and>
    list_all log_line ls \<and>
    (part = [] \<or> (\<exists>t more. log_line (part @ more) \<and> holder (krn (brd w)) uart_lock = Some t \<and> t < 2))"
proof -
  have ok: "fw_ok hw (writes USART2_DR (hst b)) w"
    by (rule fw_reachable_ok [OF assms(6) main_launches(1) [OF assms(1-5)]])
  note O = fw_okD [OF ok]
  let ?x = "begun sweep_prints (swp w)" and ?y = "begun radar_prints (rdr w)"
  obtain ls where ls: "list_all log_line ls"
    "writes USART2_DR (hst (brd w)) = writes USART2_DR (hst b) @ concat ls @ ?x @ ?y"
    using O(7) by (auto simp: in_lines_def list_all_iff)
  have one: "?x = [] \<or> ?y = []"
    using sweep.not_printing [OF O(5)] radar.not_printing [OF O(4)] holding_alone [of _ _ 0 1] by fastforce
  have "\<exists>more. log_line (?x @ more)" if "?x \<noteq> []"
    by (rule begun_line) (use that prints_line(1) in auto)
  moreover have "\<exists>more. log_line (?y @ more)" if "?y \<noteq> []"
    by (rule begun_line) (use that prints_line(2) in auto)
  moreover have "?x \<noteq> [] \<Longrightarrow> holder (krn (brd w)) uart_lock = Some 1"
    using sweep.not_printing [OF O(5)] by (auto simp: seat_simps)
  moreover have "?y \<noteq> [] \<Longrightarrow> holder (krn (brd w)) uart_lock = Some 0"
    using radar.not_printing [OF O(4)] by (auto simp: seat_simps)
  ultimately show ?thesis
    using one ls by (intro exI [of _ ls] exI [of _ "?x @ ?y"]) fastforce
qed

theorem log_lines_whole_witness:
  "\<exists>core' b w ls part. main board_cmsis uart_off_hw board_image reset_cpu (reset_state (\<lambda>_. 0) 0, []) = Some (core', b) \<and>
    fw_step board_cmsis uart_off_hw (launched b) (Run 0) w \<and>
    writes USART2_DR (hst (brd w)) = writes USART2_DR (hst b) @ concat ls @ part \<and> list_all log_line ls"
proof -
  obtain core' b w where run: "main board_cmsis uart_off_hw board_image reset_cpu (reset_state (\<lambda>_. 0) 0, []) = Some (core', b)"
    "fw_enabled (Run 0) (launched b)" "fw_step board_cmsis uart_off_hw (launched b) (Run 0) w" by (rule board_launched)
  from log_lines_whole [OF board_boots run(1) fw_reachable.later [OF fw_reachable.start run(3)]] run(1,3)
  show ?thesis by metis
qed

subsection \<open>The angle queue balances\<close>

text \<open>C6: the angle queue is consistent at every moment, in the middle of a send and of a receive
  too: its indices are \<open>n\<close> slots apart, where \<open>n\<close> counts the messages announced by the
  semaphore, the one the radar has claimed but not yet read, and the one the sweep has written
  but not yet announced; \<open>n\<close>, the free slots and the slots in transit add up to the capacity. So a
  receive never reads a slot that holds no message. The two tasks are never both between the
  acquire and the release of the queue's mutex.\<close>
theorem queue_accounts:
  assumes "image_ok img" "port_ok c (GPIOA c)" "plain hw USART2_CR1" "responsive hw USART2_SR SR_TXE"
    and "main c hw img core (reset_state m cr, h) = Some (core', b)"
    and "fw_reachable c hw (launched b) w"
    and "s = krn (brd w)" "p = sweep_call (fst (swp w))" "r = radar_call (fst (rdr w))"
  shows "\<exists>x n. queues s sweep_queue = Some x \<and> q_capacity x = 8 \<and> q_tail x < 8 \<and>
    unat (q_head x) = (unat (q_tail x) + n) mod 8 \<and>
    n = unat (tokens s (Queue_Filled sweep_queue)) + msg_unposted p + msg_held r \<and>
    n + unat (tokens s (Queue_Empty sweep_queue)) + slot_held p + slot_unposted r = 8 \<and>
    \<not> (in_section p \<and> \<not> at_lock_wait p \<and> in_section r \<and> \<not> at_lock_wait r)"
proof -
  note L = main_launches [OF assms(1-5)]
  have "fw_queue w" by (rule fw_reachable_queue [OF assms(6) L(1,3)])
  then have q: "account sweep_queue 8 s p r" "client 1 p s" "client 0 r s"
    using assms(7-9) by (simp_all add: fw_queue_def queue_ok_def)
  have "\<not> (in_section p \<and> \<not> at_lock_wait p \<and> in_section r \<and> \<not> at_lock_wait r)"
    using q(2,3) holding_alone [of s queue_lock 1 0] by (auto simp: client_def poised_def)
  with q(1) show ?thesis by (auto simp: account_def in_ring_def)
qed

theorem queue_accounts_witness:
  "\<exists>core' b w x n. main board_cmsis uart_off_hw board_image reset_cpu (reset_state (\<lambda>_. 0) 0, []) = Some (core', b) \<and>
    fw_step board_cmsis uart_off_hw (launched b) (Run 0) w \<and> queues (krn (brd w)) sweep_queue = Some x \<and>
    unat (q_head x) = (unat (q_tail x) + n) mod 8"
proof -
  obtain core' b w where run: "main board_cmsis uart_off_hw board_image reset_cpu (reset_state (\<lambda>_. 0) 0, []) = Some (core', b)"
    "fw_enabled (Run 0) (launched b)" "fw_step board_cmsis uart_off_hw (launched b) (Run 0) w" by (rule board_launched)
  from queue_accounts [OF board_boots run(1) fw_reachable.later [OF fw_reachable.start run(3)] refl refl refl] run(1,3)
  show ?thesis by metis
qed

subsection \<open>No priority inversion\<close>

lemma waiters_outranked:
  assumes ok: "kernel_ok s" and P: "prio_ok s" and C: "all_claims s inside" and k: "k \<in> locks"
    and w: "waiter \<in> set (waiters s (MutexQ k))"
  shows "\<exists>t o'. waiter = Some t \<and> holder s k = Some o' \<and> o' \<noteq> t \<and> runnable_at s o' \<and> prio s t \<le> prio s o'"
proof -
  have K: "kinv s" "tc s = 3" "mutexes s k \<noteq> None"
    using ok k by (auto simp: kernel_ok_def sys_inv_def objects_made_def)
  have idle: "seat s k 2 = Away" using C k by (auto simp: all_claims_def)
  obtain t where t: "waiter = Some t" "t < 3" using waits_okD(7) [OF kinvD(1) [OF K(1)] w] K(2) by auto
  have "wait_queue (os_tasks s ! t) = Some (MutexQ k)"
    using waits_okD(8) [OF kinvD(1) [OF K(1)], of t "MutexQ k"] w t K(2) by simp
  moreover have "holder s k \<noteq> Some t" using holder_waits_not(2) [OF K(1)] w t(1) by blast
  ultimately have seat: "seat s k t = Waiting" by (simp add: seat_simps)
  have "t < tc s" using t(2) K(2) by simp
  then obtain o' where o': "holder s k = Some o'" "o' < tc s" "o' \<noteq> t" by (rule waiting_held [OF K(1,3) seat])
  have two: "t < 2" "o' < 2"
    using below_three [OF t(2)] below_three [of o'] o' K(2) seat idle by (auto simp: seat_simps)
  have "seat s k o' = Holding" using o'(1) by (simp add: seat_simps)
  with P k two(2) have run: "runnable_at s o'" by (auto simp: prio_ok_def)
  have pr: "prio s 0 = 2" "prio s 1 \<in> {1, 2}" using P by (auto simp: prio_ok_def ranks_def prio_def)
  have "prio s t \<le> prio s o'"
  proof (cases "t = 0")
    case True
    then have "o' = 1" using two(2) o'(3) by auto
    moreover have "prio s 1 = 2" using P k seat True by (auto simp: prio_ok_def)
    ultimately show ?thesis using True pr by simp
  next
    case False
    then have "t = 1" "o' = 0" using two o'(3) by auto
    with pr show ?thesis by (auto simp: word_le_nat_alt)
  qed
  with t(1) o' run show ?thesis by blast
qed

text \<open>C7: whoever waits for the mutex of the UART or of the queue waits for a task that is ready to
  run at no less than the waiter's own priority, so that by the scheduler's choice no task of
  a priority in between keeps the mutex from being released. The priority the sweep inherits
  is the radar's and never another, and it has it only while it holds one of the two mutexes.\<close>
theorem no_priority_inversion:
  assumes "image_ok img" "port_ok c (GPIOA c)" "plain hw USART2_CR1" "responsive hw USART2_SR SR_TXE"
    and "main c hw img core (reset_state m cr, h) = Some (core', b)"
    and "fw_reachable c hw (launched b) w"
    and "s = krn (brd w)" "k = uart_lock \<or> k = Queue_Lock sweep_queue"
  shows "list_all (\<lambda>waiter. \<exists>t o'. waiter = Some t \<and> holder s k = Some o' \<and> o' \<noteq> t \<and>
      runnable_at s o' \<and> prio s t \<le> prio s o') (waiters s (MutexQ k)) \<and>
    prio s 0 = 2 \<and> (prio s 1 = 1 \<or>
      prio s 1 = 2 \<and> (holder s uart_lock = Some 1 \<or> holder s (Queue_Lock sweep_queue) = Some 1))"
proof -
  note L = main_launches [OF assms(1-5)]
  have P: "prio_ok s" using fw_reachable_prio [OF assms(6) L(1,3)] L(4) assms(7) by (simp add: launched_def)
  have F: "fw_ok hw (writes USART2_DR (hst b)) w" by (rule fw_reachable_ok [OF assms(6) L(1)])
  have "fw_queue w" by (rule fw_reachable_queue [OF assms(6) L(1,3)])
  then have C: "all_claims s (inside_of w)" using firmware_claims [OF F] assms(7) by simp
  have "kernel_ok s" using fw_okD(1) [OF F] assms(7) by simp
  moreover have "k \<in> locks" using assms(8) by simp
  ultimately show ?thesis
    using waiters_outranked [OF _ P C] P by (auto simp: list_all_iff prio_ok_def ranks_def prio_def)
qed

theorem no_priority_inversion_witness:
  "\<exists>core' b w. main board_cmsis uart_off_hw board_image reset_cpu (reset_state (\<lambda>_. 0) 0, []) = Some (core', b) \<and>
    fw_step board_cmsis uart_off_hw (launched b) (Run 0) w \<and> prio (krn (brd w)) 0 = 2"
proof -
  obtain core' b w where run: "main board_cmsis uart_off_hw board_image reset_cpu (reset_state (\<lambda>_. 0) 0, []) = Some (core', b)"
    "fw_enabled (Run 0) (launched b)" "fw_step board_cmsis uart_off_hw (launched b) (Run 0) w" by (rule board_launched)
  from no_priority_inversion [OF board_boots run(1) fw_reachable.later [OF fw_reachable.start run(3)] refl disjI1 [OF refl]]
    run(1,3) show ?thesis by metis
qed

end
