(* ===== verification/Sem_Places.thy ===== *)
theory Sem_Places
  imports Priorities
begin

text \<open>
  A task and the one semaphore it ever waits for, without a time limit: what each event of the
  kernel does to the pair. Used for the two tasks of the context-switch benchmark.
\<close>

subsection \<open>The place of a task\<close>

abbreviation wq :: "kernel \<Rightarrow> tid \<Rightarrow> wref option" where
  "wq s t \<equiv> wait_queue (os_tasks s ! t)"

text \<open>It waits for nothing else, and then without a deadline; off the queue it runs or sleeps.\<close>

definition at_sem :: "kernel \<Rightarrow> tid \<Rightarrow> saddr \<Rightarrow> bool" where
  "at_sem s t a \<longleftrightarrow> (wq s t = None \<and> (runnable_at s t \<or> sleep_time (os_tasks s ! t) \<noteq> 0)) \<or>
     (wq s t = Some (SemQ a) \<and> sleep_time (os_tasks s ! t) = 0)"

definition place :: "kernel \<Rightarrow> tid \<Rightarrow> saddr \<Rightarrow> bool \<times> u32" where
  "place s t a = (wq s t \<noteq> None, tokens s a)"

lemma wakes_waits:
  assumes "kinv s" "wakes s e = Some t"
  shows "\<exists>r. wq s t = Some r \<and> (e = Give a \<or> e = Isr_give a \<longrightarrow> r = SemQ a)"
    and "e \<noteq> Give a \<Longrightarrow> e \<noteq> Isr_give a \<Longrightarrow> wq s t \<noteq> Some (SemQ a)"
  using assms(2) picked_waits(3) [OF kinvD(1) [OF assms(1)]]
  by (cases e; auto simp: next_owner_def next_waiter_def)+

fun at_it :: "saddr \<Rightarrow> event \<Rightarrow> bool" where
  "at_it a (Take b _) = (b = a)"
| "at_it a (Give b) = (b = a)"
| "at_it a (Isr_give b) = (b = a)"
| "at_it a _ = False"

lemma not_at_it: "\<not> at_it a e \<Longrightarrow> e \<noteq> Give a \<and> e \<noteq> Isr_give a"
  by auto

lemma tokens_not_at_it: "\<not> at_it a e \<Longrightarrow> tokens_after s e a = tokens s a"
  by (cases e) (auto simp: given_def)

lemma place_kept:
  assumes inv: "sys_inv idle s" and en: "enabled idle s e" and ex: "exec e s = Some s'" and t: "t < tc s"
    and at: "at_sem s t a" and off: "\<not> at_it a e"
    and own: "by_thread e \<Longrightarrow> current_tcb s = Some t \<Longrightarrow> parks_in e = None"
  shows "at_sem s' t a \<and> place s' t a = place s t a"
proof -
  have K: "kinv s" using inv by (simp add: sys_inv_def)
  have run: "running s t \<and> wq s t = None" if "by_thread e" "current_tcb s = Some t"
  proof -
    have "running s t" using en that by (simp add: enabled_def)
    with running_free [OF kinvD(1) [OF K]] show ?thesis by simp
  qed
  have tk: "tokens s' a = tokens s a"
    using exec_views [OF inv en ex] tokens_not_at_it [OF off] by (simp add: views_def)
  have W: "waits_after s e t (os_tasks s' ! t)" by (rule exec_waits [OF inv en ex t])
  have still: "runnable_at s' t \<or> sleep_time (os_tasks s' ! t) \<noteq> 0" if "wq s t = None" "runnable_at s t"
  proof (cases "\<exists>ms. e = Sleep ms \<and> ms \<noteq> 0 \<and> current_tcb s = Some t")
    case True
    then obtain ms where e: "e = Sleep ms" "ms \<noteq> 0" "current_tcb s = Some t" by blast
    have r: "running s t" using run e by simp
    have "kernel_running s" using inv by (simp add: sys_inv_def)
    from os_delay_effect(1) [OF K r this e(2)] ex e(1) waits_okD(3) [OF kinvD(1) [OF K] t] e(2)
    show ?thesis by (auto simp: asleep_def)
  next
    case False
    have "\<not> may_block e" if "current_tcb s = Some t" "by_thread e"
      using own [OF that(2,1)] False that(1) by (cases e) auto
    with exec_runnable [OF inv en ex \<open>runnable_at s t\<close>] show ?thesis by blast
  qed
  have woken: "wakes s e \<noteq> Some t"
    using wakes_waits(1) [OF K, of e t a] wakes_waits(2) [OF K, of e t a] not_at_it [OF off] at
    by (auto simp: at_sem_def)
  have tc: "tc s' = tc s" using exec_objects [OF ex] by (simp add: same_objects_def)
  show ?thesis
  proof (cases "e = Tick")
    case True
    then have x': "os_tasks s' ! t = ticked (os_tasks s ! t)" using W woken by (simp add: waits_after_def)
    show ?thesis
      using at tk still t tc
      by (auto simp: at_sem_def place_def x' ticked_def runnable_def split: if_splits)
  next
    case False
    with W woken have "wait_part (os_tasks s' ! t) = wait_part (os_tasks s ! t) \<or>
        current_tcb s = Some t \<and> by_thread e \<and> wq s' t = parks_in e" by (simp add: waits_after_def)
    then show ?thesis
    proof
      assume "wait_part (os_tasks s' ! t) = wait_part (os_tasks s ! t)"
      with at tk still show ?thesis by (auto simp: at_sem_def place_def wait_part_def)
    next
      assume own': "current_tcb s = Some t \<and> by_thread e \<and> wq s' t = parks_in e"
      with run own have "wq s t = None" "wq s' t = None" "running s t" by auto
      then show ?thesis using still tk by (auto simp: at_sem_def place_def running_def runnable_def)
    qed
  qed
qed

text \<open>A give serves the task if it waits; else it leaves a token.\<close>

lemma place_give:
  assumes inv: "sys_inv idle s" and en: "enabled idle s e" and ex: "exec e s = Some s'" and t: "t < tc s"
    and at: "at_sem s t a" and e: "e = Give a \<or> e = Isr_give a"
    and alone: "\<And>u. u < tc s \<Longrightarrow> wq s u = Some (SemQ a) \<Longrightarrow> u = t"
  shows "at_sem s' t a \<and> place s' t a = (False, if wq s t \<noteq> None then tokens s a
    else if tokens s a < max_tokens s a then tokens s a + 1 else tokens s a)"
proof -
  have K: "kinv s" using inv by (simp add: sys_inv_def)
  have obj: "object_ready e s" using en by (simp add: enabled_def)
  with e obtain x where x: "sems s a = Some x" by auto
  have tk: "tokens s' a = (if waiters s (SemQ a) = [] \<and> tokens s a < max_tokens s a then tokens s a + 1 else tokens s a)"
    using exec_views [OF inv en ex] e by (auto simp: views_def given_def)
  have none: "waiters s (SemQ a) = [] \<longleftrightarrow> wq s t \<noteq> Some (SemQ a)"
    using no_waiters_iff [OF K, of "SemQ a"] alone t by blast
  have tc: "tc s' = tc s" using exec_objects [OF ex] by (simp add: same_objects_def)
  have len: "t < length (os_tasks s)" using waits_okD(3) [OF kinvD(1) [OF K] t] .
  show ?thesis
  proof (cases "wq s t = None")
    case True
    then have nw: "waiters s (SemQ a) = []" using none by simp
    have "os_tasks s' = os_tasks s" using sem_release_token(1) [OF K x nw] ex e by auto
    with True at tk nw tc show ?thesis by (auto simp: at_sem_def place_def)
  next
    case False
    then have w: "wq s t = Some (SemQ a)" using at by (auto simp: at_sem_def)
    then have "waiters s (SemQ a) \<noteq> []" using none by simp
    then obtain n where n: "next_waiter a s = Some n" unfolding next_waiter_def by fastforce
    have "n = t" using picked_waits(1,3) [OF kinvD(1) [OF K] n [unfolded next_waiter_def]] alone by blast
    obtain s'' where "os_semaphore_release a s = Some s''" "os_tasks s'' = (os_tasks s)[n := woken (os_tasks s ! n)]"
      by (rule sem_release_handoff [OF K x n])
    with ex e \<open>n = t\<close> len have "os_tasks s' ! t = woken (os_tasks s ! t)" by auto
    moreover from this have "wq s' t = None" using wait_part_simps(4) by (simp add: wait_part_def)
    ultimately show ?thesis
      using tk none w t tc by (simp add: at_sem_def place_def runnable_def)
  qed
qed

text \<open>A take uses a token or leaves the task waiting.\<close>

lemma place_take:
  assumes inv: "sys_inv idle s" and c: "running s t" and x: "sems s a \<noteq> None"
    and ex: "exec (Take a WAIT_FOREVER) s = Some s'"
  shows "at_sem s' t a \<and> place s' t a = (if tokens s a \<noteq> 0 then (False, tokens s a - 1) else (True, 0))"
proof -
  have I: "kinv s" "kernel_running s" using inv by (simp_all add: sys_inv_def)
  obtain x where x: "sems s a = Some x" using x by blast
  have free: "wq s t = None" by (rule running_free [OF kinvD(1) [OF I(1)] c])
  have run: "runnable_at s t" using c by (auto simp: running_def runnable_def)
  have tk: "tokens s a = sem_count x" using x by (simp add: tokens_def)
  have n: "WAIT_FOREVER \<noteq> 0" by (simp add: WAIT_FOREVER_def)
  show ?thesis
  proof (cases "sem_count x = 0")
    case True
    obtain s'' where s'': "os_semaphore_acquire a WAIT_FOREVER s = Some (Parked, s'')"
      "os_tasks s'' = (os_tasks s)[t := parked (SemQ a) WAIT_FOREVER (os_tasks s ! t)]" "obj_cores s'' = obj_cores s"
      by (rule sem_acquire_block [OF I(1) c x True n I(2)])
    have "tokens s'' = tokens s" by (rule same_cores(2) [OF s''(3)])
    moreover have "t < length (os_tasks s)" using waits_okD(3) [OF kinvD(1) [OF I(1)]] run by blast
    ultimately show ?thesis using s''(1,2) ex tk True by (auto simp: at_sem_def place_def parked_def)
  next
    case False
    with sem_acquire_token [OF x False, of WAIT_FOREVER] ex have s': "s' = set_tokens a (sem_count x - 1) s" by auto
    have "tokens s' a = sem_count x - 1" using tokens_set [OF x] s' by simp
    with False tk free run show ?thesis by (auto simp: at_sem_def place_def s')
  qed
qed

end
