(* ===== verification/Ping_Pong.thy ===== *)
theory Ping_Pong
  imports Microbench Tick
begin

text \<open>
  The context-switch benchmark of \<^verbatim>\<open>Bench/microbench.c\<close>: two tasks that bounce a pair of
  binary semaphores, in the build with \<^verbatim>\<open>SENTINEL_BENCH\<close>. As for the other tasks, a step
  lies between two calls; a call that parks ends the step.
\<close>

subsection \<open>The model\<close>

text \<open>The points of \<^verbatim>\<open>bench_ping_task\<close>, with the variables \<^verbatim>\<open>i\<close>, \<^verbatim>\<open>start\<close> and \<^verbatim>\<open>round_trip\<close>.\<close>

datatype ping_pc =
    N_settle | N_start
  | N_give nat u32
  | N_take nat u32
  | N_report u32
  | N_report_half u32
  | N_rest

fun ping_step ::
  "hardware \<Rightarrow> saddr \<Rightarrow> saddr \<Rightarrow> ping_pc \<Rightarrow> kernel \<times> history \<Rightarrow> (ping_pc \<times> kernel \<times> history) option" where
  "ping_step hw ping pong N_settle (s, h) = do { s \<leftarrow> os_delay 100 s; Some (N_start, s, h) }"
| "ping_step hw ping pong N_start (s, h) = (case load hw DWT_CYCCNT h of (start, h) \<Rightarrow> Some (N_give 0 start, s, h))"
| "ping_step hw ping pong (N_give i start) (s, h) =
     (if i < BENCH_ITERATIONS
      then do { s \<leftarrow> os_semaphore_release pong s; Some (N_take i start, s, h) }
      else case load hw DWT_CYCCNT h of (stop, h) \<Rightarrow> Some (N_report (per_iteration start stop), s, h))"
| "ping_step hw ping pong (N_take i start) (s, h) = do {
     (_, s) \<leftarrow> os_semaphore_acquire ping WAIT_FOREVER s; Some (N_give (i + 1) start, s, h) }"
| "ping_step hw ping pong (N_report round_trip) (s, h) = do {
     h \<leftarrow> report hw ''Ping-pong round trip (2 switches)'' round_trip h; Some (N_report_half round_trip, s, h) }"
| "ping_step hw ping pong (N_report_half round_trip) (s, h) = do {
     h \<leftarrow> report hw ''Context switch (approx, round trip / 2)'' (round_trip div 2) h; Some (N_rest, s, h) }"
| "ping_step hw ping pong N_rest (s, h) = do { s \<leftarrow> os_delay 1000 s; Some (N_rest, s, h) }"

datatype pong_pc = G_take | G_give

fun pong_step :: "saddr \<Rightarrow> saddr \<Rightarrow> pong_pc \<Rightarrow> kernel \<Rightarrow> (pong_pc \<times> kernel) option" where
  "pong_step ping pong G_take s = do {
     (_, s) \<leftarrow> os_semaphore_acquire pong WAIT_FOREVER s; Some (G_give, s) }"
| "pong_step ping pong G_give s = do { s \<leftarrow> os_semaphore_release ping s; Some (G_take, s) }"

subsection \<open>The measurement ends\<close>

text \<open>Whatever happens between its steps, the ping task comes to its final rest: each step is progress.\<close>

fun ping_left :: "ping_pc \<Rightarrow> nat" where
  "ping_left N_settle = 2 * BENCH_ITERATIONS + 5"
| "ping_left N_start = 2 * BENCH_ITERATIONS + 4"
| "ping_left (N_give i _) = 2 * (BENCH_ITERATIONS - i) + 3"
| "ping_left (N_take i _) = 2 * (BENCH_ITERATIONS - i) + 2"
| "ping_left (N_report _) = 2"
| "ping_left (N_report_half _) = 1"
| "ping_left N_rest = 0"

text \<open>The points the task can be at: it takes only inside the loop.\<close>

fun ping_at_ok :: "ping_pc \<Rightarrow> bool" where
  "ping_at_ok (N_take i _) = (i < BENCH_ITERATIONS)"
| "ping_at_ok _ = True"

lemma ping_step_progress:
  assumes "ping_step hw ping pong n w = Some (n', w')" "ping_at_ok n" "n \<noteq> N_rest"
  shows "ping_left n' < ping_left n \<and> ping_at_ok n'"
  using assms
  by (cases w; cases n) (auto simp: load_def Option.bind_eq_Some_conv split: if_splits)

end
