(* ===== verification/Rally.thy ===== *)
theory Rally
  imports Sem_Places Ping_Pong Boot Firmware_Inv
begin

text \<open>
  The build with \<^verbatim>\<open>SENTINEL_BENCH\<close> at run time: the two tasks of the context-switch benchmark, the
  idle task, the interrupts and the context switch in any order. The two semaphores carry one
  ball between the tasks.
\<close>

subsection \<open>The system\<close>

record rally =
  bench_board :: board
  ping_at :: ping_pc
  pong_at :: pong_pc

fun rally_exec :: "cmsis \<Rightarrow> hardware \<Rightarrow> fw_event \<Rightarrow> rally \<Rightarrow> rally option" where
  "rally_exec c hw (Run t) w = (let b = bench_board w in
     if t = 0 then do {
       (p, s, h) \<leftarrow> ping_step hw ping_sem pong_sem (ping_at w) (krn b, hst b);
       Some (w\<lparr>ping_at := p, bench_board := b\<lparr>krn := s, hst := h\<rparr>\<rparr>) }
     else if t = 1 then do {
       (p, s) \<leftarrow> pong_step ping_sem pong_sem (pong_at w) (krn b);
       Some (w\<lparr>pong_at := p, bench_board := b\<lparr>krn := s\<rparr>\<rparr>) }
     else Some (w\<lparr>bench_board := os_idle_task b\<rparr>))"
| "rally_exec c hw Timer w = do {
     b \<leftarrow> on_kernel SysTick_Handler (bench_board w); Some (w\<lparr>bench_board := b\<rparr>) }"
| "rally_exec c hw Capture w = (let b = bench_board w in do {
     (e, s, h) \<leftarrow> TIM2_IRQHandler c hw (ech b, krn b, hst b);
     Some (w\<lparr>bench_board := b\<lparr>ech := e, krn := s, hst := h\<rparr>\<rparr>) })"
| "rally_exec c hw (Pend core) w = do {
     b \<leftarrow> on_kernel (\<lambda>s. map_option snd (context_switch core s)) (bench_board w);
     Some (w\<lparr>bench_board := b\<rparr>) }"

fun rally_enabled :: "fw_event \<Rightarrow> rally \<Rightarrow> bool" where
  "rally_enabled (Run t) w = on_cpu (krn (bench_board w)) t"
| "rally_enabled (Pend core) w = (halted_in (krn (bench_board w)) = None \<and> pendsv (krn (bench_board w)))"
| "rally_enabled _ w = (halted_in (krn (bench_board w)) = None)"

text \<open>A hit is a give of one of the two semaphores; \<open>rally_run\<close> keeps the list of who hit.\<close>

definition hits :: "fw_event \<Rightarrow> rally \<Rightarrow> tid list" where
  "hits e w =
     (if e = Run 0 \<and> (\<exists>i<BENCH_ITERATIONS. \<exists>start. ping_at w = N_give i start) then [0]
      else if e = Run 1 \<and> pong_at w = G_give then [1] else [])"

inductive rally_run :: "cmsis \<Rightarrow> hardware \<Rightarrow> rally \<Rightarrow> tid list \<Rightarrow> rally \<Rightarrow> bool" for c hw w0 where
  start: "rally_run c hw w0 [] w0"
| later: "rally_run c hw w0 hs w \<Longrightarrow> rally_enabled e w \<Longrightarrow> rally_exec c hw e w = Some w' \<Longrightarrow>
    rally_run c hw w0 (hs @ hits e w) w'"

definition rally_start :: "board \<Rightarrow> rally" where
  "rally_start b = \<lparr>bench_board = b, ping_at = N_settle, pong_at = G_take\<rparr>"

subsection \<open>Where the ball is\<close>

text \<open>Whether pong has nothing to do, or has the ball or will have it as soon as it runs.\<close>

fun pong_rests :: "pong_pc \<Rightarrow> bool \<times> u32 \<Rightarrow> bool" where
  "pong_rests G_take (waits, n) \<longleftrightarrow> \<not> waits \<and> n = 0"
| "pong_rests G_give (waits, n) \<longleftrightarrow> waits \<and> n = 0"

fun pong_serves :: "pong_pc \<Rightarrow> bool \<times> u32 \<Rightarrow> bool" where
  "pong_serves G_take (waits, n) \<longleftrightarrow> \<not> waits \<and> n = 1"
| "pong_serves G_give (waits, n) \<longleftrightarrow> \<not> waits \<and> n = 0"

text \<open>After \<open>n\<close> hits, with ping and pong at the points and places given.\<close>

fun ball :: "nat \<Rightarrow> ping_pc \<Rightarrow> bool \<times> u32 \<Rightarrow> pong_pc \<Rightarrow> bool \<times> u32 \<Rightarrow> bool" where
  "ball n (N_give i start) x g y \<longleftrightarrow> i \<le> BENCH_ITERATIONS \<and>
     (x = (False, 0) \<and> pong_rests g y \<and> n = 2 * i \<or> x = (True, 0) \<and> pong_serves g y \<and> n + 1 = 2 * i)"
| "ball n (N_take i start) x g y \<longleftrightarrow> i < BENCH_ITERATIONS \<and>
     (x = (False, 0) \<and> pong_serves g y \<and> n = 2 * i + 1 \<or> x = (False, 1) \<and> pong_rests g y \<and> n = 2 * i + 2)"
| "ball n N_settle x g y \<longleftrightarrow> x = (False, 0) \<and> pong_rests g y \<and> n = 0"
| "ball n N_start x g y \<longleftrightarrow> x = (False, 0) \<and> pong_rests g y \<and> n = 0"
| "ball n (N_report _) x g y \<longleftrightarrow> x = (False, 0) \<and> pong_rests g y \<and> n = 2 * BENCH_ITERATIONS"
| "ball n (N_report_half _) x g y \<longleftrightarrow> x = (False, 0) \<and> pong_rests g y \<and> n = 2 * BENCH_ITERATIONS"
| "ball n N_rest x g y \<longleftrightarrow> x = (False, 0) \<and> pong_rests g y \<and> n = 2 * BENCH_ITERATIONS"

text \<open>The two hit in turn, ping first.\<close>

definition alternate :: "nat \<Rightarrow> tid list" where
  "alternate n = map (\<lambda>i. i mod 2) [0..<n]"

definition bench_kernel :: "kernel \<Rightarrow> bool" where
  "bench_kernel s \<longleftrightarrow> sys_inv 2 s \<and> task_count s = 3 \<and> {echo_ready, ping_sem, pong_sem} \<subseteq> dom (sems s) \<and>
     max_tokens s ping_sem = 1 \<and> max_tokens s pong_sem = 1 \<and>
     at_sem s 0 ping_sem \<and> at_sem s 1 pong_sem \<and> wq s 2 = None"

definition rally_ok :: "hardware \<Rightarrow> tid list \<Rightarrow> rally \<Rightarrow> bool" where
  "rally_ok hw hs w \<longleftrightarrow> (let s = krn (bench_board w) in
     bench_kernel s \<and> uart_ready hw (hst (bench_board w)) \<and> hs = alternate (length hs) \<and>
     ball (length hs) (ping_at w) (place s 0 ping_sem) (pong_at w) (place s 1 pong_sem))"

subsection \<open>The kernel's events\<close>

lemma sems_apart [simp]: "ping_sem \<noteq> pong_sem" "pong_sem \<noteq> ping_sem" "echo_ready \<noteq> ping_sem" "echo_ready \<noteq> pong_sem"
  "ping_sem \<noteq> echo_ready" "pong_sem \<noteq> echo_ready"
  by (simp_all add: ping_sem_def pong_sem_def echo_ready_def)

lemma bench_kernelD:
  assumes "bench_kernel s"
  shows "sys_inv 2 s" "tc s = 3" "kinv s" "sems s echo_ready \<noteq> None" "sems s ping_sem \<noteq> None" "sems s pong_sem \<noteq> None"
    "max_tokens s ping_sem = 1" "max_tokens s pong_sem = 1" "at_sem s 0 ping_sem" "at_sem s 1 pong_sem" "wq s 2 = None"
  using assms by (auto simp: bench_kernel_def sys_inv_def)

text \<open>The idle task never waits.\<close>

lemma idle_awake: "sys_inv 2 s \<Longrightarrow> wq s 2 = None"
  using waits_okD(4) [of s 2] by (auto simp: sys_inv_def kinv_def task_ok_def runnable_def)

lemma bench_exec:
  assumes ok: "bench_kernel s" and en: "enabled 2 s e"
    and keep: "\<And>s'. exec e s = Some s' \<Longrightarrow> at_sem s' 0 ping_sem \<and> at_sem s' 1 pong_sem"
  obtains s' where "exec e s = Some s'" "bench_kernel s'"
proof -
  obtain s' where s': "exec e s = Some s'" "sys_inv 2 s'" by (rule exec_ok [OF bench_kernelD(1) [OF ok] en])
  have "same_objects s s'" by (rule exec_objects [OF s'(1)])
  moreover have "max_tokens s' = max_tokens s"
    using exec_views [OF bench_kernelD(1) [OF ok] en s'(1)] by (simp add: views_def)
  ultimately have "bench_kernel s'"
    using ok keep [OF s'(1)] s'(2) idle_awake by (simp add: bench_kernel_def same_objects_def)
  with that s'(1) show ?thesis by blast
qed

text \<open>An event that is not about the two semaphores leaves ball and places alone.\<close>

lemma bench_calm:
  assumes ok: "bench_kernel s" and en: "enabled 2 s e" and e: "\<not> at_it ping_sem e" "\<not> at_it pong_sem e" "parks_in e = None"
  obtains s' where "exec e s = Some s'" "bench_kernel s'" "place s' 0 ping_sem = place s 0 ping_sem"
    "place s' 1 pong_sem = place s 1 pong_sem"
proof -
  note B = bench_kernelD [OF ok]
  have t: "0 < tc s" "1 < tc s" using B(2) by simp_all
  note p0 = place_kept [OF B(1) en _ t(1) B(9) e(1) e(3)] and p1 = place_kept [OF B(1) en _ t(2) B(10) e(2) e(3)]
  obtain s' where "exec e s = Some s'" "bench_kernel s'" by (rule bench_exec [OF ok en]) (use p0 p1 in blast)
  with that p0 p1 show ?thesis by blast
qed

lemma three_tids: "t < 3 \<Longrightarrow> t = 0 \<or> t = 1 \<or> t = 2" for t :: nat
  by linarith

lemma waits_alone:
  assumes "bench_kernel s" "u < tc s"
  shows "wq s u = Some (SemQ ping_sem) \<Longrightarrow> u = 0" "wq s u = Some (SemQ pong_sem) \<Longrightarrow> u = 1"
  using bench_kernelD(2,9,10,11) [OF assms(1)] three_tids [of u] assms(2) by (auto simp: at_sem_def)

text \<open>Each player with its semaphore, and the other one with its.\<close>

definition players :: "(tid \<times> saddr) \<Rightarrow> (tid \<times> saddr) \<Rightarrow> bool" where
  "players x y \<longleftrightarrow> x = (0, ping_sem) \<and> y = (1, pong_sem) \<or> x = (1, pong_sem) \<and> y = (0, ping_sem)"

lemma players_simps [simp]: "players (0, ping_sem) (1, pong_sem)" "players (1, pong_sem) (0, ping_sem)"
  "players (0, ping_sem) (Suc 0, pong_sem)" "players (Suc 0, pong_sem) (0, ping_sem)"
  by (simp_all add: players_def)

lemma playersD:
  assumes "bench_kernel s" "players (t, a) (u, b)"
  shows "t < tc s" "u < tc s" "at_sem s t a" "at_sem s u b" "a \<noteq> b" "t \<noteq> u" "sems s a \<noteq> None" "max_tokens s a = 1"
    "\<And>v. v < tc s \<Longrightarrow> wq s v = Some (SemQ a) \<Longrightarrow> v = t"
    "at_sem s' t a \<Longrightarrow> at_sem s' u b \<Longrightarrow> at_sem s' 0 ping_sem \<and> at_sem s' 1 pong_sem"
  using bench_kernelD [OF assms(1)] assms(2) waits_alone [OF assms(1)] by (auto simp: players_def)

lemma zero_one: "n \<le> 1 \<Longrightarrow> n = 0 \<or> n = 1" for n :: u32
  unfolding word_le_nat_alt word_unat_eq_iff by simp linarith

text \<open>Giving the other player's semaphore.\<close>

lemma bench_give:
  assumes ok: "bench_kernel s" and pl: "players (t, a) (u, b)" and en: "enabled 2 s (Give b)"
  obtains s' where "exec (Give b) s = Some s'" "bench_kernel s'" "place s' t a = place s t a"
    "place s' u b = (False, if fst (place s u b) then snd (place s u b) else 1)"
proof -
  note B = bench_kernelD(1) [OF ok] and P = playersD [OF ok pl]
  have pl': "players (u, b) (t, a)" using pl by (auto simp: players_def)
  have "\<not> at_it a (Give b)" "parks_in (Give b) = None" using P(5) by simp_all
  note p = place_kept [OF B en _ P(1,3) this]
  have q: "at_sem s' u b \<and> place s' u b = (False, if wq s u \<noteq> None then tokens s b
      else if tokens s b < max_tokens s b then tokens s b + 1 else tokens s b)"
    if "exec (Give b) s = Some s'" for s'
    by (rule place_give [OF B en that P(2,4)]) (use playersD(9) [OF ok pl'] in auto)
  obtain s' where s': "exec (Give b) s = Some s'" "bench_kernel s'"
    by (rule bench_exec [OF ok en]) (use p q P(10) in blast)
  have max: "max_tokens s b = 1" by (rule playersD(8) [OF ok pl'])
  have "tokens s b = 0 \<or> tokens s b = 1"
    using tokens_bounded [OF bench_kernelD(3) [OF ok], of b] max zero_one by simp
  then have "place s' u b = (False, if fst (place s u b) then snd (place s u b) else 1)"
    using q [OF s'(1)] max by (auto simp: place_def)
  with that s' p [OF s'(1)] show ?thesis by blast
qed

text \<open>Taking the own one.\<close>

lemma bench_take:
  assumes ok: "bench_kernel s" and pl: "players (t, a) (u, b)" and run: "running s t"
    and en: "enabled 2 s (Take a WAIT_FOREVER)"
  obtains s' where "exec (Take a WAIT_FOREVER) s = Some s'" "bench_kernel s'" "place s' u b = place s u b"
    "place s' t a = (if tokens s a \<noteq> 0 then (False, tokens s a - 1) else (True, 0))"
proof -
  note B = bench_kernelD(1) [OF ok] and P = playersD [OF ok pl]
  have off: "\<not> at_it b (Take a WAIT_FOREVER)" using P(5) by simp
  have other: "current_tcb s \<noteq> Some u" using run P(6) by (simp add: running_def)
  note p = place_kept [OF B en _ P(2,4) off] and q = place_take [OF B run P(7)]
  obtain s' where s': "exec (Take a WAIT_FOREVER) s = Some s'" "bench_kernel s'"
    by (rule bench_exec [OF ok en]) (use p q P(10) other in blast)
  with that p [OF s'(1)] q [OF s'(1)] other show ?thesis by blast
qed

subsection \<open>The steps\<close>

lemma alternate_length [simp]: "length (alternate n) = n"
  by (simp add: alternate_def)

lemma alternate_Suc: "alternate (Suc n) = alternate n @ [n mod 2]"
  by (simp add: alternate_def)

lemma alternate_next:
  assumes "hs = alternate (length hs)" "length hs mod 2 = t"
  shows "hs @ [t] = alternate (length (hs @ [t]))"
  using assms by (simp add: alternate_Suc)

lemma alternate_if:
  assumes "hs = alternate (length hs)" "P \<longrightarrow> length hs mod 2 = t"
  shows "hs @ (if P then [t] else []) = alternate (length (hs @ (if P then [t] else [])))"
proof (cases P)
  case True
  with alternate_next [OF assms(1), of t] assms(2) show ?thesis by simp
qed (use assms(1) in simp)

lemma rally_okD:
  assumes "rally_ok hw hs w" "s = krn (bench_board w)"
  shows "bench_kernel s" "uart_ready hw (hst (bench_board w))" "hs = alternate (length hs)"
    "ball (length hs) (ping_at w) (place s 0 ping_sem) (pong_at w) (place s 1 pong_sem)"
  using assms by (simp_all add: rally_ok_def Let_def)

lemma on_cpu_enabled:
  assumes "bench_kernel s" "on_cpu s t" "t < 2" "by_thread e" "object_ready e s"
  shows "enabled 2 s e"
  using assms by (cases e) (auto simp: enabled_def on_cpu_def running_def)

lemma on_cpu_place:
  assumes "bench_kernel s" "on_cpu s t"
  shows "running s t" "fst (place s t a) = False"
  using assms running_free [OF kinvD(1) [OF bench_kernelD(3) [OF assms(1)]], of t] by (simp_all add: on_cpu_def place_def)

lemma read_ready [simp]: "uart_ready hw h \<Longrightarrow> uart_ready hw (h @ [Rd r])"
  by (rule uart_ready_quiet) simp_all

lemma read_write [simp]: "writes r (h @ [Rd r']) = writes r h"
  by simp

fun ping_hits :: "ping_pc \<Rightarrow> bool" where
  "ping_hits (N_give i _) = (i < BENCH_ITERATIONS)"
| "ping_hits _ = False"

lemma ping_ok:
  assumes K: "bench_kernel s" and up: "uart_ready hw h" and on: "on_cpu s 0"
    and B: "ball n p (place s 0 ping_sem) g (place s 1 pong_sem)"
  obtains p' s' h' where "ping_step hw ping_sem pong_sem p (s, h) = Some (p', s', h')" "bench_kernel s'" "uart_ready hw h'"
    "ball (n + of_bool (ping_hits p)) p' (place s' 0 ping_sem) g (place s' 1 pong_sem)" "ping_hits p \<longrightarrow> n mod 2 = 0"
proof -
  note result = that
  note R = on_cpu_place [OF K on] and D = bench_kernelD [OF K]
  have en: "enabled 2 s e" if "by_thread e" "object_ready e s" for e
    using on_cpu_enabled [OF K on _ that] by simp
  have sleep: thesis if "ping_step hw ping_sem pong_sem p (s, h) = do { s' \<leftarrow> exec (Sleep ms) s; Some (p', s', h) }"
    "ball n p' (place s 0 ping_sem) g (place s 1 pong_sem)" "\<not> ping_hits p" for p' ms
  proof -
    have "enabled 2 s (Sleep ms)" by (rule en) simp_all
    then obtain s' where "exec (Sleep ms) s = Some s'" "bench_kernel s'" "place s' 0 ping_sem = place s 0 ping_sem"
      "place s' 1 pong_sem = place s 1 pong_sem" by (rule bench_calm [OF K]) simp_all
    with that up show thesis using result by simp
  qed
  have think: thesis if "ping_step hw ping_sem pong_sem p (s, h) = Some (p', s, h')" "uart_ready hw h'"
    "ball n p' (place s 0 ping_sem) g (place s 1 pong_sem)" "\<not> ping_hits p" for p' h'
    using that K result by simp
  obtain y where y: "place s (Suc 0) pong_sem = y" by simp
  obtain stop h1 where l: "load hw DWT_CYCCNT h = (stop, h1)" "uart_ready hw h1" using up by (auto simp: load_def)
  show thesis
  proof (cases p)
    case N_settle
    with B show thesis by (intro sleep [where p' = N_start and ms = 100]) (simp_all)
  next
    case N_start
    with B l show thesis by (intro think [where p' = "N_give 0 stop" and h' = h1]) simp_all
  next
    case (N_give i start)
    with B R(2) [of ping_sem] have G: "i \<le> BENCH_ITERATIONS" "place s 0 ping_sem = (False, 0)" "pong_rests g y" "n = 2 * i"
      by (auto simp: y)
    show thesis
    proof (cases "i < BENCH_ITERATIONS")
      case True
      have "enabled 2 s (Give pong_sem)" by (rule en) (use D(6) in simp_all)
      from bench_give [OF K players_simps(1) this] obtain s' where s': "exec (Give pong_sem) s = Some s'" "bench_kernel s'"
        "place s' 0 ping_sem = place s 0 ping_sem" "place s' 1 pong_sem = (False, if fst y then snd y else 1)"
        unfolding y [folded One_nat_def] by blast
      have "pong_serves g (place s' 1 pong_sem)" using G(3) s'(4) by (cases g; cases y) simp_all
      with G s'(3) True have "ball (n + 1) (N_take i start) (place s' 0 ping_sem) g (place s' 1 pong_sem)" by simp
      with N_give True s'(1,2) G(4) up show thesis by (intro result [of "N_take i start" s' h]) (simp_all del: ball.simps)
    next
      case False
      with N_give G l y show thesis by (intro think [where p' = "N_report (per_iteration start stop)" and h' = h1]) simp_all
    qed
  next
    case (N_take i start)
    have "enabled 2 s (Take ping_sem WAIT_FOREVER)" by (rule en) (use D(5) in simp_all)
    from bench_take [OF K players_simps(1) R(1) this] obtain s' where
      s': "exec (Take ping_sem WAIT_FOREVER) s = Some s'" "bench_kernel s'" "place s' 1 pong_sem = y"
      "place s' 0 ping_sem = (if tokens s ping_sem \<noteq> 0 then (False, tokens s ping_sem - 1) else (True, 0))"
      unfolding y [folded One_nat_def] by blast
    have "tokens s ping_sem = snd (place s 0 ping_sem)" by (simp add: place_def)
    with s' B N_take up y show thesis by (intro result) auto
  next
    case (N_report round_trip)
    obtain h' where "report hw ''Ping-pong round trip (2 switches)'' round_trip h = Some h'" "uart_ready hw h'"
      by (rule report_sends [OF up])
    with N_report B show thesis by (intro think [where p' = "N_report_half round_trip" and h' = h']) simp_all
  next
    case (N_report_half round_trip)
    obtain h' where "report hw ''Context switch (approx, round trip / 2)'' (round_trip div 2) h = Some h'" "uart_ready hw h'"
      by (rule report_sends [OF up])
    with N_report_half B show thesis by (intro think [where p' = N_rest and h' = h']) simp_all
  next
    case N_rest
    with B show thesis by (intro sleep [where p' = N_rest and ms = 1000]) (simp_all)
  qed
qed

lemma pong_ok:
  assumes K: "bench_kernel s" and on: "on_cpu s 1" and B: "ball n p (place s 0 ping_sem) g (place s 1 pong_sem)"
  obtains g' s' where "pong_step ping_sem pong_sem g s = Some (g', s')" "bench_kernel s'"
    "ball (n + of_bool (g = G_give)) p (place s' 0 ping_sem) g' (place s' 1 pong_sem)" "g = G_give \<longrightarrow> n mod 2 = 1"
proof -
  note R = on_cpu_place [OF K on] and D = bench_kernelD [OF K]
  have en: "enabled 2 s e" if "by_thread e" "object_ready e s" for e
    using on_cpu_enabled [OF K on _ that] by simp
  obtain m where y: "place s 1 pong_sem = (False, m)" "tokens s pong_sem = m"
    using R(2) [of pong_sem] by (simp add: place_def)
  obtain v k where x: "place s 0 ping_sem = (v, k)" by (cases "place s 0 ping_sem")
  have B': "ball n p (v, k) g (False, m)" using B unfolding x y(1) .
  show thesis
  proof (cases g)
    case G_take
    have "enabled 2 s (Take pong_sem WAIT_FOREVER)" by (rule en) (use D(6) in simp_all)
    from bench_take [OF K players_simps(2) R(1) this] obtain s' where
      s': "exec (Take pong_sem WAIT_FOREVER) s = Some s'" "bench_kernel s'"
      "place s' 0 ping_sem = (v, k)" "place s' 1 pong_sem = (if m \<noteq> 0 then (False, m - 1) else (True, 0))"
      unfolding x y(2) by blast
    have "ball n p (v, k) G_give (place s' 1 pong_sem)" using B' unfolding s'(4) G_take by (cases p) auto
    with that [of G_give s'] s' G_take show thesis by auto
  next
    case G_give
    have "enabled 2 s (Give ping_sem)" by (rule en) (use D(5) in simp_all)
    from bench_give [OF K players_simps(2) this] obtain s' where s': "exec (Give ping_sem) s = Some s'" "bench_kernel s'"
      "place s' 1 pong_sem = (False, m)" "place s' 0 ping_sem = (False, if v then k else 1)"
      unfolding x y(1) fst_conv snd_conv by blast
    have "ball (n + 1) p (place s' 0 ping_sem) G_take (False, m)"
      using B' unfolding s'(4) G_give by (cases p) auto
    moreover have "n mod 2 = 1" using B' unfolding G_give by (cases p) (auto, presburger)
    ultimately show thesis using that [of G_take s'] s' G_give by simp
  qed
qed

subsection \<open>Every event keeps the ball in play\<close>

lemma rally_interrupt:
  assumes ok: "rally_ok hw hs w" and e: "enabled 2 (krn (bench_board w)) e" "\<not> at_it ping_sem e" "\<not> at_it pong_sem e"
    "parks_in e = None"
  obtains s' where "exec e (krn (bench_board w)) = Some s'"
    "\<And>b'. krn b' = s' \<Longrightarrow> quiet_uart (hst (bench_board w)) (hst b') \<Longrightarrow> rally_ok hw hs (w\<lparr>bench_board := b'\<rparr>)"
proof -
  note O = rally_okD [OF ok refl]
  obtain s' where s': "exec e (krn (bench_board w)) = Some s'" "bench_kernel s'"
    "place s' 0 ping_sem = place (krn (bench_board w)) 0 ping_sem"
    "place s' 1 pong_sem = place (krn (bench_board w)) 1 pong_sem"
    by (rule bench_calm [OF O(1) e])
  have "rally_ok hw hs (w\<lparr>bench_board := b'\<rparr>)" if "krn b' = s'" "quiet_uart (hst (bench_board w)) (hst b')" for b'
    using O s'(2-) that uart_ready_quiet [OF O(2), of "hst b'"] by (simp add: rally_ok_def Let_def quiet_uart_def)
  with that s'(1) show ?thesis by blast
qed

lemma rally_ping:
  assumes ok: "rally_ok hw hs w" and on: "on_cpu (krn (bench_board w)) 0"
  obtains w' where "rally_exec c hw (Run 0) w = Some w'" "rally_ok hw (hs @ hits (Run 0) w) w'"
proof -
  note O = rally_okD [OF ok refl]
  obtain p' s' h' where st: "ping_step hw ping_sem pong_sem (ping_at w) (krn (bench_board w), hst (bench_board w)) = Some (p', s', h')"
    "bench_kernel s'" "uart_ready hw h'"
    "ball (length hs + of_bool (ping_hits (ping_at w))) p' (place s' 0 ping_sem) (pong_at w) (place s' 1 pong_sem)"
    "ping_hits (ping_at w) \<longrightarrow> length hs mod 2 = 0"
    by (rule ping_ok [OF O(1,2) on O(4)])
  have hit: "hits (Run 0) w = (if ping_hits (ping_at w) then [0] else [])"
    by (cases "ping_at w") (simp_all add: hits_def)
  have "hs @ hits (Run 0) w = alternate (length (hs @ hits (Run 0) w))"
    unfolding hit by (rule alternate_if [OF O(3) st(5)])
  moreover have "ball (length (hs @ hits (Run 0) w)) p' (place s' 0 ping_sem) (pong_at w) (place s' 1 pong_sem)"
    using st(4) by (cases "ping_hits (ping_at w)") (simp_all add: hit)
  ultimately show ?thesis using st(1-3)
    by (intro that [of "w\<lparr>ping_at := p', bench_board := (bench_board w)\<lparr>krn := s', hst := h'\<rparr>\<rparr>"])
      (simp_all add: rally_ok_def Let_def)
qed

lemma rally_pong:
  assumes ok: "rally_ok hw hs w" and on: "on_cpu (krn (bench_board w)) 1"
  obtains w' where "rally_exec c hw (Run 1) w = Some w'" "rally_ok hw (hs @ hits (Run 1) w) w'"
proof -
  note O = rally_okD [OF ok refl]
  obtain g' s' where st: "pong_step ping_sem pong_sem (pong_at w) (krn (bench_board w)) = Some (g', s')" "bench_kernel s'"
    "ball (length hs + of_bool (pong_at w = G_give)) (ping_at w) (place s' 0 ping_sem) g' (place s' 1 pong_sem)"
    "pong_at w = G_give \<longrightarrow> length hs mod 2 = 1"
    by (rule pong_ok [OF O(1) on O(4)])
  have hit: "hits (Run 1) w = (if pong_at w = G_give then [1] else [])"
    by (simp add: hits_def)
  have "hs @ hits (Run 1) w = alternate (length (hs @ hits (Run 1) w))"
    unfolding hit by (rule alternate_if [OF O(3) st(4)])
  moreover have "ball (length (hs @ hits (Run 1) w)) (ping_at w) (place s' 0 ping_sem) g' (place s' 1 pong_sem)"
    unfolding hit using st(3) by (cases "pong_at w = G_give") simp_all
  ultimately show ?thesis using st(1,2) O(2)
    by (intro that [of "w\<lparr>pong_at := g', bench_board := (bench_board w)\<lparr>krn := s'\<rparr>\<rparr>"])
      (simp_all add: rally_ok_def Let_def)
qed

lemma no_hits: "\<not> (\<exists>t. e = Run t \<and> t < 2) \<Longrightarrow> hits e w = []"
  by (auto simp: hits_def)

lemma rally_exec_ok:
  assumes ok: "rally_ok hw hs w" and en: "rally_enabled e w"
  obtains w' where "rally_exec c hw e w = Some w'" "rally_ok hw (hs @ hits e w) w'"
proof -
  let ?b = "bench_board w"
  note O = rally_okD [OF ok refl]
  note rest = that [unfolded no_hits append_Nil2]
  show thesis
  proof (cases e)
    case (Run t)
    have on: "on_cpu (krn ?b) t" using en Run by simp
    then have "t < 3" using bench_kernelD(2) [OF O(1)] by (simp add: on_cpu_def running_def)
    then consider "t = 0" | "t = 1" | "t = 2" by linarith
    then show thesis
    proof cases
      case 1
      with rally_ping [OF ok] on that Run show thesis by metis
    next
      case 2
      with rally_pong [OF ok] on that Run show thesis by metis
    next
      case 3
      have "rally_ok hw hs (w\<lparr>bench_board := os_idle_task ?b\<rparr>)"
        using ok uart_ready_quiet [of hw "hst ?b" "hst ?b @ [Wfi]"] by (simp add: rally_ok_def os_idle_task_def Let_def)
      with that 3 Run no_hits [of e w] show thesis by simp
    qed
  next
    case Timer
    have "enabled 2 (krn ?b) Tick" using en Timer by (simp add: enabled_def)
    then obtain s' where s': "exec Tick (krn ?b) = Some s'"
      "\<And>b'. krn b' = s' \<Longrightarrow> quiet_uart (hst ?b) (hst b') \<Longrightarrow> rally_ok hw hs (w\<lparr>bench_board := b'\<rparr>)"
      by (rule rally_interrupt [OF ok]) simp_all
    with that Timer no_hits [of e w] s'(2) [of "?b\<lparr>krn := s'\<rparr>"] show thesis by (simp add: on_kernel_def)
  next
    case (Pend core)
    have "enabled 2 (krn ?b) (Switch core)" using en Pend by (simp add: enabled_def)
    then obtain s' where s': "exec (Switch core) (krn ?b) = Some s'"
      "\<And>b'. krn b' = s' \<Longrightarrow> quiet_uart (hst ?b) (hst b') \<Longrightarrow> rally_ok hw hs (w\<lparr>bench_board := b'\<rparr>)"
      by (rule rally_interrupt [OF ok]) simp_all
    with that Pend no_hits [of e w] s'(2) [of "?b\<lparr>krn := s'\<rparr>"] show thesis by (auto simp: on_kernel_def)
  next
    case Capture
    have "enabled 2 (krn ?b) (Isr_give echo_ready)"
      using en Capture bench_kernelD(4) [OF O(1)] by (auto simp: enabled_def)
    then obtain s' where s': "exec (Isr_give echo_ready) (krn ?b) = Some s'"
      "\<And>b'. krn b' = s' \<Longrightarrow> quiet_uart (hst ?b) (hst b') \<Longrightarrow> rally_ok hw hs (w\<lparr>bench_board := b'\<rparr>)"
      by (rule rally_interrupt [OF ok]) simp_all
    show thesis
    proof (cases rule: capture_event [of c hw "ech ?b" "krn ?b" "hst ?b"])
      case (kept e' h')
      have "rally_ok hw hs (w\<lparr>bench_board := ?b\<lparr>ech := e', hst := h'\<rparr>\<rparr>)"
        using ok kept(2) uart_ready_quiet [of hw "hst ?b" h'] by (simp add: rally_ok_def quiet_uart_def Let_def)
      with that kept(1) Capture no_hits [of e w] show thesis by simp
    next
      case (given e' h')
      have "rally_ok hw hs (w\<lparr>bench_board := ?b\<lparr>ech := e', krn := s', hst := h'\<rparr>\<rparr>)"
        by (rule s'(2)) (use given(2) in simp_all)
      with that given(1) s'(1) Capture no_hits [of e w] show thesis by simp
    qed
  qed
qed

lemma rally_run_ok:
  assumes "rally_run c hw w0 hs w" "rally_ok hw [] w0"
  shows "rally_ok hw hs w"
  using assms
proof (induction rule: rally_run.induct)
  case (later hs w e w')
  obtain w'' where "rally_exec c hw e w = Some w''" "rally_ok hw (hs @ hits e w) w''"
    by (rule rally_exec_ok [OF later.IH [OF later.prems] later.hyps(2)])
  with later.hyps(3) show ?case by simp
qed

subsection \<open>The measurement comes to its end\<close>

text \<open>The steps the two tasks have yet to make, after \<open>n\<close> hits.\<close>

definition rally_left :: "nat \<Rightarrow> rally \<Rightarrow> nat" where
  "rally_left n w = ping_left (ping_at w) + 2 * (BENCH_ITERATIONS - n div 2) + (if pong_at w = G_take then 1 else 0)"

lemma ball_bounds:
  assumes "ball n p x g y"
  shows "ping_at_ok p" "\<not> fst y \<Longrightarrow> g = G_give \<Longrightarrow> n < 2 * BENCH_ITERATIONS"
  using assms by (cases p; cases g; cases y; auto)+

lemma rally_left_step:
  assumes ok: "rally_ok hw hs w" and ex: "rally_exec c hw e w = Some w'" and en: "rally_enabled e w"
  shows "if e = Run 0 \<and> ping_at w \<noteq> N_rest \<or> e = Run 1
    then rally_left (length (hs @ hits e w)) w' < rally_left (length hs) w
    else rally_left (length (hs @ hits e w)) w' = rally_left (length hs) w"
proof -
  let ?s = "krn (bench_board w)" and ?n = "length hs"
  note O = rally_okD [OF ok refl]
  consider (ping) "e = Run 0" | (pong) "e = Run 1" | (other) "e \<noteq> Run 0" "e \<noteq> Run 1" by blast
  then show ?thesis
  proof cases
    case ping
    have on: "on_cpu ?s 0" using en ping by simp
    obtain p' s' h' where st: "ping_step hw ping_sem pong_sem (ping_at w) (?s, hst (bench_board w)) = Some (p', s', h')"
      "ping_hits (ping_at w) \<longrightarrow> ?n mod 2 = 0" by (rule ping_ok [OF O(1,2) on O(4)])
    have w': "ping_at w' = p'" "pong_at w' = pong_at w" using ex st(1) ping by auto
    have hit: "length (hs @ hits e w) div 2 = ?n div 2"
    proof -
      have "length (hits e w) = of_bool (ping_hits (ping_at w))" using ping by (cases "ping_at w") (simp_all add: hits_def)
      with st(2) show ?thesis by (auto simp: of_bool_def)
    qed
    show ?thesis
    proof (cases "ping_at w = N_rest")
      case True
      with st(1) have "p' = N_rest" by (auto simp: Option.bind_eq_Some_conv)
      with True ping w' hit show ?thesis by (simp add: rally_left_def)
    next
      case False
      with ping_step_progress [OF st(1) ball_bounds(1) [OF O(4)]] ping w' hit show ?thesis by (simp add: rally_left_def)
    qed
  next
    case pong
    have on: "on_cpu ?s 1" using en pong by simp
    have off: "\<not> fst (place ?s 1 pong_sem)" using on_cpu_place(2) [OF O(1) on] by simp
    obtain g' s' where st: "pong_step ping_sem pong_sem (pong_at w) ?s = Some (g', s')"
      "pong_at w = G_give \<longrightarrow> ?n mod 2 = 1" by (rule pong_ok [OF O(1) on O(4)])
    have w': "ping_at w' = ping_at w" "pong_at w' = g'" using ex st(1) pong by auto
    have "g' = (if pong_at w = G_take then G_give else G_take)"
      using st(1) by (cases "pong_at w") (auto simp: Option.bind_eq_Some_conv)
    moreover have "hits e w = (if pong_at w = G_give then [1] else [])" using pong by (simp add: hits_def)
    moreover have "Suc ?n div 2 = Suc (?n div 2)" "?n div 2 < BENCH_ITERATIONS" if "pong_at w = G_give"
      using that st(2) ball_bounds(2) [OF O(4) off] by presburger+
    ultimately show ?thesis using pong w' by (cases "pong_at w") (simp_all add: rally_left_def)
  next
    case other
    then have "hits e w = []" by (simp add: hits_def)
    moreover have "ping_at w' = ping_at w \<and> pong_at w' = pong_at w"
      using ex other by (cases e) (auto simp: Option.bind_eq_Some_conv Let_def split: if_splits prod.splits)
    ultimately show ?thesis using other by (simp add: rally_left_def)
  qed
qed

text \<open>Whose turn it is does not wait: the task runs, or sleeps with a deadline.\<close>

lemma rally_live:
  assumes ok: "rally_ok hw hs w" and t: "t = length hs mod 2"
  shows "wq (krn (bench_board w)) t = None"
    and "runnable_at (krn (bench_board w)) t \<or> sleep_time (os_tasks (krn (bench_board w)) ! t) \<noteq> 0"
proof -
  let ?s = "krn (bench_board w)"
  note O = rally_okD [OF ok refl]
  obtain x m where y: "place ?s 1 pong_sem = (x, m)" by (cases "place ?s 1 pong_sem")
  have turn: "fst (place ?s 0 ping_sem) = False \<and> even (length hs) \<or> fst (place ?s 1 pong_sem) = False \<and> odd (length hs)"
    using O(4) unfolding y by (cases "ping_at w"; cases "pong_at w") (auto, presburger+)
  then have "wq ?s t = None \<and> (runnable_at ?s t \<or> sleep_time (os_tasks ?s ! t) \<noteq> 0)"
  proof (elim disjE conjE)
    assume "fst (place ?s 0 ping_sem) = False" "even (length hs)"
    with bench_kernelD(9) [OF O(1)] t show ?thesis by (auto simp: place_def at_sem_def even_iff_mod_2_eq_zero)
  next
    assume "fst (place ?s 1 pong_sem) = False" "odd (length hs)"
    with bench_kernelD(10) [OF O(1)] t show ?thesis by (auto simp: place_def at_sem_def odd_iff_mod_2_eq_one)
  qed
  then show "wq ?s t = None" "runnable_at ?s t \<or> sleep_time (os_tasks ?s ! t) \<noteq> 0" by simp_all
qed

end
