(* ===== verification/Bench_Boot.thy ===== *)
theory Bench_Boot
  imports Rally
begin

text \<open>
  \<^verbatim>\<open>main\<close> in the build with \<^verbatim>\<open>SENTINEL_BENCH\<close>: the two tasks of the context-switch benchmark take
  the place of the radar and the sweep, at equal priority. The scheduler benchmark then passes the
  CPU between them while it counts, so which of them the launch enters depends on the number of
  decisions; the lemmas follow it.
\<close>

subsection \<open>The model\<close>

record bench_image =
  ping_entry :: u32
  pong_entry :: u32
  rest_entry :: u32
  ping_stack :: u32
  pong_stack :: u32
  rest_stack :: u32
  angle_buffer :: u32
  test_buffer :: u32
  timing_buffer :: u32

definition main_bench ::
    "cmsis \<Rightarrow> hardware \<Rightarrow> bench_image \<Rightarrow> cpu \<Rightarrow> kernel \<times> history \<Rightarrow> (cpu \<times> board) option" where
  "main_bench c hw img core = (\<lambda>(s, h). do {
     let s = os_kernel_init s;
     h \<leftarrow> uart_init c hw h;
     let (s, h) = microbench_init c hw ping_sem pong_sem (s, h);
     h \<leftarrow> uart_print hw boot_banner h;
     (post, s) \<leftarrow> os_run_post post_mutex post_sem post_queue (test_buffer img) s;
     if post \<noteq> Passed then None
     else do {
       (period, h) \<leftarrow> servo_init c hw h;
       h \<leftarrow> ultrasonic_init c hw h;
       let s = os_queue_init sweep_queue (angle_buffer img) 8 s;
       let s = os_semaphore_init echo_ready 0 1 s;
       let s = os_mutex_init uart_lock s;
       (_, s) \<leftarrow> os_task_create (ping_entry img) (ping_stack img) STACK_SIZE 2 s;
       (_, s) \<leftarrow> os_task_create (pong_entry img) (pong_stack img) STACK_SIZE 2 s;
       (_, s) \<leftarrow> os_task_create (rest_entry img) (rest_stack img) STACK_SIZE 0 s;
       (s, h) \<leftarrow> microbench_run_all hw bench_mutex_at bench_sem bench_queue_at (timing_buffer img) (s, h);
       (core, s) \<leftarrow> os_kernel_launch core s;
       Some (core, \<lparr>krn = s, ech = echo_zero, pwm_period_us = period, hst = h\<rparr>) } })"

definition bench_image_ok :: "bench_image \<Rightarrow> bool" where
  "bench_image_ok img \<longleftrightarrow> ping_entry img \<noteq> 0 \<and> pong_entry img \<noteq> 0 \<and> rest_entry img \<noteq> 0 \<and>
     unat (ping_stack img) + 1024 < 2 ^ 32 \<and> unat (pong_stack img) + 1024 < 2 ^ 32 \<and>
     unat (rest_stack img) + 1024 < 2 ^ 32 \<and> unat (timing_buffer img) + 32 < 2 ^ 32 \<and>
     apart (ping_stack img) 1024 (pong_stack img) 1024 \<and> apart (ping_stack img) 1024 (rest_stack img) 1024 \<and>
     apart (pong_stack img) 1024 (rest_stack img) 1024 \<and>
     apart (ping_stack img) 1024 (timing_buffer img) 32 \<and> apart (pong_stack img) 1024 (timing_buffer img) 32"

subsection \<open>The two semaphores\<close>

definition balls_made :: "kernel \<Rightarrow> bool" where
  "balls_made s \<longleftrightarrow> (\<forall>a\<in>{ping_sem, pong_sem}. \<exists>x. sems s a = Some x \<and> sem_count x = 0 \<and> sem_max_count x = 1)"

lemma balls_made_sems:
  "balls_made s \<Longrightarrow> sems s' ping_sem = sems s ping_sem \<Longrightarrow> sems s' pong_sem = sems s pong_sem \<Longrightarrow> balls_made s'"
  by (simp add: balls_made_def)

lemma balls_made_init:
  "balls_made (os_mutex_init m s) = balls_made s"
  "a \<notin> {ping_sem, pong_sem} \<Longrightarrow> balls_made (os_semaphore_init a i n s) = balls_made s"
  "balls_made (os_queue_init q buf cap s) = balls_made s"
  by (auto simp: balls_made_def os_mutex_init_def os_semaphore_init_def os_queue_init_def Let_def ping_sem_def
      pong_sem_def)

lemma balls_made_boot: "microbench_init c hw ping_sem pong_sem (s, h) = (s', h') \<Longrightarrow> balls_made s'"
  by (auto simp: microbench_init_def Let_def balls_made_def os_semaphore_init_def split: option.splits)

text \<open>The self-test uses its own objects.\<close>

lemma run_post_balls:
  assumes "current_tcb s = None" "os_run_post m post_sem post_queue buf s = Some (Passed, s')"
  shows "balls_made s' = balls_made s"
proof -
  let ?s2 = "os_semaphore_init post_sem 2 2 (os_mutex_init m s)"
  obtain s'' where s'': "test_queue_basic post_queue buf ?s2 = Some (Passed, s'')"
    "q_from post_queue (os_queue_init post_queue buf 4 ?s2) s''"
    by (rule test_queue_passes [of ?s2 post_queue buf]) (use assms(1) in simp)
  have "s' = s''"
    using assms test_mutex_passes [OF assms(1), of m] test_semaphore_passes [of post_sem "os_mutex_init m s"] s''(1)
    by (simp add: os_run_post_def)
  moreover have "sems s'' a = sems (os_queue_init post_queue buf 4 ?s2) a" if "a \<in> {ping_sem, pong_sem}" for a
    using s''(2) that by (auto simp: q_from_def q_frame_def ping_sem_def pong_sem_def)
  ultimately have "balls_made s' = balls_made (os_queue_init post_queue buf 4 ?s2)" by (simp add: balls_made_def)
  then show ?thesis by (simp add: balls_made_init post_sem_def ping_sem_def pong_sem_def)
qed

subsection \<open>The three tasks\<close>

definition player_stack :: "bench_image \<Rightarrow> tid \<Rightarrow> u32" where
  "player_stack img t = (if t = 0 then ping_stack img else pong_stack img)"

definition player_entry :: "bench_image \<Rightarrow> tid \<Rightarrow> u32" where
  "player_entry img t = (if t = 0 then ping_entry img else pong_entry img)"

definition player_ready :: "bench_image \<Rightarrow> kernel \<Rightarrow> tid \<Rightarrow> bool" where
  "player_ready img s t \<longleftrightarrow> booted {READY, RUNNING} 2 (os_tasks s ! t) \<and>
     stackBase (os_tasks s ! t) = player_stack img t \<and>
     stackPtr (os_tasks s ! t) = stack_top (player_stack img t) STACK_SIZE - 64 \<and>
     mem s (player_stack img t) = STACK_CANARY \<and>
     mem s (stack_top (player_stack img t) STACK_SIZE - 8) = player_entry img t"

text \<open>After \<open>n\<close> scheduling decisions: they alternate between the two.\<close>

definition bench_made :: "bench_image \<Rightarrow> nat \<Rightarrow> kernel \<Rightarrow> bool" where
  "bench_made img n s \<longleftrightarrow> kinv s \<and> task_count s = 3 \<and> current_tcb s = Some (n mod 2) \<and> quiet s \<and>
     player_ready img s 0 \<and> player_ready img s 1 \<and> state (os_tasks s ! (1 - n mod 2)) = READY \<and>
     booted {READY} 0 (os_tasks s ! 2) \<and> echo_ready \<in> dom (sems s) \<and> balls_made s"

text \<open>The words of a player's stack that matter.\<close>

lemma player_words:
  assumes "bench_image_ok img"
  shows "unat (player_stack img t) \<le> unat (stack_top (player_stack img t) STACK_SIZE - 8)"
    and "unat (stack_top (player_stack img t) STACK_SIZE - 8) < unat (player_stack img t) + 1024"
proof -
  have "unat (player_stack img t) + 4 * unat STACK_SIZE < 2 ^ 32" "64 \<le> STACK_SIZE" "unat STACK_SIZE = 256"
    using assms by (simp_all add: bench_image_ok_def model_defs player_stack_def)
  from frame_addr_above [OF this(1,2), of 8] this(3)
  show "unat (player_stack img t) \<le> unat (stack_top (player_stack img t) STACK_SIZE - 8)"
    "unat (stack_top (player_stack img t) STACK_SIZE - 8) < unat (player_stack img t) + 1024" by simp_all
qed

lemma player_ready_kept:
  assumes img: "bench_image_ok img" and ready: "player_ready img s t"
    and x: "booted {READY, RUNNING} 2 (os_tasks s' ! t)" "stackBase (os_tasks s' ! t) = stackBase (os_tasks s ! t)"
      "stackPtr (os_tasks s' ! t) = stackPtr (os_tasks s ! t)"
    and kept: "\<And>a. unat (player_stack img t) \<le> unat a \<Longrightarrow> unat a < unat (player_stack img t) + 1024 \<Longrightarrow> mem s' a = mem s a"
  shows "player_ready img s' t"
proof -
  have "mem s' (player_stack img t) = mem s (player_stack img t)" by (rule kept) simp_all
  moreover have "mem s' (stack_top (player_stack img t) STACK_SIZE - 8) = mem s (stack_top (player_stack img t) STACK_SIZE - 8)"
    by (rule kept) (use player_words [OF img] in simp_all)
  ultimately show ?thesis using ready x by (simp add: player_ready_def)
qed

lemma player_ready_same:
  assumes "os_tasks s' = os_tasks s" "mem s' = mem s"
  shows "player_ready img s' t = player_ready img s t"
  using assms by (simp add: player_ready_def)

lemma create_player:
  assumes inv: "kinv s" and room: "tc s < MAX_TASKS" and img: "bench_image_ok img" and t: "tc s = t" "t < 2"
  obtains s' where "os_task_create (player_entry img t) (player_stack img t) STACK_SIZE 2 s = Some (True, s')" "kinv s'"
    "os_tasks s' = (os_tasks s)[t := created (player_stack img t) STACK_SIZE 2 (os_tasks s ! t)]"
    "task_count s' = task_count s + 1" "quiet s' = quiet s" "sems s' = sems s"
    "current_tcb s' = (case current_tcb s of None \<Rightarrow> Some t | Some c \<Rightarrow> Some c)" "player_ready img s' t"
    "\<And>u. u < t \<Longrightarrow> player_ready img s u \<Longrightarrow> player_ready img s' u"
proof -
  have len: "t < length (os_tasks s)" using room t(1) waits_okD(1) [OF kinvD(1) [OF inv]] by (simp add: model_defs)
  have E: "player_entry img t \<noteq> 0" "unat (player_stack img t) + 1024 < 2 ^ 32"
    using img by (simp_all add: bench_image_ok_def player_entry_def player_stack_def)
  obtain s' where s': "os_task_create (player_entry img t) (player_stack img t) STACK_SIZE 2 s = Some (True, s')" "kinv s'"
    "os_tasks s' = (os_tasks s)[tc s := created (player_stack img t) STACK_SIZE 2 (os_tasks s ! tc s)]"
    "task_count s' = task_count s + 1"
    "current_tcb s' = (case current_tcb s of None \<Rightarrow> Some (tc s) | Some c \<Rightarrow> Some c)" "quiet s' = quiet s"
    "mem s' (player_stack img t) = STACK_CANARY" "mem s' (stack_top (player_stack img t) STACK_SIZE - 8) = player_entry img t"
    "\<forall>a. unat a < unat (player_stack img t) \<or> unat (player_stack img t) + 1024 \<le> unat a \<longrightarrow> mem s' a = mem s a"
    by (rule create_task [OF inv room E])
  have "player_ready img s' t" using s'(3,7,8) len t(1) by (simp add: player_ready_def created_def booted_def)
  moreover have "player_ready img s' u" if u: "u < t" "player_ready img s u" for u
  proof (rule player_ready_kept [OF img u(2)])
    have "u = 0" "t = 1" using u(1) t(2) by simp_all
    then have "apart (player_stack img u) 1024 (player_stack img t) 1024"
      using img by (simp add: bench_image_ok_def player_stack_def)
    then show "mem s' a = mem s a" if "unat (player_stack img u) \<le> unat a" "unat a < unat (player_stack img u) + 1024" for a
      using that s'(9) unfolding apart_def by (meson leD le_less_trans not_less order_le_less_trans)
    show "booted {READY, RUNNING} 2 (os_tasks s' ! u)" "stackBase (os_tasks s' ! u) = stackBase (os_tasks s ! u)"
      "stackPtr (os_tasks s' ! u) = stackPtr (os_tasks s ! u)"
      using s'(3) t(1) u by (simp_all add: player_ready_def)
  qed
  moreover have "sems s' = sems s"
    using os_task_create_eq [OF waits_okD(1) [OF kinvD(1) [OF inv]] room E(1), of STACK_SIZE] s'(1) by (auto simp: model_defs)
  ultimately show ?thesis using s'(1-4,6) s'(5) [unfolded t(1)] t(1) by (intro that [of s']) simp_all
qed

lemma create_bench_tasks:
  assumes un: "unpopulated s" and made: "balls_made s" "echo_ready \<in> dom (sems s)" and img: "bench_image_ok img"
  obtains s1 s2 s3 where
    "os_task_create (ping_entry img) (ping_stack img) STACK_SIZE 2 s = Some (True, s1)"
    "os_task_create (pong_entry img) (pong_stack img) STACK_SIZE 2 s1 = Some (True, s2)"
    "os_task_create (rest_entry img) (rest_stack img) STACK_SIZE 0 s2 = Some (True, s3)"
    "bench_made img 0 s3"
proof -
  have S: "kinv s" "tc s = 0" "task_count s = 0" "current_tcb s = None" "quiet s" using un by (simp_all add: unpopulated_def)
  have six: "length (os_tasks s') = 6" if "kinv s'" for s'
    using waits_okD(1) [OF kinvD(1) [OF that]] by (simp add: model_defs)
  have room: "tc s < MAX_TASKS" using S(2) by (simp add: model_defs)
  obtain s1 where s1: "os_task_create (player_entry img 0) (player_stack img 0) STACK_SIZE 2 s = Some (True, s1)" "kinv s1"
    "os_tasks s1 = (os_tasks s)[0 := created (player_stack img 0) STACK_SIZE 2 (os_tasks s ! 0)]"
    "task_count s1 = task_count s + 1" "quiet s1 = quiet s" "sems s1 = sems s"
    "current_tcb s1 = (case current_tcb s of None \<Rightarrow> Some 0 | Some c \<Rightarrow> Some c)" "player_ready img s1 0"
    by (rule create_player [OF S(1) room img S(2)]) simp_all
  have n1: "tc s1 = 1" "tc s1 < MAX_TASKS" using S(3) s1(4) by (simp_all add: model_defs)
  obtain s2 where s2: "os_task_create (player_entry img 1) (player_stack img 1) STACK_SIZE 2 s1 = Some (True, s2)" "kinv s2"
    "os_tasks s2 = (os_tasks s1)[1 := created (player_stack img 1) STACK_SIZE 2 (os_tasks s1 ! 1)]"
    "task_count s2 = task_count s1 + 1" "quiet s2 = quiet s1" "sems s2 = sems s1"
    "current_tcb s2 = (case current_tcb s1 of None \<Rightarrow> Some 1 | Some c \<Rightarrow> Some c)" "player_ready img s2 1"
    "\<And>u. u < 1 \<Longrightarrow> player_ready img s1 u \<Longrightarrow> player_ready img s2 u"
    by (rule create_player [OF s1(2) n1(2) img n1(1)]) simp_all
  have n2: "tc s2 = 2" "tc s2 < MAX_TASKS" using S(3) s1(4) s2(4) by (simp_all add: model_defs)
  have R: "rest_entry img \<noteq> 0" "unat (rest_stack img) + 1024 < 2 ^ 32" using img by (simp_all add: bench_image_ok_def)
  obtain s3 where s3: "os_task_create (rest_entry img) (rest_stack img) STACK_SIZE 0 s2 = Some (True, s3)" "kinv s3"
    "os_tasks s3 = (os_tasks s2)[tc s2 := created (rest_stack img) STACK_SIZE 0 (os_tasks s2 ! tc s2)]"
    "task_count s3 = task_count s2 + 1"
    "current_tcb s3 = (case current_tcb s2 of None \<Rightarrow> Some (tc s2) | Some c \<Rightarrow> Some c)" "quiet s3 = quiet s2"
    "\<forall>a. unat a < unat (rest_stack img) \<or> unat (rest_stack img) + 1024 \<le> unat a \<longrightarrow> mem s3 a = mem s2 a"
    by (rule create_task [OF s2(2) n2(2) R])
  have sems: "sems s3 = sems s2"
    using os_task_create_eq [OF waits_okD(1) [OF kinvD(1) [OF s2(2)]] n2(2) R(1), of STACK_SIZE] s3(1)
    by (auto simp: model_defs)
  have ready: "player_ready img s3 t" if "t = 0 \<or> t = 1" for t
  proof (rule player_ready_kept [OF img])
    show r: "player_ready img s2 t" using that s1(8) s2(8,9) by auto
    have "apart (player_stack img t) 1024 (rest_stack img) 1024"
      using img by (simp add: bench_image_ok_def player_stack_def)
    then show "mem s3 a = mem s2 a" if "unat (player_stack img t) \<le> unat a" "unat a < unat (player_stack img t) + 1024" for a
      using that s3(7) unfolding apart_def by (meson leD le_less_trans not_less order_le_less_trans)
    show "booted {READY, RUNNING} 2 (os_tasks s3 ! t)" "stackBase (os_tasks s3 ! t) = stackBase (os_tasks s2 ! t)"
      "stackPtr (os_tasks s3 ! t) = stackPtr (os_tasks s2 ! t)"
      using r that s3(3) n2(1) by (auto simp: player_ready_def)
  qed
  have "state (os_tasks s3 ! 1) = READY" "booted {READY} 0 (os_tasks s3 ! 2)"
    using s3(3) s2(3) n2(1) six [OF s1(2)] six [OF s2(2)] by (simp add: created_def, simp)
  moreover have "task_count s3 = 3" "current_tcb s3 = Some 0" "quiet s3"
    using s1(4,5,7) s2(4,5,7) s3(4,5,6) S by simp_all
  ultimately have "bench_made img 0 s3"
    using s3(2) ready made sems s2(6) s1(6) by (simp add: bench_made_def balls_made_def)
  with that s1(1) s2(1) s3(1) show ?thesis by (simp add: player_entry_def player_stack_def)
qed

subsection \<open>The benchmarks keep the tasks, the scheduler alternates\<close>

lemma bench_made_free:
  assumes "bench_made img n s"
  shows "waiters s r = []" "settled s" "kinv s" "length (os_tasks s) = 6"
proof -
  show k: "kinv s" using assms by (simp add: bench_made_def)
  show len: "length (os_tasks s) = 6" using waits_okD(1) [OF kinvD(1) [OF k]] by (simp add: model_defs)
  have "\<forall>t<tc s. wait_queue (os_tasks s ! t) = None"
  proof (intro allI impI)
    fix t assume "t < tc s"
    moreover have "tc s = 3" "wait_queue (os_tasks s ! 0) = None" "wait_queue (os_tasks s ! 1) = None"
      "wait_queue (os_tasks s ! 2) = None" using assms by (simp_all add: bench_made_def player_ready_def booted_def)
    ultimately show "wait_queue (os_tasks s ! t) = None" using three_tids [of t] by metis
  qed
  then show "waiters s r = []" by (rule no_waiters [OF k])
  have "n mod 2 = 0 \<or> n mod 2 = 1" by presburger
  then have "player_ready img s (n mod 2)" "n mod 2 < 6" using assms by (auto simp: bench_made_def)
  then show "settled s" using assms len by (simp add: bench_made_def player_ready_def booted_def settled_def)
qed

lemma bench_made_init:
  assumes "bench_made img n s"
  shows "bench_made img n (os_mutex_init m s)"
    "bench_made img n (os_semaphore_init bench_sem 1 1 s)" "bench_made img n (os_queue_init q buf cap s)"
proof -
  note free = bench_made_free [OF assms]
  have "kinv (os_mutex_init m s)" "kinv (os_semaphore_init bench_sem 1 1 s)" "kinv (os_queue_init q buf cap s)"
    by (rule kinv_mutex_init [OF free(3,1)], rule kinv_semaphore_init [OF free(3,1)], simp,
      rule kinv_queue_init [OF free(3,1,1,1)])
  moreover have "bench_sem \<notin> {ping_sem, pong_sem}" by (simp add: bench_sem_def ping_sem_def pong_sem_def)
  moreover have "echo_ready \<in> dom (sems (os_mutex_init m s))" "echo_ready \<in> dom (sems (os_semaphore_init bench_sem 1 1 s))"
    "echo_ready \<in> dom (sems (os_queue_init q buf cap s))"
    using assms by (auto simp: bench_made_def os_mutex_init_def os_semaphore_init_def os_queue_init_def Let_def)
  ultimately show "bench_made img n (os_mutex_init m s)"
    "bench_made img n (os_semaphore_init bench_sem 1 1 s)" "bench_made img n (os_queue_init q buf cap s)"
    using assms by (simp_all add: bench_made_def balls_made_init player_ready_same [of "os_mutex_init m s" s]
      player_ready_same [of "os_semaphore_init bench_sem 1 1 s" s] player_ready_same [of "os_queue_init q buf cap s" s])
qed

lemma bench_made_queue:
  assumes made: "bench_made img n s" and steps: "q_from q (os_queue_init q (timing_buffer img) 8 s) s'"
    and img: "bench_image_ok img"
  shows "bench_made img n s'"
proof -
  let ?s0 = "os_queue_init q (timing_buffer img) 8 s"
  have made0: "bench_made img n ?s0" by (rule bench_made_init(3) [OF made])
  have cur: "c < length (os_tasks s)" if "current_tcb s = Some c" for c
    using bench_made_free(2) [OF made] that by (simp add: settled_def)
  show ?thesis
  proof (cases "s' = ?s0")
    case False
    with steps have fr: "q_frame q ?s0 s'" and ok: "q_ok q s'" by (auto simp: q_from_def)
    have ok0: "q_ok q ?s0" by (rule q_ok_init(1)) (use cur in simp_all)
    have inv: "kinv s'" by (rule kinv_q_frame [OF bench_made_free(3) [OF made0] fr ok0 ok])
    have tasks: "os_tasks s' = os_tasks ?s0"
      using fr settled_undonated [OF bench_made_free(2) [OF made0]] by (simp add: q_frame_def)
    have here: "queues ?s0 q = Some \<lparr>q_buffer = timing_buffer img, q_capacity = 8, q_head = 0, q_tail = 0\<rparr>"
      by (simp add: os_queue_init_def Let_def)
    have "ring_frame q ?s0 s'" using fr by (simp add: q_frame_def)
    then have frame: "mem s' b = mem ?s0 b" if "\<forall>i<8. b \<noteq> timing_buffer img + 4 * of_nat i" for b
      using that here by (simp add: ring_frame_def q_addr_def)
    have ready: "player_ready img s' t" if "player_ready img ?s0 t" for t
    proof (rule player_ready_kept [OF img that])
      have ap: "apart (player_stack img t) 1024 (timing_buffer img) 32"
        using img by (simp add: bench_image_ok_def player_stack_def)
      show "mem s' a = mem ?s0 a" if "unat (player_stack img t) \<le> unat a" "unat a < unat (player_stack img t) + 1024" for a
      proof (rule frame, intro allI impI notI)
        fix i :: nat assume i: "i < 8" "a = timing_buffer img + 4 * of_nat i"
        with buffer_word [of "timing_buffer img" i] img have "unat a = unat (timing_buffer img) + 4 * i"
          by (simp add: bench_image_ok_def)
        with i(1) that ap show False by (auto simp: apart_def)
      qed
    qed (use that tasks in \<open>simp_all add: player_ready_def\<close>)
    have "sems s' a = sems ?s0 a" if "a \<in> {ping_sem, pong_sem, echo_ready}" for a
      using fr that by (auto simp: q_frame_def ping_sem_def pong_sem_def echo_ready_def)
    then have "balls_made s'" "echo_ready \<in> dom (sems s')"
      using made0 by (simp_all add: bench_made_def balls_made_def dom_def)
    then show ?thesis
      using made0 inv tasks fr ready by (simp add: bench_made_def q_frame_def quiet_def)
  qed (use made0 in simp)
qed

text \<open>Of the two tasks of the highest priority the scan meets the one that does not run first.\<close>

lemma bench_choice:
  assumes made: "bench_made img n s"
  shows "sched_choice s = Some (1 - n mod 2)"
proof -
  have n: "n mod 2 = 0 \<or> n mod 2 = 1" by presburger
  have M: "tc s = 3" "current_tcb s = Some (n mod 2)" using made by (simp_all add: bench_made_def)
  have R: "runnable (os_tasks s ! 0)" "runnable (os_tasks s ! Suc 0)" "runnable (os_tasks s ! 2)"
    "current_priority (os_tasks s ! 0) = 2" "current_priority (os_tasks s ! Suc 0) = 2" "current_priority (os_tasks s ! 2) = 0"
    using made by (auto simp: bench_made_def player_ready_def booted_def runnable_def)
  have three: "[0..<3] = [0, 1, 2 :: nat]" by (simp add: upt_rec)
  from n show ?thesis
  proof
    assume c: "n mod 2 = 0"
    then have "scan_order s = [1, 2, 0]" using M by (simp add: scan_order_def scan_start_def three)
    with c R show ?thesis by (simp add: sched_choice_def)
  next
    assume c: "n mod 2 = 1"
    then have "scan_order s = [2, 0, 1]" using M by (simp add: scan_order_def scan_start_def three)
    with c R show ?thesis by (simp add: sched_choice_def)
  qed
qed

lemma bench_decides:
  assumes made: "bench_made img n s"
  obtains s' where "os_scheduler s = Some s'" "bench_made img (Suc n) s'" "state (os_tasks s' ! (Suc n mod 2)) = RUNNING"
    "kernel_running s' = kernel_running s" "halted_in s' = halted_in s" "pendsv s' = pendsv s"
proof -
  note free = bench_made_free [OF made]
  define c b where "c = n mod 2" and "b = 1 - n mod 2"
  have cb: "c = 0 \<and> b = 1 \<or> c = 1 \<and> b = 0" "Suc n mod 2 = b" unfolding c_def b_def by presburger+
  have M: "task_count s = 3" "current_tcb s = Some c" "player_ready img s c" "player_ready img s b"
    "state (os_tasks s ! b) = READY" using made cb by (auto simp: bench_made_def c_def b_def)
  have ready: "sched_ready s" using kinv_sched_ready [OF free(3)] M(1) by simp
  let ?ts = "switched (Some c) b (os_tasks s)"
  let ?s' = "s\<lparr>os_tasks := ?ts, current_tcb := Some b\<rparr>"
  have eq: "os_scheduler s = Some ?s'"
    using os_scheduler_eq [OF ready] bench_choice [OF made] M(2,3) by (simp add: b_def player_ready_def)
  have run: "runnable_at s b" using M(1,5) cb(1) by (auto simp: runnable_def)
  have inv: "kinv ?s'" using kinv_switched [OF free(3) run] M(2) by simp
  have b6: "b < length (os_tasks s)" using cb(1) free(4) by auto
  have at: "?ts ! t = (if t = b then (os_tasks s ! b)\<lparr>state := RUNNING\<rparr>
      else if c = t \<and> state (os_tasks s ! t) = RUNNING then (os_tasks s ! t)\<lparr>state := READY\<rparr> else os_tasks s ! t)"
    if "t < 6" for t using switched_nth [OF b6, of t "Some c"] that free(4) by simp
  have "player_ready img ?s' t" if "t = c \<or> t = b" for t
    using that cb(1) M(3,4) at [of t] by (auto simp: player_ready_def booted_def)
  then have P: "player_ready img ?s' 0" "player_ready img ?s' 1" using cb(1) by auto
  have "state (?ts ! c) = READY" using at [of c] cb(1) M(3) by (auto simp: player_ready_def booted_def)
  moreover have "1 - b = c" "b < 2" using cb(1) by auto
  moreover have "booted {READY} 0 (?ts ! 2)" using at [of 2] cb(1) made by (auto simp: bench_made_def)
  ultimately have "bench_made img (Suc n) ?s'"
    using inv P made cb(2) by (simp add: bench_made_def quiet_def balls_made_def)
  moreover have "state (os_tasks ?s' ! (Suc n mod 2)) = RUNNING" using at [of b] cb by auto
  ultimately show ?thesis using that [OF eq] by simp
qed

interpretation bench_ground_tasks: bench_ground "\<lambda>n s. bench_image_ok img \<and> bench_made img n s" bench_mutex_at bench_sem
    bench_queue_at "timing_buffer img" for img
proof unfold_locales
  show "\<exists>s'. os_scheduler s = Some s' \<and> bench_image_ok img \<and> bench_made img (Suc n) s'"
    if "bench_image_ok img \<and> bench_made img n s" for n s
    using that bench_decides [of img n s] by metis
qed (auto intro: bench_made_free(2) bench_made_init bench_made_queue)

subsection \<open>The launch\<close>

lemma bench_made_clocked: "bench_made img n s \<Longrightarrow> bench_made img n (clocked s)"
  using kinv_same_objects [of "clocked s" s] player_ready_same [of "clocked s" s] by (simp add: bench_made_def balls_made_def)

lemma balls_made_places:
  assumes "balls_made s"
  shows "sems s ping_sem \<noteq> None" "sems s pong_sem \<noteq> None" "max_tokens s ping_sem = 1" "max_tokens s pong_sem = 1"
    "tokens s ping_sem = 0" "tokens s pong_sem = 0"
  using assms by (auto simp: balls_made_def max_tokens_def tokens_def)

lemma bench_launch:
  assumes made: "bench_made img n s"
  obtains core' s' where "os_kernel_launch core s = Some (core', s')" "pc core' = player_entry img (Suc n mod 2)"
    "psp core' = stack_top (player_stack img (Suc n mod 2)) STACK_SIZE" "running s' (Suc n mod 2)" "primask s' = 0"
    "halted_in s' = None" "\<not> pendsv s'" "bench_kernel s'" "place s' 0 ping_sem = (False, 0)"
    "place s' 1 pong_sem = (False, 0)"
proof -
  define b where "b = Suc n mod 2"
  have b: "b = 0 \<or> b = 1" unfolding b_def by presburger
  have Q: "halted_in s = None" "\<not> pendsv s" using made by (simp_all add: bench_made_def quiet_def)
  obtain s1 where s1: "os_scheduler (clocked s) = Some s1" "bench_made img (Suc n) s1"
    "state (os_tasks s1 ! b) = RUNNING" "halted_in s1 = halted_in (clocked s)" "pendsv s1 = pendsv (clocked s)"
    using bench_decides [OF bench_made_clocked [OF made]] unfolding b_def by metis
  note free = bench_made_free [OF s1(2)]
  let ?s2 = "s1\<lparr>kernel_running := True\<rparr>" and ?s3 = "s1\<lparr>kernel_running := True, primask := 0\<rparr>"
  let ?top = "stack_top (player_stack img b) STACK_SIZE"
  have M: "task_count s1 = 3" "current_tcb s1 = Some b" "player_ready img s1 0" "player_ready img s1 1"
    "state (os_tasks s1 ! (1 - b)) = READY" "booted {READY} 0 (os_tasks s1 ! 2)" "balls_made s1" "echo_ready \<in> dom (sems s1)"
    using s1(2) by (simp_all add: bench_made_def b_def)
  have pb: "player_ready img s1 b" using b M(3,4) by auto
  have start: "os_start_first_task core ?s2 = Some (core\<lparr>r0 := ?top, r1 := player_entry img b, r2 := 2, psp := ?top,
      control := 2, pc := player_entry img b\<rparr>, ?s2\<lparr>primask := 0\<rparr>)"
    by (rule start_first_task_eq [of _ b]) (use M(2) b free(4) pb in \<open>auto simp: player_ready_def\<close>)
  have launch: "os_kernel_launch core s = os_start_first_task core ?s2"
    using s1(1,4) Q unfolding os_kernel_launch_def clocked_def [symmetric] by (simp add: clocked_def)
  have inv: "kinv ?s3" by (rule kinv_same_objects [OF _ _ _ _ _ free(3)]) simp_all
  have one: "one_running ?s3"
    unfolding one_running_def
  proof (intro allI impI)
    fix t assume t: "t < tc ?s3" "state (os_tasks ?s3 ! t) = RUNNING"
    with M(1) three_tids have "t = 0 \<or> t = 1 \<or> t = 2" by simp
    with t(2) b M(2,5,6) show "current_tcb ?s3 = Some t" by (auto simp: booted_def)
  qed
  have run: "running ?s3 b" using b M(1,2) s1(3) by (auto simp: running_def)
  have I: "sys_inv 2 ?s3" using inv one M(1,2,6) run by (auto simp: sys_inv_def runnable_def booted_def)
  have at: "at_sem ?s3 0 ping_sem" "at_sem ?s3 1 pong_sem"
    using M(1,3,4) by (auto simp: at_sem_def player_ready_def booted_def runnable_def)
  have B: "bench_kernel ?s3"
    using I M(1,6,8) at balls_made_places [OF M(7)]
    by (simp add: bench_kernel_def max_tokens_def booted_def domIff)
  have P: "place ?s3 0 ping_sem = (False, 0)" "place ?s3 1 pong_sem = (False, 0)"
    using M(3,4) balls_made_places(5,6) [OF M(7)] by (simp_all add: place_def tokens_def player_ready_def booted_def)
  show ?thesis
    by (rule that [OF launch [unfolded start]]) (use B P run s1(4,5) Q in \<open>simp_all add: b_def clocked_def\<close>)
qed

lemma bench_boots:
  assumes img: "bench_image_ok img" and port: "port_ok c (GPIOA c)"
    and uart: "plain hw USART2_CR1" "responsive hw USART2_SR SR_TXE"
  obtains core' b where "main_bench c hw img core (reset_state m cr, h) = Some (core', b)"
    "pc core' = pong_entry img" "psp core' = stack_top (pong_stack img) STACK_SIZE" "running (krn b) 1"
    "primask (krn b) = 0" "pwm_period_us b = 20000" "rally_ok hw [] (rally_start b)" "halted_in (krn b) = None"
    "\<not> pendsv (krn b)"
proof -
  let ?s0 = "os_kernel_init (reset_state m cr)"
  obtain h1 where h1: "uart_init c hw h = Some h1" "uart_ready hw h1" by (rule uart_init_ready [OF uart])
  obtain s2 h2 where b2: "microbench_init c hw ping_sem pong_sem (?s0, h1) = (s2, h2)" by (metis surj_pair)
  have s2: "unpopulated s2" and h2: "uart_ready hw h2"
    using b2 unpopulated_init(2) unpopulated_boot uart_ready_quiet [OF h1(2), of h2]
    by (auto simp: microbench_init_def Let_def)
  obtain h3 where h3: "uart_print hw boot_banner h2 = Some h3" "uart_ready hw h3" by (rule print_codes [OF h2])
  obtain s3 where s3: "os_run_post post_mutex post_sem post_queue (test_buffer img) s2 = Some (Passed, s3)"
    "unpopulated s3" by (rule unpopulated_post [OF s2])
  have balls: "balls_made s3"
    using run_post_balls [OF _ s3(1)] s2 balls_made_boot [OF b2] by (simp add: unpopulated_def)
  obtain h4 where h4: "servo_init c hw h3 = Some (20000, h4)" "uart_ready hw h4" by (rule servo_init_ready [OF h3(2) port])
  obtain h5 where h5: "ultrasonic_init c hw h4 = Some h5" "writes USART2_CR1 h5 = writes USART2_CR1 h4"
    by (rule ultrasonic_init_some [OF port])
  have on5: "uart_ready hw h5" by (rule uart_ready_quiet [OF h4(2) h5(2)])
  let ?s4 = "os_mutex_init uart_lock (os_semaphore_init echo_ready 0 1 (os_queue_init sweep_queue (angle_buffer img) 8 s3))"
  have un4: "unpopulated ?s4" by (intro unpopulated_init s3(2)) simp
  have made4: "balls_made ?s4" "echo_ready \<in> dom (sems ?s4)"
    using balls by (simp_all add: balls_made_init) (simp add: os_mutex_init_def os_semaphore_init_def)
  obtain s5 s6 s7 where made:
    "os_task_create (ping_entry img) (ping_stack img) STACK_SIZE 2 ?s4 = Some (True, s5)"
    "os_task_create (pong_entry img) (pong_stack img) STACK_SIZE 2 s5 = Some (True, s6)"
    "os_task_create (rest_entry img) (rest_stack img) STACK_SIZE 0 s6 = Some (True, s7)"
    "bench_made img 0 s7" using create_bench_tasks [OF un4 made4 img] by blast
  obtain s8 h8 where s8: "microbench_run_all hw bench_mutex_at bench_sem bench_queue_at (timing_buffer img) (s7, h5)
      = Some (s8, h8)" "bench_made img BENCH_ITERATIONS s8" "uart_ready hw h8"
    using bench_ground_tasks.run_all [of img 0 s7 hw h5] img made(4) on5 by auto
  have last: "Suc BENCH_ITERATIONS mod 2 = 1" by (simp add: model_defs)
  obtain core' s9 where s9: "os_kernel_launch core s8 = Some (core', s9)" "pc core' = pong_entry img"
    "psp core' = stack_top (pong_stack img) STACK_SIZE" "running s9 1" "primask s9 = 0" "halted_in s9 = None" "\<not> pendsv s9"
    "bench_kernel s9" "place s9 0 ping_sem = (False, 0)" "place s9 1 pong_sem = (False, 0)"
    using bench_launch [OF s8(2)] unfolding last by (auto simp: player_entry_def player_stack_def)
  have "main_bench c hw img core (reset_state m cr, h) =
      Some (core', \<lparr>krn = s9, ech = echo_zero, pwm_period_us = 20000, hst = h8\<rparr>)"
    using h1(1) b2 h3(1) s3(1) h4(1) h5(1) made(1-3) s8(1) s9(1) by (simp add: main_bench_def Let_def)
  moreover have "rally_ok hw [] (rally_start \<lparr>krn = s9, ech = echo_zero, pwm_period_us = 20000, hst = h8\<rparr>)"
    using s9(8-10) s8(3) by (simp add: rally_ok_def rally_start_def alternate_def Let_def)
  ultimately show ?thesis using that s9(2-7) by simp
qed

end
