(* ===== verification/Bench_Properties.thy ===== *)
theory Bench_Properties
  imports Bench_Boot Boot_Properties
begin

text \<open>The properties of the build with \<^verbatim>\<open>SENTINEL_BENCH\<close>: its boot, and the rally of its two tasks.\<close>

definition bench_board_image :: bench_image where
  "bench_board_image = \<lparr>ping_entry = 0x08001001, pong_entry = 0x08001101, rest_entry = 0x08001201,
     ping_stack = 0x20000400, pong_stack = 0x20000800, rest_stack = 0x20000C00,
     angle_buffer = 0x20001000, test_buffer = 0x20017F00, timing_buffer = 0x20017F40\<rparr>"

lemma bench_board_boots:
  "bench_image_ok bench_board_image" "port_ok board_cmsis (GPIOA board_cmsis)" "plain uart_off_hw USART2_CR1"
  "responsive uart_off_hw USART2_SR SR_TXE"
  using board_boots(2-4) by (simp_all add: bench_image_ok_def bench_board_image_def apart_def)

lemma ball_hits:
  assumes "ball n p x g y"
  shows "n \<le> 2 * BENCH_ITERATIONS" "p = N_rest \<Longrightarrow> n = 2 * BENCH_ITERATIONS"
    "p = N_give i start \<Longrightarrow> (n + 1) div 2 = i"
  using assms by (cases p; auto)+

text \<open>C15: The benchmark build boots and its two tasks play ball. From any memory contents \<^verbatim>\<open>main\<close> gets
  through the self-test and the benchmarks, after whose hundred scheduling decisions the launch
  enters pong. From there on, whatever the interleaving of task steps, ticks, captures
  and context switches, the two tasks give each other's semaphore strictly in turn, ping first; the loop
  counter of ping is the number of rounds begun, no give is lost, none is counted
  twice, and when the measurement is over exactly 100 rounds have been played.\<close>
theorem bench_rally:
  assumes "bench_image_ok img" "port_ok c (GPIOA c)" "plain hw USART2_CR1" "responsive hw USART2_SR SR_TXE"
  shows "\<exists>core' b. main_bench c hw img core (reset_state m cr, h) = Some (core', b) \<and>
    pc core' = pong_entry img \<and> psp core' = stack_top (pong_stack img) STACK_SIZE \<and> running (krn b) 1 \<and>
    (\<forall>hs w. rally_run c hw (rally_start b) hs w \<longrightarrow> hs = alternate (length hs) \<and> length hs \<le> 2 * BENCH_ITERATIONS \<and>
      (\<forall>i start. ping_at w = N_give i start \<longrightarrow> (length hs + 1) div 2 = i) \<and>
      (ping_at w = N_rest \<longrightarrow> length hs = 2 * BENCH_ITERATIONS))"
proof -
  obtain core' b where b: "main_bench c hw img core (reset_state m cr, h) = Some (core', b)" "pc core' = pong_entry img"
    "psp core' = stack_top (pong_stack img) STACK_SIZE" "running (krn b) 1" "rally_ok hw [] (rally_start b)"
    by (rule bench_boots [OF assms])
  have "hs = alternate (length hs) \<and> length hs \<le> 2 * BENCH_ITERATIONS \<and>
      (\<forall>i start. ping_at w = N_give i start \<longrightarrow> (length hs + 1) div 2 = i) \<and>
      (ping_at w = N_rest \<longrightarrow> length hs = 2 * BENCH_ITERATIONS)" if "rally_run c hw (rally_start b) hs w" for hs w
    using rally_okD(3,4) [OF rally_run_ok [OF that b(5)] refl] ball_hits by blast
  with b show ?thesis by blast
qed

theorem bench_rally_witness:
  "\<exists>core' b. main_bench board_cmsis uart_off_hw bench_board_image reset_cpu (reset_state (\<lambda>_. 0) 0, []) = Some (core', b) \<and>
    pc core' = pong_entry bench_board_image \<and> psp core' = stack_top (pong_stack bench_board_image) STACK_SIZE \<and>
    running (krn b) 1 \<and>
    (\<forall>hs w. rally_run board_cmsis uart_off_hw (rally_start b) hs w \<longrightarrow>
      hs = alternate (length hs) \<and> length hs \<le> 2 * BENCH_ITERATIONS \<and>
      (\<forall>i start. ping_at w = N_give i start \<longrightarrow> (length hs + 1) div 2 = i) \<and>
      (ping_at w = N_rest \<longrightarrow> length hs = 2 * BENCH_ITERATIONS))"
  by (rule bench_rally [OF bench_board_boots])

lemma bench_board_started:
  obtains core' b w where
    "main_bench board_cmsis uart_off_hw bench_board_image reset_cpu (reset_state (\<lambda>_. 0) 0, []) = Some (core', b)"
    "rally_enabled (Run 1) (rally_start b)" "rally_exec board_cmsis uart_off_hw (Run 1) (rally_start b) = Some w"
proof -
  obtain core' b where b:
    "main_bench board_cmsis uart_off_hw bench_board_image reset_cpu (reset_state (\<lambda>_. 0) 0, []) = Some (core', b)"
    "running (krn b) 1" "rally_ok uart_off_hw [] (rally_start b)" "halted_in (krn b) = None" "\<not> pendsv (krn b)"
    by (rule bench_boots [OF bench_board_boots])
  then have en: "rally_enabled (Run 1) (rally_start b)" by (simp add: on_cpu_def rally_start_def)
  obtain w where "rally_exec board_cmsis uart_off_hw (Run 1) (rally_start b) = Some w" by (rule rally_exec_ok [OF b(3) en])
  with that b(1) en show ?thesis by blast
qed

text \<open>C16: The measurement of the benchmark build ends. In every state it can reach, each event that can
  happen has a result; every step of ping before its final rest, and every step of pong,
  lowers the number of steps that are left, which is bounded from the start and which no other event
  changes; and the task whose turn it is does not wait: it is runnable, or sleeps with a deadline.\<close>
theorem bench_measurement_ends:
  assumes "bench_image_ok img" "port_ok c (GPIOA c)" "plain hw USART2_CR1" "responsive hw USART2_SR SR_TXE"
    and "main_bench c hw img core (reset_state m cr, h) = Some (core', b)"
    and "rally_run c hw (rally_start b) hs w" "rally_enabled e w" "t = length hs mod 2"
  shows "\<exists>w'. rally_exec c hw e w = Some w' \<and> rally_run c hw (rally_start b) (hs @ hits e w) w' \<and>
    (if e = Run 0 \<and> ping_at w \<noteq> N_rest \<or> e = Run 1
     then rally_left (length (hs @ hits e w)) w' < rally_left (length hs) w
     else rally_left (length (hs @ hits e w)) w' = rally_left (length hs) w) \<and>
    rally_left 0 (rally_start b) = 4 * BENCH_ITERATIONS + 6 \<and>
    (runnable_at (krn (bench_board w)) t \<or> sleep_time (os_tasks (krn (bench_board w)) ! t) \<noteq> 0)"
proof -
  from bench_boots [OF assms(1-4)] assms(5) have "rally_ok hw [] (rally_start b)" by (metis option.inject prod.inject)
  then have ok: "rally_ok hw hs w" by (rule rally_run_ok [OF assms(6)])
  obtain w' where w': "rally_exec c hw e w = Some w'" by (rule rally_exec_ok [OF ok assms(7)])
  have "rally_left 0 (rally_start b) = 4 * BENCH_ITERATIONS + 6" by (simp add: rally_left_def rally_start_def)
  with w' rally_run.later [OF assms(6,7) w'] rally_left_step [OF ok w' assms(7)] rally_live(2) [OF ok assms(8)]
  show ?thesis by blast
qed

theorem bench_measurement_ends_witness:
  "\<exists>core' b w. main_bench board_cmsis uart_off_hw bench_board_image reset_cpu (reset_state (\<lambda>_. 0) 0, []) = Some (core', b) \<and>
    rally_exec board_cmsis uart_off_hw (Run 1) (rally_start b) = Some w \<and>
    rally_left 0 w < rally_left 0 (rally_start b) \<and> rally_left 0 (rally_start b) = 406"
proof -
  obtain core' b w where run:
    "main_bench board_cmsis uart_off_hw bench_board_image reset_cpu (reset_state (\<lambda>_. 0) 0, []) = Some (core', b)"
    "rally_enabled (Run 1) (rally_start b)" "rally_exec board_cmsis uart_off_hw (Run 1) (rally_start b) = Some w"
    by (rule bench_board_started)
  have "hits (Run 1) (rally_start b) = []" by (simp add: hits_def rally_start_def)
  with bench_measurement_ends [OF bench_board_boots run(1) rally_run.start run(2) refl] run(3)
  have "rally_left 0 w < rally_left 0 (rally_start b)" "rally_left 0 (rally_start b) = 406"
    by (simp_all add: BENCH_ITERATIONS_def)
  with run show ?thesis by blast
qed

end
