(* ===== verification/Host_Tests.thy ===== *)
theory Host_Tests
  imports Self_Test Boot
begin

text \<open>
  The unit tests of the repository, \<^verbatim>\<open>Test/test_kernel.c\<close>, as programs over the model of the
  kernel. The model passes all of them, whatever state they start from. The addresses of the
  local objects of a test and of the array \<^verbatim>\<open>stacks\<close> are parameters, and addresses have 32 bits as on the
  target. The stub header \<^verbatim>\<open>Test/stm32f4xx.h\<close> makes the registers plain variables, which the state of
  the kernel has already; \<^verbatim>\<open>NVIC_SetPriority\<close> does nothing there.
\<close>

subsection \<open>The harness\<close>

text \<open>\<^verbatim>\<open>assert\<close> aborts; the stubbed overflow hook is an assertion that fails.\<close>

definition check :: "bool \<Rightarrow> unit option" where
  "check b = (if b then Some () else None)"

definition host_scheduler :: "kernel \<Rightarrow> kernel option" where
  "host_scheduler s = do { s \<leftarrow> os_scheduler s; check (halted_in s = None); Some s }"

text \<open>\<^verbatim>\<open>os_kernel_launch\<close> with the stub of \<^verbatim>\<open>os_start_first_task\<close>, which returns.\<close>

definition host_launch :: "kernel \<Rightarrow> kernel option" where
  "host_launch s = do {
     s \<leftarrow> host_scheduler (s\<lparr>systick_load := SYS_CLK_HZ div SYSTICK_FREQ - 1, systick_val := 0,
            systick_ctrl := 4 OR 2 OR 1\<rparr>);
     Some (s\<lparr>kernel_running := True\<rparr>) }"

definition pendsv_pending :: "kernel \<Rightarrow> bool \<times> kernel" where
  "pendsv_pending s = (pendsv s, s\<lparr>pendsv := False\<rparr>)"

text \<open>\<^verbatim>\<open>&stacks[i]\<close>, and an entry point that is not NULL.\<close>

definition host_stack :: "u32 \<Rightarrow> nat \<Rightarrow> u32" where
  "host_stack stacks i = stacks + of_nat i * (4 * STACK_SIZE)"

definition dummy_task :: u32 where "dummy_task = 0x1000"

fun create_each :: "u32 \<Rightarrow> nat \<Rightarrow> u8 list \<Rightarrow> kernel \<Rightarrow> kernel option" where
  "create_each stacks i [] s = Some s"
| "create_each stacks i (p # ps) s = do {
     (ok, s) \<leftarrow> os_task_create dummy_task (host_stack stacks i) STACK_SIZE p s;
     check ok;
     create_each stacks (i + 1) ps s }"

definition test_setup :: "u32 \<Rightarrow> u8 list \<Rightarrow> kernel \<Rightarrow> kernel option" where
  "test_setup stacks priorities s = do {
     let s = (os_kernel_init s)\<lparr>os_tasks := replicate MAX_TASKS tcb_zero, current_tcb := None\<rparr>;
     s \<leftarrow> create_each stacks 0 priorities s;
     s \<leftarrow> host_launch s;
     Some (s\<lparr>pendsv := False\<rparr>) }"

abbreviation task_at :: "kernel \<Rightarrow> tid \<Rightarrow> tcb" where
  "task_at s t \<equiv> os_tasks s ! t"

subsection \<open>The tests\<close>

definition test_scheduler_picks_highest_priority :: "u32 \<Rightarrow> kernel \<Rightarrow> kernel option" where
  "test_scheduler_picks_highest_priority stacks s = do {
     s \<leftarrow> test_setup stacks [0, 3, 1] s;
     check (current_tcb s = Some 1);
     check (state (task_at s 1) = RUNNING);
     s \<leftarrow> upd_tcb 1 (\<lambda>x. x\<lparr>state := BLOCKED\<rparr>) s;
     s \<leftarrow> host_scheduler s;
     check (current_tcb s = Some 2);
     s \<leftarrow> upd_tcb 2 (\<lambda>x. x\<lparr>state := BLOCKED\<rparr>) s;
     s \<leftarrow> host_scheduler s;
     check (current_tcb s = Some 0);
     Some s }"

fun passes :: "nat \<Rightarrow> kernel \<Rightarrow> (tid option list \<times> kernel) option" where
  "passes 0 s = Some ([], s)"
| "passes (Suc n) s = do {
     let c = current_tcb s;
     s \<leftarrow> host_scheduler s;
     check (current_tcb s \<noteq> c);
     (seen, s) \<leftarrow> passes n s;
     Some (c # seen, s) }"

definition test_equal_priority_round_robins :: "u32 \<Rightarrow> kernel \<Rightarrow> kernel option" where
  "test_equal_priority_round_robins stacks s = do {
     s \<leftarrow> test_setup stacks [2, 2, 2] s;
     (seen, s) \<leftarrow> passes 3 s;
     check (seen ! 0 \<noteq> seen ! 1 \<and> seen ! 1 \<noteq> seen ! 2 \<and> seen ! 0 \<noteq> seen ! 2);
     Some s }"

definition test_tick_preempts_and_wakes_sleepers :: "u32 \<Rightarrow> kernel \<Rightarrow> kernel option" where
  "test_tick_preempts_and_wakes_sleepers stacks s = do {
     s \<leftarrow> test_setup stacks [0, 1] s;
     check (current_tcb s = Some 1);
     s \<leftarrow> os_delay 3 s;
     c \<leftarrow> current_tcb s;
     check (state (task_at s c) = BLOCKED);
     let (p, s) = pendsv_pending s;
     check p;
     s \<leftarrow> host_scheduler s;
     check (current_tcb s = Some 0);
     s \<leftarrow> SysTick_Handler s;
     s \<leftarrow> SysTick_Handler s;
     check (state (task_at s 1) = BLOCKED);
     s \<leftarrow> SysTick_Handler s;
     check (state (task_at s 1) = READY);
     let (p, s) = pendsv_pending s;
     check p;
     s \<leftarrow> host_scheduler s;
     check (current_tcb s = Some 1);
     Some s }"

definition test_priority_inheritance :: "u32 \<Rightarrow> maddr \<Rightarrow> kernel \<Rightarrow> kernel option" where
  "test_priority_inheritance stacks m s = do {
     s \<leftarrow> test_setup stacks [0, 1, 3] s;
     let s = os_mutex_init m s;
     s \<leftarrow> upd_tcb 1 (\<lambda>x. x\<lparr>state := RUNNING\<rparr>) (s\<lparr>current_tcb := Some 1\<rparr>);
     (r, s) \<leftarrow> os_mutex_acquire m WAIT_FOREVER s;
     check (r = Returned OS_SUCCESS);
     x \<leftarrow> mutexes s m;
     check (owner x = Some 1);
     s \<leftarrow> upd_tcb 2 (\<lambda>x. x\<lparr>state := RUNNING\<rparr>) (s\<lparr>current_tcb := Some 2\<rparr>);
     (_, s) \<leftarrow> os_mutex_acquire m WAIT_FOREVER s;
     check (state (task_at s 2) = BLOCKED);
     x \<leftarrow> mutexes s m;
     check (m_wait_count x = 1);
     check (current_priority (task_at s 1) = 3);
     check (base_priority (task_at s 1) = 1);
     s \<leftarrow> host_scheduler s;
     check (current_tcb s = Some 1);
     s \<leftarrow> os_mutex_release m (s\<lparr>current_tcb := Some 1\<rparr>);
     check (current_priority (task_at s 1) = 1);
     x \<leftarrow> mutexes s m;
     check (owner x = Some 2);
     check (lock x = 1);
     check (state (task_at s 2) = READY);
     check (m_wait_count x = 0);
     check (wait_result (task_at s 2) = OS_SUCCESS);
     s \<leftarrow> host_scheduler s;
     check (current_tcb s = Some 2);
     Some s }"

definition test_mutex_timeout :: "u32 \<Rightarrow> maddr \<Rightarrow> kernel \<Rightarrow> kernel option" where
  "test_mutex_timeout stacks m s = do {
     s \<leftarrow> test_setup stacks [0, 1, 2] s;
     let s = os_mutex_init m s;
     (r, s) \<leftarrow> os_mutex_acquire m 0 (s\<lparr>current_tcb := Some 1\<rparr>);
     check (r = Returned OS_SUCCESS);
     (r, s) \<leftarrow> os_mutex_acquire m 0 (s\<lparr>current_tcb := Some 2\<rparr>);
     check (r = Returned OS_TIMEOUT);
     x \<leftarrow> mutexes s m;
     check (m_wait_count x = 0);
     (_, s) \<leftarrow> os_mutex_acquire m 5 s;
     check (state (task_at s 2) = BLOCKED);
     check (sleep_time (task_at s 2) = 5);
     x \<leftarrow> mutexes s m;
     check (m_wait_count x = 1);
     s \<leftarrow> ticks 5 s;
     check (state (task_at s 2) = READY);
     check (wait_result (task_at s 2) = OS_TIMEOUT);
     x \<leftarrow> mutexes s m;
     check (m_wait_count x = 0);
     check (owner x = Some 1);
     Some s }"

definition test_semaphore_handoff :: "u32 \<Rightarrow> saddr \<Rightarrow> kernel \<Rightarrow> kernel option" where
  "test_semaphore_handoff stacks a s = do {
     s \<leftarrow> test_setup stacks [0, 1] s;
     let s = os_semaphore_init a 0 1 s;
     (r, s) \<leftarrow> os_semaphore_acquire a 0 (s\<lparr>current_tcb := Some 1\<rparr>);
     check (r = Returned OS_TIMEOUT);
     (_, s) \<leftarrow> os_semaphore_acquire a WAIT_FOREVER s;
     check (state (task_at s 1) = BLOCKED);
     x \<leftarrow> sems s a;
     check (s_wait_count x = 1);
     check (sleep_time (task_at s 1) = 0);
     s \<leftarrow> os_semaphore_release a s;
     check (state (task_at s 1) = READY);
     check (wait_result (task_at s 1) = OS_SUCCESS);
     x \<leftarrow> sems s a;
     check (s_wait_count x = 0);
     check (sem_count x = 0);
     let s = os_semaphore_init a 0 2 s;
     s \<leftarrow> os_semaphore_release a s;
     s \<leftarrow> os_semaphore_release a s;
     s \<leftarrow> os_semaphore_release a s;
     x \<leftarrow> sems s a;
     check (sem_count x = 2);
     Some s }"

text \<open>The loops of \<^verbatim>\<open>test_queue\<close>.\<close>

fun send_each :: "nat \<Rightarrow> u32 list \<Rightarrow> kernel \<Rightarrow> kernel option" where
  "send_each q [] s = Some s"
| "send_each q (v # vs) s = do {
     (r, s) \<leftarrow> os_queue_send q v 0 s; check (case r of Q_done c _ \<Rightarrow> c = OS_SUCCESS | _ \<Rightarrow> False); send_each q vs s }"

fun expect_each :: "nat \<Rightarrow> u32 list \<Rightarrow> kernel \<Rightarrow> kernel option" where
  "expect_each q [] s = Some s"
| "expect_each q (v # vs) s = do {
     (r, s) \<leftarrow> os_queue_receive q 0 s; check (r = Q_done OS_SUCCESS (Some v)); expect_each q vs s }"

definition test_queue :: "u32 \<Rightarrow> nat \<Rightarrow> u32 \<Rightarrow> kernel \<Rightarrow> kernel option" where
  "test_queue stacks q buf s = do {
     s \<leftarrow> test_setup stacks [0, 1] s;
     let s = os_queue_init q buf 4 (s\<lparr>current_tcb := Some 1\<rparr>);
     (r, s) \<leftarrow> os_queue_receive q 0 s;
     check (r = Q_done OS_TIMEOUT None);
     s \<leftarrow> send_each q [1, 2, 3, 4] s;
     s \<leftarrow> expect_each q [1, 2, 3, 4] s;
     s \<leftarrow> send_each q [1, 2, 3, 4, 5, 6] s;
     s \<leftarrow> expect_each q [3, 4, 5, 6] s;
     (r, s) \<leftarrow> os_queue_receive q 0 s;
     check (r = Q_done OS_TIMEOUT None);
     Some s }"

definition test_critical_sections_nest :: "u32 \<Rightarrow> nat \<Rightarrow> u32 \<Rightarrow> kernel \<Rightarrow> kernel option" where
  "test_critical_sections_nest stacks q buf s = do {
     s \<leftarrow> test_setup stacks [0, 1] s;
     let s = os_queue_init q buf 2 (s\<lparr>current_tcb := Some 1\<rparr>);
     (_, s) \<leftarrow> os_queue_send q 42 0 (s\<lparr>primask := 1\<rparr>);
     check (primask s = 1);
     (r, s) \<leftarrow> os_queue_receive q 0 s;
     check (primask s = 1);
     check (case r of Q_done _ v \<Rightarrow> v = Some 42 | _ \<Rightarrow> False);
     (_, s) \<leftarrow> os_queue_send q 7 0 (s\<lparr>primask := 0\<rparr>);
     check (primask s = 0);
     Some s }"

text \<open>The local objects: two mutexes, a semaphore, two queues with their buffers.\<close>

definition host_main ::
  "u32 \<Rightarrow> maddr \<times> maddr \<times> saddr \<times> nat \<times> u32 \<times> nat \<times> u32 \<Rightarrow> kernel \<Rightarrow> kernel option" where
  "host_main stacks objs s = (case objs of (m1, m2, a, q1, buf1, q2, buf2) \<Rightarrow> do {
     s \<leftarrow> test_scheduler_picks_highest_priority stacks s;
     s \<leftarrow> test_equal_priority_round_robins stacks s;
     s \<leftarrow> test_tick_preempts_and_wakes_sleepers stacks s;
     s \<leftarrow> test_priority_inheritance stacks m1 s;
     s \<leftarrow> test_mutex_timeout stacks m2 s;
     s \<leftarrow> test_semaphore_handoff stacks a s;
     s \<leftarrow> test_queue stacks q1 buf1 s;
     test_critical_sections_nest stacks q2 buf2 s })"

subsection \<open>After the set-up\<close>

definition host_task :: "u32 \<Rightarrow> nat \<Rightarrow> u8 \<Rightarrow> task_state \<Rightarrow> tcb" where
  "host_task b i p st = \<lparr>stackPtr = stack_top (host_stack b i) STACK_SIZE - 64, state = st, base_priority = p,
     current_priority = p, stackBase = host_stack b i, stackSize = STACK_SIZE, sleep_time = 0, wait_queue = None,
     wait_count = None, wait_result = OS_SUCCESS\<rparr>"

abbreviation one_task :: "u32 \<Rightarrow> u8 \<Rightarrow> tcb list" where
  "one_task b p \<equiv> [host_task b 0 p READY, tcb_zero, tcb_zero, tcb_zero, tcb_zero, tcb_zero]"

abbreviation two_tasks :: "u32 \<Rightarrow> u8 \<Rightarrow> u8 \<Rightarrow> tcb list" where
  "two_tasks b p q \<equiv> [host_task b 0 p READY, host_task b 1 q READY, tcb_zero, tcb_zero, tcb_zero, tcb_zero]"

abbreviation three_tasks :: "u32 \<Rightarrow> u8 \<Rightarrow> u8 \<Rightarrow> u8 \<Rightarrow> tcb list" where
  "three_tasks b p q r \<equiv>
     [host_task b 0 p READY, host_task b 1 q READY, host_task b 2 r READY, tcb_zero, tcb_zero, tcb_zero]"

lemma created_host: "created (host_stack b i) STACK_SIZE p tcb_zero = host_task b i p READY"
  by (simp add: created_def host_task_def tcb_zero_def)

lemma host_stack_unat:
  assumes "unat b + 6144 < 2 ^ 32" "i < 6"
  shows "unat (host_stack b i) = unat b + 1024 * i"
proof -
  have "unat (of_nat i * (4 * STACK_SIZE) :: u32) = 1024 * i"
    using assms(2) by (simp add: model_defs unat_word_ariths unat_of_nat)
  moreover from this have "unat b + unat (of_nat i * (4 * STACK_SIZE) :: u32) < 2 ^ 32" using assms by linarith
  ultimately show ?thesis unfolding host_stack_def by (subst unat_add_lem [THEN iffD1]) auto
qed

text \<open>The canaries of the first \<open>n\<close> tasks.\<close>

definition canaries :: "u32 \<Rightarrow> nat \<Rightarrow> (u32 \<Rightarrow> u32) \<Rightarrow> bool" where
  "canaries b n h \<longleftrightarrow> (\<forall>i<n. h (host_stack b i) = STACK_CANARY)"

lemma create_one:
  assumes b: "unat b + 6144 < 2 ^ 32" and len: "length (os_tasks s) = 6" and i: "tc s = i" "i < 6"
    and old: "canaries b i (mem s)" and z: "os_tasks s ! i = tcb_zero"
  shows "\<exists>h. os_task_create dummy_task (host_stack b i) STACK_SIZE p s = Some (True,
      s\<lparr>os_tasks := (os_tasks s)[i := host_task b i p READY], mem := h,
        current_tcb := (case current_tcb s of None \<Rightarrow> Some i | Some c \<Rightarrow> Some c), task_count := task_count s + 1\<rparr>) \<and>
    canaries b (Suc i) h"
proof -
  let ?k = "host_stack b i"
  let ?h = "snd (os_task_init_stack dummy_task (stack_top ?k STACK_SIZE) ((mem s)(?k := STACK_CANARY)))"
  have w: "64 \<le> STACK_SIZE" "unat STACK_SIZE = 256" by (simp_all add: model_defs)
  have f: "unat ?k + 4 * unat STACK_SIZE < 2 ^ 32" using host_stack_unat [OF b i(2)] b i(2) w(2) by simp
  have out: "?h (host_stack b j) = mem s (host_stack b j)" if "j < i" for j
    by (rule create_mem_outside [OF f w(1)]) (use host_stack_unat [OF b] that i(2) w(2) in simp)
  have "?k \<noteq> stack_top ?k STACK_SIZE - d" if "0 < unat d" "unat d \<le> 64" for d
    using frame_addr_above [OF f w(1) that] by auto
  then have "?h ?k = STACK_CANARY" by (simp add: init_stack_mem)
  with out old have "canaries b (Suc i) ?h" by (simp add: canaries_def less_Suc_eq)
  moreover have "dummy_task \<noteq> 0" "tc s < MAX_TASKS" "length (os_tasks s) = MAX_TASKS"
    using len i by (simp_all add: dummy_task_def model_defs)
  ultimately show ?thesis using os_task_create_eq [of s dummy_task STACK_SIZE ?k p] w(1) i(1) z created_host by auto
qed

abbreviation blank :: "kernel \<Rightarrow> kernel" where
  "blank s \<equiv> (os_kernel_init s)\<lparr>os_tasks := replicate MAX_TASKS tcb_zero, current_tcb := None\<rparr>"

lemma zeros: "replicate MAX_TASKS tcb_zero = [tcb_zero, tcb_zero, tcb_zero, tcb_zero, tcb_zero, tcb_zero]"
  by (simp add: model_defs eval_nat_numeral)

definition made :: "kernel \<Rightarrow> tcb list \<Rightarrow> u8 \<Rightarrow> (u32 \<Rightarrow> u32) \<Rightarrow> kernel" where
  "made s ts n h = (blank s)\<lparr>os_tasks := ts, mem := h, current_tcb := Some 0, task_count := n\<rparr>"

text \<open>One more task after the first.\<close>

lemma create_next:
  assumes b: "unat b + 6144 < 2 ^ 32" and len: "length ts = 6" and i: "unat n = i" "0 < i" "i < 6"
    and old: "canaries b i h" and z: "ts ! i = tcb_zero"
  shows "\<exists>h'. os_task_create dummy_task (host_stack b i) STACK_SIZE p (made s ts n h) =
      Some (True, made s (ts[i := host_task b i p READY]) (n + 1) h') \<and> canaries b (Suc i) h'"
  using create_one [OF b, of "made s ts n h" i p] assms by (simp add: made_def)

lemma create_first:
  assumes b: "unat b + 6144 < 2 ^ 32"
  shows "\<exists>h. os_task_create dummy_task (host_stack b 0) STACK_SIZE p (blank s) =
      Some (True, made s (one_task b p) 1 h) \<and> canaries b 1 h"
  using create_one [OF b, of "blank s" 0 p] by (simp add: made_def zeros canaries_def)

lemma create_two:
  assumes b: "unat b + 6144 < 2 ^ 32"
  obtains h where "create_each b 0 [p, q] (blank s) =
    Some (made s (two_tasks b p q) 2 h)" "canaries b 2 h"
proof -
  obtain h1 where h1: "os_task_create dummy_task (host_stack b 0) STACK_SIZE p (blank s) =
      Some (True, made s (one_task b p) 1 h1)" "canaries b 1 h1"
    using create_first [OF b] by blast
  obtain h2 where "os_task_create dummy_task (host_stack b 1) STACK_SIZE q
      (made s (one_task b p) 1 h1) =
      Some (True, made s (two_tasks b p q) 2 h2)"
      "canaries b 2 h2"
    using create_next [OF b _ _ _ _ h1(2), of "(one_task b p)" 1 q s]
    by (auto simp: numeral_2_eq_2)
  with h1(1) that show ?thesis by (simp add: check_def)
qed

lemma create_each_append:
  "create_each b i (ps @ qs) s = do { s \<leftarrow> create_each b i ps s; create_each b (i + length ps) qs s }"
  by (induction ps arbitrary: i s) (auto split: Option.bind_split)

lemma create_three:
  assumes b: "unat b + 6144 < 2 ^ 32"
  obtains h where "create_each b 0 [p, q, r] (blank s) =
    Some (made s (three_tasks b p q r) 3 h)"
    "canaries b 3 h"
proof -
  let ?two = "two_tasks b p q"
  obtain h2 where h2: "create_each b 0 [p, q] (blank s) = Some (made s ?two 2 h2)" "canaries b 2 h2"
    by (rule create_two [OF b])
  obtain h3 where "os_task_create dummy_task (host_stack b 2) STACK_SIZE r (made s ?two 2 h2) =
      Some (True, made s (three_tasks b p q r) 3 h3)"
      "canaries b 3 h3"
    using create_next [OF b _ _ _ _ h2(2), of ?two 2 r s] by (auto simp: numeral_3_eq_3)
  with h2(1) that create_each_append [of b 0 "[p, q]" "[r]" "blank s"] show ?thesis
    by (simp add: check_def numeral_2_eq_2 del: create_each.simps) (simp add: check_def)
qed

subsection \<open>The tests pass\<close>

text \<open>Evaluation from left to right: what follows a step is looked at once the step has a result.\<close>

lemma bind_first: "x = y \<Longrightarrow> Option.bind x f = Option.bind y f"
  by simp

lemma update_numeral [simp]: "(x # xs)[numeral k := v] = x # xs[pred_numeral k := v]"
  by (simp add: numeral_eq_Suc)

lemma small_ranges: "[0..<2] = [0, 1 :: nat]" "[0..<3] = [0, 1, 2 :: nat]"
  by (simp_all add: upt_rec)

lemma three_passes: "passes 3 = passes (Suc (Suc (Suc 0)))"
  by (simp add: numeral_3_eq_3)

lemmas host_steps = host_launch_def host_scheduler_def check_def made_def os_kernel_init_def os_scheduler_def
  canary_broken_def get_tcb_def rd_def upd_tcb_def demote_current_def scan_start_def runnable_def host_task_def
  Let_def small_ranges

lemma canariesD:
  "canaries b 2 h \<Longrightarrow> h (host_stack b 0) = STACK_CANARY \<and> h (host_stack b (Suc 0)) = STACK_CANARY"
  "canaries b 3 h \<Longrightarrow> h (host_stack b 0) = STACK_CANARY \<and> h (host_stack b (Suc 0)) = STACK_CANARY \<and>
     h (host_stack b 2) = STACK_CANARY"
  by (simp_all add: canaries_def)

lemma five_ticks: "ticks 5 s = do {
    s \<leftarrow> SysTick_Handler s; s \<leftarrow> SysTick_Handler s; s \<leftarrow> SysTick_Handler s; s \<leftarrow> SysTick_Handler s;
    SysTick_Handler s }"
  by (simp add: eval_nat_numeral cong: bind_first split: Option.bind_split)

lemma remove_only: "a \<noteq> [] \<Longrightarrow> a ! 0 = Some t \<Longrightarrow> remove_scan t 0 a 1 = Some (a, 0)"
  by (simp add: remove_scan.simps [of t 0] shift_down.simps rd_def)

text \<open>A local object is not cleared: its wait array holds what was there.\<close>

definition stale_m :: "os_mutex option \<Rightarrow> tid option list" where
  "stale_m x = (case x of Some x \<Rightarrow> m_wait_queue x | None \<Rightarrow> replicate MAX_WAITING_TASKS None)"

definition stale_s :: "os_semaphore option \<Rightarrow> tid option list" where
  "stale_s x = (case x of Some x \<Rightarrow> s_wait_queue x | None \<Rightarrow> replicate MAX_TASKS None)"

definition sized :: "kernel \<Rightarrow> bool" where
  "sized s \<longleftrightarrow> (\<forall>m. length (stale_m (mutexes s m)) = MAX_WAITING_TASKS) \<and>
     (\<forall>a. length (stale_s (sems s a)) = MAX_TASKS)"

lemma mutex_init_eq: "os_mutex_init m s = s\<lparr>mutexes := (mutexes s)(m \<mapsto>
    \<lparr>lock = 0, owner = None, m_wait_queue = stale_m (mutexes s m), m_wait_count = 0\<rparr>)\<rparr>"
proof (cases "mutexes s m")
  case (Some x)
  then show ?thesis by (cases x) (simp add: os_mutex_init_def stale_m_def)
qed (simp add: os_mutex_init_def stale_m_def)

lemma semaphore_init_eq: "os_semaphore_init a i k s = s\<lparr>sems := (sems s)(a \<mapsto>
    \<lparr>sem_count = i, sem_max_count = k, s_wait_queue = stale_s (sems s a), s_wait_count = 0\<rparr>)\<rparr>"
proof (cases "sems s a")
  case (Some x)
  then show ?thesis by (cases x) (simp add: os_semaphore_init_def stale_s_def)
qed (simp add: os_semaphore_init_def stale_s_def)

lemmas tick_steps = SysTick_Handler_def tick_task_def os_yield_def os_enter_critical_def os_exit_critical_def
  os_delay_def pendsv_pending_def five_ticks

lemmas wait_steps = mutex_init_eq os_mutex_acquire_def os_mutex_release_def donate_priority_def drop_donation_def
  semaphore_init_eq os_semaphore_acquire_def os_semaphore_release_def upd_sem_def upd_mutex_def
  block_current_def pick_waiter_def wake_task_def wait_queue_remove_def remove_only wr_def
  stale_s_def [of "Some x" for x] stale_m_def [of "Some x" for x] MAX_TASKS_def MAX_WAITING_TASKS_def WAIT_FOREVER_def

text \<open>What a test takes from its predecessor and leaves for the next.\<close>

definition usable :: "u32 \<Rightarrow> kernel \<Rightarrow> bool" where
  "usable b s \<longleftrightarrow> unat b + 6144 < 2 ^ 32 \<and> halted_in s = None \<and> sized s"

lemma made_two:
  assumes "usable b s"
  obtains h where "create_each b 0 [p, q] (blank s) =
    Some (made s (two_tasks b p q) 2 h)"
    "h (host_stack b 0) = STACK_CANARY" "h (host_stack b (Suc 0)) = STACK_CANARY"
  using create_two [of b p q s] canariesD(1) assms unfolding usable_def by blast

lemma made_three:
  assumes "usable b s"
  obtains h where "create_each b 0 [p, q, r] (blank s) =
    Some (made s (three_tasks b p q r) 3 h)"
    "h (host_stack b 0) = STACK_CANARY" "h (host_stack b (Suc 0)) = STACK_CANARY" "h (host_stack b 2) = STACK_CANARY"
  using create_three [of b p q r s] canariesD(2) assms unfolding usable_def by blast

lemma picks_highest_passes:
  assumes "usable b s"
  shows "\<exists>s'. test_scheduler_picks_highest_priority b s = Some s' \<and> usable b s'"
proof -
  from made_three [OF assms, of 0 3 1] obtain h where h: "create_each b 0 [0, 3, 1] (blank s) =
      Some (made s (three_tasks b 0 3 1) 3 h)"
    "h (host_stack b 0) = STACK_CANARY" "h (host_stack b (Suc 0)) = STACK_CANARY" "h (host_stack b 2) = STACK_CANARY"
    by blast
  show ?thesis
    unfolding test_scheduler_picks_highest_priority_def test_setup_def Let_def h(1)
    using assms h(2-) by (simp add: usable_def sized_def host_steps cong: bind_first)
qed

lemma round_robin_passes:
  assumes "usable b s"
  shows "\<exists>s'. test_equal_priority_round_robins b s = Some s' \<and> usable b s'"
proof -
  from made_three [OF assms, of 2 2 2] obtain h where h: "create_each b 0 [2, 2, 2] (blank s) =
      Some (made s (three_tasks b 2 2 2) 3 h)"
    "h (host_stack b 0) = STACK_CANARY" "h (host_stack b (Suc 0)) = STACK_CANARY" "h (host_stack b 2) = STACK_CANARY"
    by blast
  show ?thesis
    unfolding test_equal_priority_round_robins_def test_setup_def Let_def h(1) three_passes
    using assms h(2-) by (simp add: usable_def sized_def host_steps cong: bind_first)
qed

lemma tick_passes:
  assumes "usable b s"
  shows "\<exists>s'. test_tick_preempts_and_wakes_sleepers b s = Some s' \<and> usable b s'"
proof -
  from made_two [OF assms, of 0 1] obtain h where h: "create_each b 0 [0, 1] (blank s) =
      Some (made s (two_tasks b 0 1) 2 h)"
    "h (host_stack b 0) = STACK_CANARY" "h (host_stack b (Suc 0)) = STACK_CANARY"
    by blast
  show ?thesis
    unfolding test_tick_preempts_and_wakes_sleepers_def test_setup_def Let_def h(1)
    using assms h(2-) by (simp add: usable_def sized_def host_steps tick_steps cong: bind_first)
qed

lemma stale_room:
  "usable b s \<Longrightarrow> length (stale_m (mutexes s m)) = 5" "usable b s \<Longrightarrow> length (stale_s (sems s a)) = 6"
  by (simp_all add: usable_def sized_def model_defs)

lemma inheritance_passes:
  assumes "usable b s"
  shows "\<exists>s'. test_priority_inheritance b m s = Some s' \<and> usable b s'"
proof -
  from made_three [OF assms, of 0 1 3] obtain h where h: "create_each b 0 [0, 1, 3] (blank s) =
      Some (made s (three_tasks b 0 1 3) 3 h)"
    "h (host_stack b 0) = STACK_CANARY" "h (host_stack b (Suc 0)) = STACK_CANARY" "h (host_stack b 2) = STACK_CANARY"
    by blast
  obtain v w where w: "stale_m (mutexes s m) = v # w" "length w = 4"
    using stale_room(1) [OF assms, of m] by (cases "stale_m (mutexes s m)") auto
  show ?thesis
    unfolding test_priority_inheritance_def test_setup_def Let_def h(1)
    using assms h(2-) w by (simp add: usable_def sized_def host_steps tick_steps wait_steps cong: bind_first)
qed

lemma mutex_timeout_passes:
  assumes "usable b s"
  shows "\<exists>s'. test_mutex_timeout b m s = Some s' \<and> usable b s'"
proof -
  from made_three [OF assms, of 0 1 2] obtain h where h: "create_each b 0 [0, 1, 2] (blank s) =
      Some (made s (three_tasks b 0 1 2) 3 h)"
    "h (host_stack b 0) = STACK_CANARY" "h (host_stack b (Suc 0)) = STACK_CANARY" "h (host_stack b 2) = STACK_CANARY"
    by blast
  obtain v w where w: "stale_m (mutexes s m) = v # w" "length w = 4"
    using stale_room(1) [OF assms, of m] by (cases "stale_m (mutexes s m)") auto
  show ?thesis
    unfolding test_mutex_timeout_def test_setup_def Let_def h(1)
    using assms h(2-) w by (simp add: usable_def sized_def host_steps tick_steps wait_steps cong: bind_first)
qed

lemma semaphore_passes:
  assumes "usable b s"
  shows "\<exists>s'. test_semaphore_handoff b a s = Some s' \<and> usable b s'"
proof -
  from made_two [OF assms, of 0 1] obtain h where h: "create_each b 0 [0, 1] (blank s) =
      Some (made s (two_tasks b 0 1) 2 h)"
    "h (host_stack b 0) = STACK_CANARY" "h (host_stack b (Suc 0)) = STACK_CANARY"
    by blast
  obtain v w where w: "stale_s (sems s a) = v # w" "length w = 5"
    using stale_room(2) [OF assms, of a] by (cases "stale_s (sems s a)") auto
  show ?thesis
    unfolding test_semaphore_handoff_def test_setup_def Let_def h(1)
    using assms h(2-) w by (simp add: usable_def sized_def host_steps tick_steps wait_steps cong: bind_first)
qed

subsection \<open>The queue tests\<close>

lemma setup_two:
  assumes "unat b + 6144 < 2 ^ 32" "halted_in s = None"
  obtains s' where "test_setup b [0, 1] s = Some s'" "length (os_tasks s') = 6" "halted_in s' = None"
proof -
  from create_two [OF assms(1), of 0 1 s] canariesD(1) obtain h where h: "create_each b 0 [0, 1] (blank s) =
      Some (made s (two_tasks b 0 1) 2 h)"
    "h (host_stack b 0) = STACK_CANARY" "h (host_stack b (Suc 0)) = STACK_CANARY"
    by blast
  have "\<exists>s'. test_setup b [0, 1] s = Some s' \<and> length (os_tasks s') = 6 \<and> halted_in s' = None"
    unfolding test_setup_def Let_def h(1) using assms h(2-) by (simp add: host_steps cong: bind_first)
  with that show ?thesis by blast
qed

lemma send_each_feed: "feed (poll_send q) vs s = Some s' \<Longrightarrow> send_each q vs s = Some s'"
proof (induction vs arbitrary: s)
  case (Cons v vs)
  then obtain s1 where "poll_send q v s = Some s1" "feed (poll_send q) vs s1 = Some s'"
    by (auto split: option.splits)
  with poll_sendD Cons.IH show ?case by (fastforce simp: check_def)
qed simp

lemma expect_each_drain:
  "drain (poll_receive q) (length vs) s = Some (map Some vs, s') \<Longrightarrow> expect_each q vs s = Some s'"
proof (induction vs arbitrary: s)
  case (Cons v vs)
  then obtain s1 where "poll_receive q s = Some (Some v, s1)"
    "drain (poll_receive q) (length vs) s1 = Some (map Some vs, s')"
    by (auto split: option.splits prod.splits)
  with poll_receiveD Cons.IH show ?case by (fastforce simp: check_def)
qed simp

lemma sends_accepted:
  assumes "q_ok q s"
  obtains s' where "send_each q vs s = Some s'" "q_ok q s'" "q_size q s' = q_size q s"
    "contents q s' = last_n (q_size q s) (contents q s @ vs)" "halted_in s' = halted_in s"
proof -
  obtain s' where "feed (poll_send q) vs s = Some s'" "q_from q s s'" "q_size q s' = q_size q s"
    "contents q s' = last_n (q_size q s) (contents q s @ vs)"
    using os_queue.feed_ok [OF q_from_refl [OF assms], of vs] by blast
  with that [of s'] send_each_feed show ?thesis by (auto simp: q_from_def q_frame_def)
qed

lemma receives_expected:
  assumes "q_ok q s" "contents q s = vs @ ws"
  obtains s' where "expect_each q vs s = Some s'" "q_ok q s'" "q_size q s' = q_size q s" "contents q s' = ws"
    "halted_in s' = halted_in s"
proof -
  obtain s' where "drain (poll_receive q) (length vs) s = Some (map Some vs, s')" "q_from q s s'"
    "q_size q s' = q_size q s" "contents q s' = ws"
    using os_queue.drain_ok [OF q_from_refl [OF assms(1)], of "length vs"] assms(2) by fastforce
  with that [of s'] expect_each_drain show ?thesis by (auto simp: q_from_def q_frame_def)
qed

lemma queue_passes:
  assumes "unat b + 6144 < 2 ^ 32" "halted_in s = None"
  shows "\<exists>s'. test_queue b q buf s = Some s' \<and> halted_in s' = None"
proof -
  obtain s0 where s0: "test_setup b [0, 1] s = Some s0" "length (os_tasks s0) = 6" "halted_in s0 = None" by (rule setup_two [OF assms])
  let ?s1 = "os_queue_init q buf 4 (s0\<lparr>current_tcb := Some 1\<rparr>)"
  have init: "q_ok q ?s1" "contents q ?s1 = []" "q_size q ?s1 = 4"
    using q_ok_init [of 4 "s0\<lparr>current_tcb := Some 1\<rparr>" q buf] s0(2) by auto
  obtain s2 where s2: "send_each q [1, 2, 3, 4] ?s1 = Some s2" "q_ok q s2" "q_size q s2 = 4" "contents q s2 = [1, 2, 3, 4]"
    "halted_in s2 = None"
    using sends_accepted [OF init(1), of "[1, 2, 3, 4]"] init s0(3)
    by (auto simp: os_queue_init_def Let_def os_mutex_init_def os_semaphore_init_def)
  obtain s3 where s3: "expect_each q [1, 2, 3, 4] s2 = Some s3" "q_ok q s3" "q_size q s3 = 4" "contents q s3 = []"
    "halted_in s3 = None"
    using receives_expected [OF s2(2), of "[1, 2, 3, 4]" "[]"] s2 by auto
  obtain s4 where s4: "send_each q [1, 2, 3, 4, 5, 6] s3 = Some s4" "q_ok q s4" "q_size q s4 = 4"
    "contents q s4 = [3, 4, 5, 6]" "halted_in s4 = None"
    using sends_accepted [OF s3(2), of "[1, 2, 3, 4, 5, 6]"] s3 by (auto simp: last_n_def)
  obtain s5 where s5: "expect_each q [3, 4, 5, 6] s4 = Some s5" "q_ok q s5" "contents q s5 = []" "halted_in s5 = None"
    using receives_expected [OF s4(2), of "[3, 4, 5, 6]" "[]"] s4 by auto
  show ?thesis
    using receive_empty [OF init(1,2), of 0] receive_empty [OF s5(2,3), of 0] s0(1) s2(1) s3(1) s4(1) s5(1,4)
    by (simp add: test_queue_def check_def del: send_each.simps expect_each.simps)
qed

lemma masked_queue:
  "q_ok q (s\<lparr>primask := p\<rparr>) = q_ok q s" "contents q (s\<lparr>primask := p\<rparr>) = contents q s"
  "q_size q (s\<lparr>primask := p\<rparr>) = q_size q s"
proof -
  have "slots (s\<lparr>primask := p\<rparr>) x = slots s x" for x by (simp add: slots_def fun_eq_iff)
  then show "q_ok q (s\<lparr>primask := p\<rparr>) = q_ok q s" "contents q (s\<lparr>primask := p\<rparr>) = contents q s"
    "q_size q (s\<lparr>primask := p\<rparr>) = q_size q s" by (simp_all add: q_ok_def contents_def q_size_def split: option.split)
qed

lemma nest_passes:
  assumes "unat b + 6144 < 2 ^ 32" "halted_in s = None"
  shows "\<exists>s'. test_critical_sections_nest b q buf s = Some s'"
proof -
  obtain s0 where s0: "test_setup b [0, 1] s = Some s0" "length (os_tasks s0) = 6" "halted_in s0 = None" by (rule setup_two [OF assms])
  let ?s1 = "(os_queue_init q buf 2 (s0\<lparr>current_tcb := Some 1\<rparr>))\<lparr>primask := 1\<rparr>"
  have "q_ok q (os_queue_init q buf 2 (s0\<lparr>current_tcb := Some 1\<rparr>))" using q_ok_init(1) [of 2 "s0\<lparr>current_tcb := Some 1\<rparr>" q buf] s0(2) by auto
  then have init: "q_ok q ?s1" "contents q ?s1 = []" "q_size q ?s1 = 2"
    using q_ok_init(2,3) [of 2 "s0\<lparr>current_tcb := Some 1\<rparr>" q buf] s0(2) by (simp_all add: masked_queue)
  obtain s2 where s2: "os_queue_send q 42 0 ?s1 = Some (Q_done OS_SUCCESS None, s2)" "q_ok q s2"
      "contents q s2 = contents q ?s1 @ [42]" "q_size q s2 = q_size q ?s1" "q_frame q ?s1 s2"
    by (rule send_free [OF init(1), of 42 0]) (use init in simp)
  have p2: "primask s2 = 1" using s2(5) by (simp add: q_frame_def)
  obtain s3 where s3: "os_queue_receive q 0 s2 = Some (Q_done OS_SUCCESS (Some (hd (contents q s2))), s3)"
      "q_ok q s3" "contents q s3 = tl (contents q s2)" "q_size q s3 = q_size q s2" "q_frame q s2 s3"
    by (rule receive_some [OF s2(2), of 0]) (use s2(3) in simp)
  have p3: "primask s3 = 1" using s3(5) p2 by (simp add: q_frame_def)
  have out: "hd (contents q s2) = 42" using s2(3) init(2) by simp
  let ?s4 = "s3\<lparr>primask := 0\<rparr>"
  have "q_ok q ?s4" "length (contents q ?s4) < q_size q ?s4"
    using s2 s3 init by (simp_all add: masked_queue)
  then obtain s5 where s5: "os_queue_send q 7 0 ?s4 = Some (Q_done OS_SUCCESS None, s5)" "q_frame q ?s4 s5"
    using send_free [of q ?s4 7 0] by blast
  have "primask s5 = 0" using s5(2) by (simp add: q_frame_def)
  then show ?thesis
    using s0(1) s2(1) p2 s3(1) p3 out s5(1) by (simp add: test_critical_sections_nest_def check_def)
qed

subsection \<open>All of them\<close>

lemma host_main_passes:
  assumes "usable b s"
  shows "\<exists>s'. host_main b (m1, m2, a, q1, buf1, q2, buf2) s = Some s'"
proof -
  from picks_highest_passes [OF assms]
    obtain s1 where s1: "test_scheduler_picks_highest_priority b s = Some s1" "usable b s1" by blast
  from round_robin_passes [OF s1(2)]
    obtain s2 where s2: "test_equal_priority_round_robins b s1 = Some s2" "usable b s2" by blast
  from tick_passes [OF s2(2)]
    obtain s3 where s3: "test_tick_preempts_and_wakes_sleepers b s2 = Some s3" "usable b s3" by blast
  from inheritance_passes [OF s3(2)]
    obtain s4 where s4: "test_priority_inheritance b m1 s3 = Some s4" "usable b s4" by blast
  from mutex_timeout_passes [OF s4(2)]
    obtain s5 where s5: "test_mutex_timeout b m2 s4 = Some s5" "usable b s5" by blast
  from semaphore_passes [OF s5(2)]
    obtain s6 where s6: "test_semaphore_handoff b a s5 = Some s6" "usable b s6" by blast
  have b: "unat b + 6144 < 2 ^ 32" "halted_in s6 = None" using s6(2) by (simp_all add: usable_def)
  from queue_passes [OF b]
    obtain s7 where s7: "test_queue b q1 buf1 s6 = Some s7" "halted_in s7 = None" by blast
  from nest_passes [OF b(1) s7(2)] show ?thesis
    using s1(1) s2(1) s3(1) s4(1) s5(1) s6(1) s7(1) by (simp add: host_main_def)
qed

text \<open>C29: The kernel passes its unit tests. The program \<^verbatim>\<open>Test/test_kernel.c\<close> runs to its end with no
  assertion failing and no undefined access, whatever the state it is started in, the addresses of the task
  stacks and of the local objects, and the values left in the wait arrays of those objects: the
  scheduler picks by priority and rotates among equals, a sleeper wakes at its tick, a lock holder inherits
  and returns a priority, waits time out and hand over, the queue keeps the newest messages, and nested critical
  sections leave PRIMASK as they found it. Only the stacks must fit the address space, the overflow
  hook must not have been entered before, and the wait arrays must have their declared lengths.\<close>
theorem host_tests_pass:
  assumes "unat stacks + 6144 < 2 ^ 32" "halted_in s = None"
    and "\<forall>m. length (stale_m (mutexes s m)) = MAX_WAITING_TASKS" "\<forall>a. length (stale_s (sems s a)) = MAX_TASKS"
  shows "\<exists>s'. host_main stacks objs s = Some s'"
proof -
  have "usable stacks s" using assms by (simp add: usable_def sized_def)
  from host_main_passes [OF this] show ?thesis by (cases objs) auto
qed

theorem host_tests_pass_witness:
  "\<exists>s'. host_main 0x20000400 (Mutex_At 0, Mutex_At 0, Sem_At 0, 0, 0x20000100, 0, 0x20000100)
     (reset_state (\<lambda>_. 0) 0) = Some s'"
  by (rule host_tests_pass) (simp_all add: reset_state_def stale_m_def stale_s_def)

end
