(* ===== verification/Tick_Preempted.thy ===== *)
theory Tick_Preempted
  imports Kernel_System
begin

text \<open>
  \<^verbatim>\<open>SysTick_Handler\<close> of \<^verbatim>\<open>Kernel/os_kernel.c\<close> statement by statement, with the body of
  \<^verbatim>\<open>wait_queue_remove\<close> in its place. The handler has no critical section, and the capture
  interrupt, whose priority is higher, can give a semaphore between any two of its statements.
  Alone, the points compose to the handler of the theory Tick. Disturbed, the tick is one of the
  two atomic orders unless the give hits the handler at its work on the very task it wakes.
\<close>

subsection \<open>The model\<close>

text \<open>
  The statement the handler executes next. \<open>T_Test\<close> to \<open>T_Check\<close>, \<open>T_Result\<close> and \<open>T_Ready\<close> are the
  loop of \<^verbatim>\<open>SysTick_Handler\<close> at a task: the test of \<open>sleep_time\<close>, its decrement with the test for
  zero, the test of \<open>wait_queue\<close>, the two assignments. \<open>T_Unpark\<close> to \<open>T_Uncount\<close> are
  \<^verbatim>\<open>wait_queue_remove\<close>: the test of the two pointers, the loop on \<open>i\<close> with its comparison, the loop on
  \<open>j\<close> with its move, the decrement of the counter, the two assignments. The pointers of the TCB are
  read anew by each statement; reading through NULL is undefined.
\<close>

datatype tick_pc = T_Clock | T_Test tid | T_Count tid | T_Check tid
  | T_Unpark tid | T_Find tid nat | T_Match tid nat | T_Shift tid nat | T_Move tid nat | T_Less tid
  | T_Null tid | T_Uncount tid | T_Result tid | T_Ready tid | T_Yield | T_Done

definition its_queue :: "tid \<Rightarrow> kernel \<Rightarrow> wref option" where
  "its_queue t s = do { x \<leftarrow> get_tcb s t; wait_queue x }"

definition its_count :: "tid \<Rightarrow> kernel \<Rightarrow> wref option" where
  "its_count t s = do { x \<leftarrow> get_tcb s t; wait_count x }"

fun tick_point :: "tick_pc \<Rightarrow> kernel \<Rightarrow> (tick_pc \<times> kernel) option" where
  "tick_point T_Clock s = Some (T_Test 0, s\<lparr>os_ticks := os_ticks s + 1\<rparr>)"
| "tick_point (T_Test t) s =
     (if t < tc s then do {
        x \<leftarrow> get_tcb s t;
        Some (if sleep_time x = 0 then T_Test (t + 1) else T_Count t, s) }
      else Some (T_Yield, s))"
| "tick_point (T_Count t) s = do {
     s \<leftarrow> upd_tcb t (\<lambda>x. x\<lparr>sleep_time := sleep_time x - 1\<rparr>) s;
     x \<leftarrow> get_tcb s t;
     Some (if sleep_time x = 0 then T_Check t else T_Test (t + 1), s) }"
| "tick_point (T_Check t) s = do {
     x \<leftarrow> get_tcb s t;
     Some (if wait_queue x \<noteq> None then T_Unpark t else T_Ready t, s) }"
| "tick_point (T_Unpark t) s = do {
     x \<leftarrow> get_tcb s t;
     Some (if wait_queue x = None \<or> wait_count x = None then T_Result t else T_Find t 0, s) }"
| "tick_point (T_Find t i) s = do {
     k \<leftarrow> its_count t s;
     c \<leftarrow> get_wait_count s k;
     Some (if i < unat c then T_Match t i else T_Null t, s) }"
| "tick_point (T_Match t i) s = do {
     q \<leftarrow> its_queue t s;
     a \<leftarrow> get_wait_array s q;
     y \<leftarrow> rd a i;
     Some (if y = Some t then T_Shift t i else T_Find t (i + 1), s) }"
| "tick_point (T_Shift t j) s = do {
     k \<leftarrow> its_count t s;
     c \<leftarrow> get_wait_count s k;
     Some (if j + 1 < unat c then T_Move t j else T_Less t, s) }"
| "tick_point (T_Move t j) s = do {
     q \<leftarrow> its_queue t s;
     a \<leftarrow> get_wait_array s q;
     v \<leftarrow> rd a (j + 1);
     a' \<leftarrow> wr a j v;
     Some (T_Shift t (j + 1), put_wait_array q a' s) }"
| "tick_point (T_Less t) s = do {
     k \<leftarrow> its_count t s;
     c \<leftarrow> get_wait_count s k;
     Some (T_Null t, put_wait_count k (c - 1) s) }"
| "tick_point (T_Null t) s = do {
     s \<leftarrow> upd_tcb t (\<lambda>x. x\<lparr>wait_queue := None\<rparr>) s;
     Some (T_Uncount t, s) }"
| "tick_point (T_Uncount t) s = do {
     s \<leftarrow> upd_tcb t (\<lambda>x. x\<lparr>wait_count := None\<rparr>) s;
     Some (T_Result t, s) }"
| "tick_point (T_Result t) s = do {
     s \<leftarrow> upd_tcb t (\<lambda>x. x\<lparr>wait_result := OS_TIMEOUT\<rparr>) s;
     Some (T_Ready t, s) }"
| "tick_point (T_Ready t) s = do {
     s \<leftarrow> upd_tcb t (\<lambda>x. x\<lparr>state := READY\<rparr>) s;
     Some (T_Test (t + 1), s) }"
| "tick_point T_Yield s = Some (T_Done, os_yield s)"
| "tick_point T_Done s = None"

text \<open>The first \<open>n\<close> statements, and the rest of the handler from a point on.\<close>

fun tick_run :: "nat \<Rightarrow> kernel \<Rightarrow> (tick_pc \<times> kernel) option" where
  "tick_run 0 s = Some (T_Clock, s)"
| "tick_run (Suc n) s = do { (p, s) \<leftarrow> tick_run n s; tick_point p s }"

lemma tick_run_numeral [simp]:
  "tick_run (numeral k) s = do { (p, s) \<leftarrow> tick_run (pred_numeral k) s; tick_point p s }"
  by (simp add: numeral_eq_Suc)

partial_function (option) tick_rest :: "tick_pc \<Rightarrow> kernel \<Rightarrow> kernel option" where
  "tick_rest p s =
     (if p = T_Done then Some s
      else do { (p', s') \<leftarrow> tick_point p s; tick_rest p' s' })"

text \<open>A tick into which, after its first \<open>n\<close> statements, an interrupt gives the semaphore \<open>a\<close>.\<close>

definition preempted_tick :: "nat \<Rightarrow> saddr \<Rightarrow> kernel \<Rightarrow> kernel option" where
  "preempted_tick n a s = do {
     (p, s) \<leftarrow> tick_run n s;
     s \<leftarrow> os_semaphore_release a s;
     tick_rest p s }"

subsection \<open>Alone\<close>

lemma tick_rest_simps:
  "tick_rest T_Done s = Some s"
  "p \<noteq> T_Done \<Longrightarrow> tick_rest p s = do { (p', s') \<leftarrow> tick_point p s; tick_rest p' s' }"
  by (subst tick_rest.simps, simp)+

lemma put_wait_twice [simp]:
  "put_wait_array q b (put_wait_array q a s) = put_wait_array q b s"
  by (cases q) (simp_all add: option.map_comp o_def)

lemma put_wait_same [simp]:
  "get_wait_array s q = Some a \<Longrightarrow> put_wait_array q a s = s"
  "get_wait_count s k = Some c \<Longrightarrow> put_wait_count k c s = s"
proof -
  show "get_wait_array s q = Some a \<Longrightarrow> put_wait_array q a s = s"
    by (cases q; cases s) (auto simp: fun_upd_idem_iff)
  show "get_wait_count s k = Some c \<Longrightarrow> put_wait_count k c s = s"
    by (cases k; cases s) (auto simp: fun_upd_idem_iff)
qed

lemma its_put [simp]:
  "its_queue t (put_wait_array q a s) = its_queue t s" "its_count t (put_wait_array q a s) = its_count t s"
  "its_queue t (put_wait_count k c s) = its_queue t s" "its_count t (put_wait_count k c s) = its_count t s"
  "get_tcb (put_wait_array q a s) t = get_tcb s t" "get_tcb (put_wait_count k c s) t = get_tcb s t"
  by (simp_all add: its_queue_def its_count_def get_tcb_def)

lemma rest_shift:
  assumes "its_queue t s = Some q" "its_count t s = Some k" "get_wait_count s k = Some c"
    and "get_wait_array s q = Some a" "n = unat c"
  shows "tick_rest (T_Shift t j) s =
    do { a' \<leftarrow> shift_down j n a; tick_rest (T_Less t) (put_wait_array q a' s) }"
  using assms
proof (induction j n a arbitrary: s rule: shift_down.induct)
  case (1 j n a)
  show ?case
  proof (cases "j + 1 < n")
    case False
    then show ?thesis using "1.prems"
      by (simp add: tick_rest_simps(2) [of "T_Shift t j"] shift_down.simps [of j])
  next
    case True
    note points = tick_rest_simps(2) [of "T_Shift t j"] tick_rest_simps(2) [of "T_Move t j"]
    consider (read) "rd a (j + 1) = None" | (fail) v where "rd a (j + 1) = Some v" "wr a j v = None"
      | (ok) v a1 where "rd a (j + 1) = Some v" "wr a j v = Some a1"
      by (metis not_None_eq)
    then show ?thesis
    proof cases
      case read
      with "1.prems" True show ?thesis by (simp add: points shift_down.simps [of j])
    next
      case fail
      with "1.prems" True show ?thesis by (simp add: points shift_down.simps [of j])
    next
      case (ok v a1)
      note v = ok
      have "tick_rest (T_Shift t j) s = tick_rest (T_Shift t (j + 1)) (put_wait_array q a1 s)"
        using "1.prems" True v
        by (simp add: points)
      also have "\<dots> = do { a' \<leftarrow> shift_down (j + 1) n a1;
          tick_rest (T_Less t) (put_wait_array q a' (put_wait_array q a1 s)) }"
        using "1.prems" True v by (intro "1.IH") simp_all
      finally show ?thesis using True v by (simp add: shift_down.simps [of j])
    qed
  qed
qed

lemma rest_find:
  assumes "its_queue t s = Some q" "its_count t s = Some k" "get_wait_count s k = Some c"
    and "get_wait_array s q = Some a"
  shows "tick_rest (T_Find t i) s = do {
    (a', c') \<leftarrow> remove_scan t i a c;
    tick_rest (T_Null t) (put_wait_count k c' (put_wait_array q a' s)) }"
proof (induction "unat c - i" arbitrary: i)
  case 0
  then show ?case using assms
    by (simp add: tick_rest_simps(2) [of "T_Find t i"] remove_scan.simps [of t i])
next
  case (Suc n)
  then have i: "i < unat c" by simp
  note points = tick_rest_simps(2) [of "T_Find t i"] tick_rest_simps(2) [of "T_Match t i"]
  consider (out) "rd a i = None" | (found) "rd a i = Some (Some t)"
    | (other) y where "rd a i = Some y" "y \<noteq> Some t" by (metis not_None_eq)
  then show ?case
  proof cases
    case out
    with assms i show ?thesis by (simp add: points remove_scan.simps [of t i])
  next
    case found
    have "tick_rest (T_Find t i) s = tick_rest (T_Shift t i) s" using assms i found by (simp add: points)
    also have "\<dots> = do { a' \<leftarrow> shift_down i (unat c) a; tick_rest (T_Less t) (put_wait_array q a' s) }"
      by (rule rest_shift [OF assms refl])
    finally show ?thesis using assms i found
      by (simp add: remove_scan.simps [of t i] tick_rest_simps(2) [of "T_Less t"] Option.bind_assoc)
  next
    case other
    have "tick_rest (T_Find t i) s = tick_rest (T_Find t (i + 1)) s"
      using assms i other by (simp add: points)
    also have "\<dots> = do { (a', c') \<leftarrow> remove_scan t (i + 1) a c;
        tick_rest (T_Null t) (put_wait_count k c' (put_wait_array q a' s)) }"
      using Suc.hyps(2) by (intro Suc.hyps(1)) simp
    finally show ?thesis using i other by (simp add: remove_scan.simps [of t i])
  qed
qed

lemma rest_unpark:
  assumes "\<And>q. its_queue t s = Some q \<Longrightarrow> get_wait_array s q \<noteq> None"
  shows "tick_rest (T_Unpark t) s = do { s' \<leftarrow> wait_queue_remove t s; tick_rest (T_Result t) s' }"
proof (cases "get_tcb s t")
  case None
  then show ?thesis by (simp add: tick_rest_simps(2) [of "T_Unpark t"] wait_queue_remove_def)
next
  case (Some x)
  show ?thesis
  proof (cases "wait_queue x = None \<or> wait_count x = None")
    case True
    with Some show ?thesis
      by (auto simp: tick_rest_simps(2) [of "T_Unpark t"] wait_queue_remove_def split: option.splits)
  next
    case False
    then obtain q k where qk: "wait_queue x = Some q" "wait_count x = Some k" by auto
    with Some have its: "its_queue t s = Some q" "its_count t s = Some k"
      by (simp_all add: its_queue_def its_count_def)
    then obtain a where a: "get_wait_array s q = Some a" using assms by blast
    have find: "tick_rest (T_Unpark t) s = tick_rest (T_Find t 0) s"
      using Some qk by (simp add: tick_rest_simps(2) [of "T_Unpark t"])
    have null: "tick_rest (T_Null t) u = do {
        u' \<leftarrow> upd_tcb t (\<lambda>x. x\<lparr>wait_queue := None, wait_count := None\<rparr>) u; tick_rest (T_Result t) u' }" for u
      by (cases "t < length (os_tasks u)")
        (simp_all add: tick_rest_simps(2) [of "T_Null t"] tick_rest_simps(2) [of "T_Uncount t"] upd_tcb_def)
    show ?thesis
    proof (cases "get_wait_count s k")
      case None
      with find its Some qk a show ?thesis
        by (simp add: wait_queue_remove_def tick_rest_simps(2) [of "T_Find t 0"])
    next
      case count: (Some c)
      with find Some qk a null rest_find [OF its count a, of 0] show ?thesis
        by (simp add: wait_queue_remove_def Option.bind_assoc case_prod_unfold)
    qed
  qed
qed

lemma parked_array:
  assumes "waits_ok s" "t < tc s" "wait_queue (os_tasks s ! t) = Some q"
  shows "get_wait_array s q \<noteq> None"
  using waits_okD(8) [OF assms(1,2), of q] assms(3) by (cases "get_wait_array s q") (simp_all add: waiters_def)

lemma tick_task_points:
  assumes ok: "waits_ok s" and t: "t < tc s"
  shows "tick_rest (T_Test t) s = do { s' \<leftarrow> tick_task t s; tick_rest (T_Test (t + 1)) s' }"
proof -
  have len: "t < length (os_tasks s)" using waits_okD(3) [OF ok t] .
  let ?x = "os_tasks s ! t"
  let ?s1 = "\<lambda>n. s\<lparr>os_tasks := (os_tasks s)[t := ?x\<lparr>sleep_time := n\<rparr>]\<rparr>"
  note points = tick_rest_simps(2) [of "T_Test t"] tick_rest_simps(2) [of "T_Count t"]
    tick_rest_simps(2) [of "T_Check t"] tick_rest_simps(2) [of "T_Result t"]
    tick_rest_simps(2) [of "T_Ready t"]
  have unpark: "tick_rest (T_Unpark t) (?s1 n) =
      do { s' \<leftarrow> wait_queue_remove t (?s1 n); tick_rest (T_Result t) s' }" for n
    using parked_array [OF ok t] len
    by (intro rest_unpark) (auto simp: its_queue_def get_tcb_def)
  show ?thesis
    using t len unpark by (simp add: tick_task_def points get_tcb_def upd_tcb_def Option.bind_assoc)
qed

lemma tick_rest_tasks:
  "waits_ok s \<Longrightarrow> i \<le> tc s \<Longrightarrow>
   tick_rest (T_Test i) s = do { s' \<leftarrow> tick_tasks [i..<tc s] s; Some (os_yield s') }"
proof (induction "tc s - i" arbitrary: i s)
  case 0
  then show ?case by (simp add: tick_rest_simps)
next
  case (Suc n)
  then have i: "i < tc s" by simp
  obtain s' where s': "tick_task i s = Some s'" "waits_ok s'" "wq_frame s s'"
    by (rule tick_task_effect [OF Suc.prems(1) i])
  note fr = wq_frame_fields(1) [OF s'(3)]
  have "tick_rest (T_Test (i + 1)) s' = do { s' \<leftarrow> tick_tasks [i + 1..<tc s'] s'; Some (os_yield s') }"
    using Suc.hyps(2) i fr by (intro Suc.hyps(1) s'(2)) simp_all
  then show ?case using i s'(1) fr by (simp add: tick_task_points [OF Suc.prems(1)] upt_rec [of i])
qed

lemma handler_alone:
  assumes "kinv s" shows "tick_rest T_Clock s = SysTick_Handler s"
proof -
  have "waits_ok (s\<lparr>os_ticks := os_ticks s + 1\<rparr>)" using kinvD(1) [of "s\<lparr>os_ticks := os_ticks s + 1\<rparr>"] assms
    by (simp add: kinv_upd_ticks)
  then show ?thesis
    by (simp add: tick_rest_simps(2) [of T_Clock] tick_rest_tasks SysTick_Handler_def)
qed

lemma tick_run_rest:
  assumes "kinv s" shows "tick_run n s = Some (p, s') \<Longrightarrow> tick_rest p s' = SysTick_Handler s"
proof (induction n arbitrary: p s')
  case (Suc n)
  then obtain p1 s1 where 1: "tick_run n s = Some (p1, s1)" "tick_point p1 s1 = Some (p, s')"
    by (auto simp: Option.bind_eq_Some_conv)
  then have "p1 \<noteq> T_Done" by auto
  with 1 Suc.IH [OF 1(1)] show ?case by (simp add: tick_rest_simps(2))
qed (simp add: handler_alone [OF assms])

subsection \<open>The give\<close>

text \<open>
  To a semaphore for which one task waits, the give is \<open>hand\<close>; to one for which nobody waits, it is
  \<open>token\<close>. Both are read off the counter, so they hold in the middle of the handler as well.
\<close>

definition sole :: "saddr \<Rightarrow> tid \<Rightarrow> kernel \<Rightarrow> bool" where
  "sole a w s \<longleftrightarrow> (\<exists>x ts. sems s a = Some x \<and> s_wait_count x = 1 \<and> s_wait_queue x = Some w # ts) \<and>
     w < length (os_tasks s) \<and> wait_queue (os_tasks s ! w) = Some (SemQ a) \<and>
     wait_count (os_tasks s ! w) = Some (SemQ a)"

definition nobody :: "saddr \<Rightarrow> kernel \<Rightarrow> bool" where
  "nobody a s \<longleftrightarrow> (\<exists>x. sems s a = Some x \<and> s_wait_count x = 0)"

definition hand :: "saddr \<Rightarrow> tid \<Rightarrow> kernel \<Rightarrow> kernel" where
  "hand a w s = s\<lparr>os_tasks := (os_tasks s)[w := woken (os_tasks s ! w)],
     sems := (sems s)(a := map_option (\<lambda>x. x\<lparr>s_wait_count := 0\<rparr>) (sems s a)), pendsv := True\<rparr>"

definition token :: "saddr \<Rightarrow> kernel \<Rightarrow> kernel" where
  "token a s = s\<lparr>sems := (sems s)(a := map_option (\<lambda>x.
     if sem_count x < sem_max_count x then x\<lparr>sem_count := sem_count x + 1\<rparr> else x) (sems s a))\<rparr>"

lemma release_nobody: "nobody a s \<Longrightarrow> os_semaphore_release a s = Some (token a s)"
  using sem_release_uncontended [of s a]
  by (auto simp: nobody_def token_def set_tokens_def fun_upd_idem_iff split: if_splits)
    (cases s; auto simp: fun_upd_idem_iff)

lemma release_sole:
  assumes "sole a w s" shows "os_semaphore_release a s = Some (hand a w s)"
proof -
  obtain x ts where x: "sems s a = Some x" "s_wait_count x = 1" "s_wait_queue x = Some w # ts"
    and w: "w < length (os_tasks s)" "wait_queue (os_tasks s ! w) = Some (SemQ a)"
      "wait_count (os_tasks s ! w) = Some (SemQ a)"
    using assms by (auto simp: sole_def)
  have pick: "pick_waiter (SemQ a) (s\<lparr>primask := 1\<rparr>) = Some (Some w)"
    using x w by (simp add: pick_waiter_def pick_scan.simps get_tcb_def)
  have "remove_scan w 0 (Some w # ts) 1 = Some (Some w # ts, 0)"
    by (simp add: remove_scan.simps shift_down.simps rd_def)
  then show ?thesis
    using x w pick
    by (cases s; cases x) (simp add: os_semaphore_release_def os_enter_critical_def os_exit_critical_def os_yield_def
        wake_task_def wait_queue_remove_def get_tcb_def upd_tcb_def hand_def woken_def unparked_def)
qed

subsection \<open>The give commutes with what the handler does to other tasks\<close>

fun about :: "tick_pc \<Rightarrow> tid option" where
  "about T_Clock = None"
| "about T_Yield = None"
| "about T_Done = None"
| "about (T_Test t) = Some t"
| "about (T_Count t) = Some t"
| "about (T_Check t) = Some t"
| "about (T_Unpark t) = Some t"
| "about (T_Find t _) = Some t"
| "about (T_Match t _) = Some t"
| "about (T_Shift t _) = Some t"
| "about (T_Move t _) = Some t"
| "about (T_Less t) = Some t"
| "about (T_Null t) = Some t"
| "about (T_Uncount t) = Some t"
| "about (T_Result t) = Some t"
| "about (T_Ready t) = Some t"

lemma updates_swap:
  "x\<lparr>s_wait_count := c, s_wait_queue := q\<rparr> = x\<lparr>s_wait_queue := q, s_wait_count := c\<rparr>"
  "x\<lparr>sem_count := n, s_wait_queue := q\<rparr> = x\<lparr>s_wait_queue := q, sem_count := n\<rparr>"
  "x\<lparr>sem_count := n, s_wait_count := c\<rparr> = x\<lparr>s_wait_count := c, sem_count := n\<rparr>"
  "s\<lparr>sems := m, os_tasks := ts\<rparr> = s\<lparr>os_tasks := ts, sems := m\<rparr>"
  "s\<lparr>pendsv := b, os_tasks := ts\<rparr> = s\<lparr>os_tasks := ts, pendsv := b\<rparr>"
  by (cases x; simp)+

lemma hand_frame [simp]:
  "task_count (hand a w s) = task_count s" "os_ticks (hand a w s) = os_ticks s"
  "(hand a w s)\<lparr>os_ticks := n\<rparr> = hand a w (s\<lparr>os_ticks := n\<rparr>)"
  "os_yield (hand a w s) = hand a w (os_yield s)"
  by (simp_all add: hand_def os_yield_def)

lemma hand_tcb [simp]:
  assumes "t \<noteq> w"
  shows "get_tcb (hand a w s) t = get_tcb s t"
    and "upd_tcb t f (hand a w s) = map_option (hand a w) (upd_tcb t f s)"
  using assms
  by (cases "t < length (os_tasks s)";
      simp add: hand_def get_tcb_def upd_tcb_def list_update_swap [OF assms])+

lemma hand_array [simp]:
  "get_wait_array (hand a w s) q = get_wait_array s q"
  "put_wait_array q xs (hand a w s) = hand a w (put_wait_array q xs s)"
proof -
  show "get_wait_array (hand a w s) q = get_wait_array s q"
    by (cases q) (simp_all add: hand_def option.map_comp o_def)
  show "put_wait_array q xs (hand a w s) = hand a w (put_wait_array q xs s)"
  proof (cases q)
    case (SemQ b)
    then show ?thesis
      by (cases s; cases "b = a")
        (simp_all add: hand_def option.map_comp o_def fun_upd_twist updates_swap)
  qed (simp add: hand_def)
qed

lemma hand_count [simp]:
  assumes "k \<noteq> SemQ a"
  shows "get_wait_count (hand a w s) k = get_wait_count s k"
    and "put_wait_count k c (hand a w s) = hand a w (put_wait_count k c s)"
  using assms by (cases k; simp add: hand_def fun_upd_twist)+

lemma hand_its [simp]:
  "t \<noteq> w \<Longrightarrow> its_queue t (hand a w s) = its_queue t s"
  "t \<noteq> w \<Longrightarrow> its_count t (hand a w s) = its_count t s"
  by (simp_all add: its_queue_def its_count_def)

lemma hand_commutes:
  assumes "about p \<noteq> Some w" and "\<And>t. about p = Some t \<Longrightarrow> its_count t s \<noteq> Some (SemQ a)"
  shows "tick_point p (hand a w s) = map_option (apsnd (hand a w)) (tick_point p s)"
proof -
  note binds = map_option_bind bind_map_option o_def
  show ?thesis
  proof (cases p)
    case (T_Find t i)
    with assms show ?thesis by (cases "its_count t s") (simp_all add: binds)
  next
    case (T_Shift t i)
    with assms show ?thesis by (cases "its_count t s") (simp_all add: binds)
  next
    case (T_Less t)
    with assms show ?thesis by (cases "its_count t s") (simp_all add: binds)
  next
    case (T_Count t)
    with assms show ?thesis by (simp add: binds)
  qed (use assms in \<open>simp_all add: binds\<close>)
qed

lemma token_simps [simp]:
  "task_count (token a s) = task_count s" "os_ticks (token a s) = os_ticks s"
  "os_tasks (token a s) = os_tasks s"
  "(token a s)\<lparr>os_ticks := n\<rparr> = token a (s\<lparr>os_ticks := n\<rparr>)"
  "os_yield (token a s) = token a (os_yield s)"
  "get_tcb (token a s) t = get_tcb s t"
  "upd_tcb t f (token a s) = map_option (token a) (upd_tcb t f s)"
  "its_queue t (token a s) = its_queue t s" "its_count t (token a s) = its_count t s"
  by (simp_all add: token_def os_yield_def get_tcb_def upd_tcb_def its_queue_def its_count_def
      map_option_bind o_def updates_swap)

lemma token_objects [simp]:
  "get_wait_array (token a s) q = get_wait_array s q"
  "get_wait_count (token a s) q = get_wait_count s q"
  "put_wait_array q xs (token a s) = token a (put_wait_array q xs s)"
  "put_wait_count q c (token a s) = token a (put_wait_count q c s)"
proof -
  have if_sem: "f (if b then x else y) = (if b then f x else f y)" for f :: "os_semaphore \<Rightarrow> 'a" and b x y
    by simp
  show "get_wait_array (token a s) q = get_wait_array s q"
    "get_wait_count (token a s) q = get_wait_count s q"
    by (cases q; simp add: token_def option.map_comp o_def if_sem cong: if_cong)+
  show "put_wait_array q xs (token a s) = token a (put_wait_array q xs s)"
  proof (cases q)
    case (SemQ b)
    then show ?thesis
      by (cases "b = a"; cases "sems s a") (simp_all add: token_def fun_upd_twist updates_swap)
  qed (simp add: token_def)
  show "put_wait_count q c (token a s) = token a (put_wait_count q c s)"
  proof (cases q)
    case (SemQ b)
    then show ?thesis
      by (cases "b = a"; cases "sems s a") (simp_all add: token_def fun_upd_twist updates_swap)
  qed (simp add: token_def)
qed

lemma token_commutes:
  "tick_point p (token a s) = map_option (apsnd (token a)) (tick_point p s)"
  by (cases p) (simp_all add: map_option_bind bind_map_option o_def)

subsection \<open>Where the handler stands to the task that waits\<close>

text \<open>
  \<open>inside\<close>: an index in the body of the loop is one of a task. \<open>others\<close>: no task but \<open>w\<close> waits for
  \<open>a\<close>. \<open>early\<close>: the counter has not been decremented yet when \<open>w\<close>, the only waiter, is taken out;
  \<open>gone\<close>: it has.
\<close>

definition inside :: "tick_pc \<Rightarrow> kernel \<Rightarrow> bool" where
  "inside p s \<longleftrightarrow> (\<forall>t. about p = Some t \<longrightarrow> t < tc s \<or> p = T_Test t)"

definition others :: "saddr \<Rightarrow> tid \<Rightarrow> kernel \<Rightarrow> bool" where
  "others a w s \<longleftrightarrow> (\<forall>t<tc s. t \<noteq> w \<longrightarrow>
     wait_queue (os_tasks s ! t) \<noteq> Some (SemQ a) \<and> wait_count (os_tasks s ! t) \<noteq> Some (SemQ a))"

definition early :: "tid \<Rightarrow> tick_pc \<Rightarrow> bool" where
  "early w p \<longleftrightarrow> about p = Some w \<longrightarrow> p \<in> {T_Test w, T_Count w, T_Check w, T_Unpark w,
     T_Find w 0, T_Match w 0, T_Shift w 0, T_Less w}"

definition gone :: "tid \<Rightarrow> tick_pc \<Rightarrow> bool" where
  "gone w p \<longleftrightarrow> p \<noteq> T_Clock \<and> (\<forall>t. about p = Some t \<longrightarrow> w < t \<or>
     p \<in> {T_Null w, T_Uncount w, T_Result w, T_Ready w})"

lemma put_other [simp]:
  "q \<noteq> SemQ a \<Longrightarrow> sems (put_wait_array q xs s) a = sems s a"
  "q \<noteq> SemQ a \<Longrightarrow> sems (put_wait_count q c s) a = sems s a"
  by (cases q; simp)+

lemma upd_tcb_frame:
  "upd_tcb t f s = Some s' \<Longrightarrow> t < length (os_tasks s) \<and> s' = s\<lparr>os_tasks := (os_tasks s)[t := f (os_tasks s ! t)]\<rparr>"
  by (auto simp: upd_tcb_def Option.bind_eq_Some_conv rd_Some_iff)

lemma inside_step:
  "tick_point p s = Some (p', s') \<Longrightarrow> inside p s \<Longrightarrow> inside p' s' \<and> task_count s' = task_count s"
  by (cases p) (auto simp: inside_def os_yield_def Option.bind_eq_Some_conv
      dest!: upd_tcb_frame split: if_splits)

lemma step_pointers:
  assumes "tick_point p s = Some (p', s')"
  shows "wait_queue (os_tasks s' ! u) \<in> {wait_queue (os_tasks s ! u), None}"
    and "wait_count (os_tasks s' ! u) \<in> {wait_count (os_tasks s ! u), None}"
    and "about p \<noteq> Some u \<Longrightarrow> os_tasks s' ! u = os_tasks s ! u"
    and "length (os_tasks s') = length (os_tasks s)"
  using assms
  by (cases p; auto simp: os_yield_def Option.bind_eq_Some_conv nth_list_update
      dest!: upd_tcb_frame split: if_splits)+

lemma others_step:
  assumes step: "tick_point p s = Some (p', s')" and "inside p s" "others a w s"
  shows "others a w s'"
  unfolding others_def
proof (intro allI impI)
  fix t assume "t < tc s'" "t \<noteq> w"
  then have "wait_queue (os_tasks s ! t) \<noteq> Some (SemQ a) \<and> wait_count (os_tasks s ! t) \<noteq> Some (SemQ a)"
    using assms(3) inside_step [OF step assms(2)] by (simp add: others_def)
  then show "wait_queue (os_tasks s' ! t) \<noteq> Some (SemQ a) \<and> wait_count (os_tasks s' ! t) \<noteq> Some (SemQ a)"
    using step_pointers(1,2) [OF step, of t] by auto
qed

lemma step_sems:
  assumes "tick_point p s = Some (p', s')" and "\<And>t. about p = Some t \<Longrightarrow>
      its_queue t s \<noteq> Some (SemQ a) \<and> its_count t s \<noteq> Some (SemQ a)"
  shows "sems s' a = sems s a"
proof -
  have "sems s' a = sems s a" if "tick_point p s = Some (p', s')"
    "\<And>q. its_queue t s = Some q \<Longrightarrow> q \<noteq> SemQ a" "\<And>q. its_count t s = Some q \<Longrightarrow> q \<noteq> SemQ a"
    "about p = Some t" for t
    using that by (cases p) (auto simp: Option.bind_eq_Some_conv dest!: upd_tcb_frame split: if_splits)
  then show ?thesis
    using assms by (cases "about p"; cases p) (auto simp: os_yield_def)
qed

text \<open>At a task other than \<open>w\<close> the handler does not touch the semaphore.\<close>

lemma others_its:
  assumes "others a w s" "inside p s" "about p = Some t" "t \<noteq> w \<or> w \<notin> {..<tc s}"
    "p \<noteq> T_Test t"
  shows "its_queue t s \<noteq> Some (SemQ a) \<and> its_count t s \<noteq> Some (SemQ a)"
  using assms by (auto simp: others_def inside_def its_queue_def its_count_def get_tcb_def rd_def
      split: if_splits)

lemma foreign_sems:
  assumes step: "tick_point p s = Some (p', s')" and "inside p s" "others a w s"
    and "about p = Some w \<Longrightarrow> w < tc s \<Longrightarrow> p \<in> {T_Null w, T_Uncount w, T_Result w, T_Ready w}"
  shows "sems s' a = sems s a"
proof (cases "(\<exists>t. p = T_Test t) \<or> p \<in> {T_Null w, T_Uncount w, T_Result w, T_Ready w}")
  case True
  with step show ?thesis by (auto simp: Option.bind_eq_Some_conv dest!: upd_tcb_frame split: if_splits)
next
  case False
  with assms show ?thesis by (intro step_sems [OF step] others_its [OF assms(3,2)]) auto
qed

definition tracked :: "saddr \<Rightarrow> tid \<Rightarrow> tick_pc \<Rightarrow> kernel \<Rightarrow> bool" where
  "tracked a w p s \<longleftrightarrow> inside p s \<and> others a w s \<and>
     (sole a w s \<and> early w p \<or> nobody a s \<and> (w < tc s \<longrightarrow> gone w p))"

lemma sole_step:
  assumes step: "tick_point p s = Some (p', s')" and "inside p s" "others a w s" "sole a w s"
    and "about p \<noteq> Some w"
  shows "sole a w s'"
  using assms(4) foreign_sems [OF step assms(2,3)] step_pointers(3) [OF step, of w]
    step_pointers(4) [OF step] assms(5)
  by (simp add: sole_def)

lemma early_foreign:
  assumes "tick_point p s = Some (p', s')" "about p \<noteq> Some w"
  shows "early w p'"
  using assms by (cases p) (auto simp: early_def Option.bind_eq_Some_conv split: if_splits)

lemma sole_step_own:
  assumes step: "tick_point p s = Some (p', s')" and "sole a w s" "early w p" "about p = Some w"
  shows "sole a w s' \<and> early w p' \<or> p' = T_Null w \<and> nobody a s'"
proof -
  obtain x ts where x: "sems s a = Some x" "s_wait_count x = 1" "s_wait_queue x = Some w # ts"
    and w: "w < length (os_tasks s)" "wait_queue (os_tasks s ! w) = Some (SemQ a)"
      "wait_count (os_tasks s ! w) = Some (SemQ a)"
    using assms(2) by (auto simp: sole_def)
  have its: "its_queue w s = Some (SemQ a)" "its_count w s = Some (SemQ a)"
    using w by (simp_all add: its_queue_def its_count_def get_tcb_def)
  consider "p \<in> {T_Test w, T_Check w, T_Unpark w}" | "p = T_Count w"
    | "p \<in> {T_Find w 0, T_Match w 0, T_Shift w 0}" | "p = T_Less w"
    using assms(3,4) by (auto simp: early_def)
  then show ?thesis
  proof cases
    case 1
    then show ?thesis using step assms(2) w
      by (auto simp: early_def get_tcb_def Option.bind_eq_Some_conv split: if_splits)
  next
    case 2
    then show ?thesis using step assms(2) w
      by (auto simp: early_def get_tcb_def upd_tcb_def sole_def split: if_splits)
  next
    case 3
    then show ?thesis using step assms(2) x its
      by (auto simp: early_def rd_def split: if_splits)
  next
    case 4
    then show ?thesis using step x its by (auto simp: nobody_def)
  qed
qed

lemma gone_step: "tick_point p s = Some (p', s') \<Longrightarrow> gone w p \<Longrightarrow> gone w p'"
  by (cases p) (auto simp: gone_def Option.bind_eq_Some_conv split: if_split_asm)

lemma tracked_step:
  assumes step: "tick_point p s = Some (p', s')" and "tracked a w p s"
  shows "tracked a w p' s'"
proof -
  from assms(2) have i: "inside p s" and o: "others a w s" by (simp_all add: tracked_def)
  note i' = inside_step [OF step i] and o' = others_step [OF step i o]
  from assms(2) consider (sole) "sole a w s" "early w p" | (nobody) "nobody a s" "w < tc s \<longrightarrow> gone w p"
    by (auto simp: tracked_def)
  then show ?thesis
  proof cases
    case sole
    show ?thesis
    proof (cases "about p = Some w")
      case True
      from sole_step_own [OF step sole True] i' o' show ?thesis by (auto simp: tracked_def gone_def)
    next
      case False
      with sole_step [OF step i o sole(1)] early_foreign [OF step] i' o' show ?thesis
        by (simp add: tracked_def)
    qed
  next
    case nobody
    have "sems s' a = sems s a"
      using nobody(2) by (intro foreign_sems [OF step i o]) (auto simp: gone_def)
    moreover have "w < tc s \<longrightarrow> gone w p'" using nobody(2) gone_step [OF step] by blast
    ultimately show ?thesis using nobody(1) i' o' by (simp add: tracked_def nobody_def)
  qed
qed

lemma tracked_run:
  assumes "tracked a w T_Clock s"
  shows "tick_run n s = Some (p, s') \<Longrightarrow> tracked a w p s'"
proof (induction n arbitrary: p s')
  case (Suc n)
  then show ?case using tracked_step by (auto simp: Option.bind_eq_Some_conv)
qed (use assms in auto)

lemma nobody_step:
  assumes "tick_point p s = Some (p', s')" "tracked a w p s" "nobody a s"
  shows "nobody a s'"
proof -
  have "\<not> sole a w s" using assms(3) by (auto simp: sole_def nobody_def)
  with assms(2) have "sems s' a = sems s a"
    by (intro foreign_sems [OF assms(1)]) (auto simp: tracked_def gone_def)
  with assms(3) show ?thesis by (simp add: nobody_def)
qed

lemma nobody_run:
  assumes "tracked a w T_Clock s" "nobody a s"
  shows "tick_run n s = Some (p, s') \<Longrightarrow> nobody a s'"
proof (induction n arbitrary: p s')
  case (Suc n)
  then obtain p1 s1 where 1: "tick_run n s = Some (p1, s1)" "tick_point p1 s1 = Some (p, s')"
    by (auto simp: Option.bind_eq_Some_conv)
  show ?case by (rule nobody_step [OF 1(2) tracked_run [OF assms(1) 1(1)] Suc.IH [OF 1(1)]])
qed (use assms in auto)

lemma tracked_first:
  assumes inv: "kinv s" and x: "sems s a = Some x"
  shows "waiters s (SemQ a) = [Some w] \<Longrightarrow> tracked a w T_Clock s \<and> sole a w s"
    and "waiters s (SemQ a) = [] \<Longrightarrow> tracked a (tc s) T_Clock s \<and> nobody a s"
proof -
  note D = waits_okD [OF kinvD(1) [OF inv]]
  have shape: "length (s_wait_queue x) = MAX_TASKS" "unat (s_wait_count x) \<le> MAX_TASKS"
    using D(5) [of "SemQ a"] x by (simp_all add: wait_shape_def)
  have w: "waiters s (SemQ a) = take (unat (s_wait_count x)) (s_wait_queue x)"
    using x by (simp add: waiters_def)
  have ptrs: "wait_count (os_tasks s ! t) = wait_queue (os_tasks s ! t)" if "t < tc s" for t
    using D(4) [OF that] by (simp add: task_ok_def)
  {
    assume one: "waiters s (SemQ a) = [Some w]"
    then have "s_wait_count x = 1" "\<exists>ts. s_wait_queue x = Some w # ts"
      using w shape by (cases "s_wait_queue x"; cases "unat (s_wait_count x)"; auto simp: word_unat_eq_iff)+
    moreover have "w < tc s" "wait_queue (os_tasks s ! w) = Some (SemQ a)"
      using D(7,8) one by (metis list.set_intros(1) option.inject)+
    ultimately have "sole a w s" using x D(3) ptrs by (auto simp: sole_def)
    moreover have "others a w s"
      unfolding others_def using D(8) [of _ "SemQ a"] one ptrs by auto
    ultimately show "tracked a w T_Clock s \<and> sole a w s"
      by (simp add: tracked_def inside_def early_def)
  next
    assume none: "waiters s (SemQ a) = []"
    then have "unat (s_wait_count x) = 0" using w shape by (auto simp: model_defs)
    then have "nobody a s" using x by (simp add: nobody_def word_unat_eq_iff)
    moreover have "others a (tc s) s"
      unfolding others_def using D(8) [of _ "SemQ a"] none ptrs by auto
    ultimately show "tracked a (tc s) T_Clock s \<and> nobody a s"
      by (simp add: tracked_def inside_def)
  }
qed

subsection \<open>Moving the give to the end or to the beginning\<close>

text \<open>The handler is past task \<open>w\<close>, or has not come to it.\<close>

definition beyond :: "tid \<Rightarrow> tick_pc \<Rightarrow> bool" where
  "beyond w p \<longleftrightarrow> p \<noteq> T_Clock \<and> (\<forall>t. about p = Some t \<longrightarrow> w < t)"

definition ahead :: "tid \<Rightarrow> tick_pc \<Rightarrow> bool" where
  "ahead w p \<longleftrightarrow> p = T_Clock \<or> (\<exists>t. about p = Some t \<and> (t < w \<or> p = T_Test w))"

lemma beyond_step: "tick_point p s = Some (p', s') \<Longrightarrow> beyond w p \<Longrightarrow> beyond w p'"
  by (cases p) (auto simp: beyond_def Option.bind_eq_Some_conv split: if_split_asm)

lemma ahead_back:
  "tick_point p s = Some (p', s') \<Longrightarrow> ahead w p' \<Longrightarrow> ahead w p \<and> about p \<noteq> Some w"
  by (cases p) (auto simp: ahead_def Option.bind_eq_Some_conv split: if_split_asm)

lemma hand_step:
  assumes "tick_point p s = Some (p', s')" "inside p s" "others a w s" "about p \<noteq> Some w"
  shows "tick_point p (hand a w s) = Some (p', hand a w s')"
proof (cases "\<exists>t. p = T_Test t")
  case True
  with assms(1,4) show ?thesis by (auto simp: Option.bind_eq_Some_conv split: if_split_asm)
next
  case False
  have "tick_point p (hand a w s) = map_option (apsnd (hand a w)) (tick_point p s)"
    using False assms(2-4) others_its by (intro hand_commutes) blast+
  with assms(1) show ?thesis by simp
qed

lemma rest_hand:
  "tick_rest p s = Some y \<Longrightarrow> inside p s \<longrightarrow> others a w s \<longrightarrow> sole a w s \<longrightarrow> beyond w p \<longrightarrow>
   tick_rest p (hand a w s) = Some (hand a w y) \<and> sole a w y"
proof (rule tick_rest.raw_induct [where P = "\<lambda>p s y. inside p s \<longrightarrow> others a w s \<longrightarrow> sole a w s \<longrightarrow> beyond w p \<longrightarrow>
     tick_rest p (hand a w s) = Some (hand a w y) \<and> sole a w y"])
  fix f p s y
  assume IH: "\<And>p s y. f p s = Some y \<Longrightarrow> inside p s \<longrightarrow> others a w s \<longrightarrow> sole a w s \<longrightarrow>
      beyond w p \<longrightarrow> tick_rest p (hand a w s) = Some (hand a w y) \<and> sole a w y"
    and body: "(if p = T_Done then Some s else do { (p', s') \<leftarrow> tick_point p s; f p' s' }) = Some y"
  show "inside p s \<longrightarrow> others a w s \<longrightarrow> sole a w s \<longrightarrow> beyond w p \<longrightarrow>
      tick_rest p (hand a w s) = Some (hand a w y) \<and> sole a w y"
  proof (cases "p = T_Done")
    case True
    with body show ?thesis by (simp add: tick_rest_simps)
  next
    case False
    with body obtain p' s' where step: "tick_point p s = Some (p', s')" and rest: "f p' s' = Some y"
      by (auto simp: Option.bind_eq_Some_conv)
    show ?thesis
    proof (intro impI)
      assume h: "inside p s" "others a w s" "sole a w s" "beyond w p"
      then have p: "about p \<noteq> Some w" by (auto simp: beyond_def)
      have "tick_rest p' (hand a w s') = Some (hand a w y) \<and> sole a w y"
        using IH [OF rest] inside_step [OF step h(1)] others_step [OF step h(1,2)]
          sole_step [OF step h(1-3) p] beyond_step [OF step h(4)] by blast
      then show "tick_rest p (hand a w s) = Some (hand a w y) \<and> sole a w y"
        using hand_step [OF step h(1,2) p] False by (simp add: tick_rest_simps(2))
    qed
  qed
qed assumption

lemma rest_token:
  "tick_rest p s = Some y \<Longrightarrow> tracked a w p s \<longrightarrow> nobody a s \<longrightarrow>
   tick_rest p (token a s) = Some (token a y) \<and> nobody a y"
proof (rule tick_rest.raw_induct [where P = "\<lambda>p s y. tracked a w p s \<longrightarrow> nobody a s \<longrightarrow>
     tick_rest p (token a s) = Some (token a y) \<and> nobody a y"])
  fix f p s y
  assume IH: "\<And>p s y. f p s = Some y \<Longrightarrow> tracked a w p s \<longrightarrow> nobody a s \<longrightarrow>
      tick_rest p (token a s) = Some (token a y) \<and> nobody a y"
    and body: "(if p = T_Done then Some s else do { (p', s') \<leftarrow> tick_point p s; f p' s' }) = Some y"
  show "tracked a w p s \<longrightarrow> nobody a s \<longrightarrow>
      tick_rest p (token a s) = Some (token a y) \<and> nobody a y"
  proof (cases "p = T_Done")
    case True
    with body show ?thesis by (simp add: tick_rest_simps)
  next
    case False
    with body obtain p' s' where step: "tick_point p s = Some (p', s')" and rest: "f p' s' = Some y"
      by (auto simp: Option.bind_eq_Some_conv)
    show ?thesis
    proof (intro impI)
      assume h: "tracked a w p s" "nobody a s"
      then have "nobody a s'" by (rule nobody_step [OF step])
      then have "tick_rest p' (token a s') = Some (token a y) \<and> nobody a y"
        using IH [OF rest] tracked_step [OF step h(1)] by blast
      then show "tick_rest p (token a s) = Some (token a y) \<and> nobody a y"
        using token_commutes [of p a s] step False by (simp add: tick_rest_simps(2))
    qed
  qed
qed assumption

lemma run_hand:
  assumes "tracked a w T_Clock s" "sole a w s"
  shows "tick_run n s = Some (p, s') \<Longrightarrow> ahead w p \<Longrightarrow>
    tick_run n (hand a w s) = Some (p, hand a w s') \<and> sole a w s'"
proof (induction n arbitrary: p s')
  case (Suc n)
  then obtain p1 s1 where 1: "tick_run n s = Some (p1, s1)" "tick_point p1 s1 = Some (p, s')"
    by (auto simp: Option.bind_eq_Some_conv)
  note prev = ahead_back [OF 1(2) Suc.prems(2)]
  have "inside p1 s1" "others a w s1" using tracked_run [OF assms(1) 1(1)] by (simp_all add: tracked_def)
  with Suc.IH [OF 1(1)] prev 1(2) hand_step [OF 1(2)] sole_step [OF 1(2)] show ?case by simp
qed (use assms(2) in auto)

text \<open>Between the decrement and the test of \<^verbatim>\<open>wait_queue\<close> the give comes first as well.\<close>

lemma run_last:
  assumes "tick_run n s = Some (p, s')" "p \<noteq> T_Clock"
  obtains m p0 s0 where "tick_run m s = Some (p0, s0)" "tick_point p0 s0 = Some (p, s')"
  using assms by (cases n) (auto simp: Option.bind_eq_Some_conv)

lemma run_check:
  assumes "tick_run n s = Some (T_Check w, s')"
  obtains m s0 where "tick_run m s = Some (T_Test w, s0)" "w < tc s0" "w < length (os_tasks s0)"
    "s' = s0\<lparr>os_tasks := (os_tasks s0)[w := (os_tasks s0 ! w)\<lparr>sleep_time := 0\<rparr>]\<rparr>"
proof -
  obtain k p1 s1 where 1: "tick_run k s = Some (p1, s1)" "tick_point p1 s1 = Some (T_Check w, s')"
    by (rule run_last [OF assms]) simp
  then have p1: "p1 = T_Count w"
    by (cases p1) (auto simp: Option.bind_eq_Some_conv split: if_split_asm)
  with 1(2) have s': "s' = s1\<lparr>os_tasks := (os_tasks s1)[w := (os_tasks s1 ! w)\<lparr>sleep_time := 0\<rparr>]\<rparr>"
    and len: "w < length (os_tasks s1)"
    by (auto simp: upd_tcb_def get_tcb_def rd_Some_iff Option.bind_eq_Some_conv split: if_split_asm)
  obtain m p2 s2 where 2: "tick_run m s = Some (p2, s2)" "tick_point p2 s2 = Some (T_Count w, s1)"
    by (rule run_last [OF 1(1) [unfolded p1]]) simp
  then have "p2 = T_Test w" "s2 = s1" "w < tc s1"
    by (cases p2; auto simp: Option.bind_eq_Some_conv split: if_split_asm)+
  with that [of m s1] 2(1) s' len show ?thesis by simp
qed

lemma hand_at_check:
  assumes inv: "kinv (hand a w s)" and t: "tracked a w T_Clock s" "sole a w s"
    and run: "tick_run n s = Some (T_Check w, s')"
  shows "tick_rest (T_Check w) (hand a w s') = SysTick_Handler (hand a w s)"
proof -
  obtain m s0 where 0: "tick_run m s = Some (T_Test w, s0)" "w < tc s0" "w < length (os_tasks s0)"
    "s' = s0\<lparr>os_tasks := (os_tasks s0)[w := (os_tasks s0 ! w)\<lparr>sleep_time := 0\<rparr>]\<rparr>"
    by (rule run_check [OF run])
  have first: "tick_run m (hand a w s) = Some (T_Test w, hand a w s0)"
    using run_hand [OF t 0(1)] by (simp add: ahead_def)
  have same: "hand a w s' = hand a w s0"
    using 0(3) by (simp add: 0(4) hand_def woken_def unparked_def)
  have h: "get_tcb (hand a w s0) w = Some (woken (os_tasks s0 ! w))"
    using 0(3) by (simp add: hand_def get_tcb_def)
  have "upd_tcb w (\<lambda>x. x\<lparr>state := READY\<rparr>) (hand a w s0) = Some (hand a w s0)"
    using 0(3) by (simp add: hand_def upd_tcb_def woken_def)
  then have "tick_rest (T_Check w) (hand a w s') = tick_rest (T_Test (w + 1)) (hand a w s0)"
    using h by (simp add: same tick_rest_simps(2) [of "T_Check w"] tick_rest_simps(2) [of "T_Ready w"])
  also have "\<dots> = tick_rest (T_Test w) (hand a w s0)"
    using h 0(2) by (simp add: tick_rest_simps(2) [of "T_Test w"])
  also have "\<dots> = SysTick_Handler (hand a w s)" by (rule tick_run_rest [OF inv first])
  finally show ?thesis .
qed

subsection \<open>A disturbed tick\<close>

text \<open>
  The handler is at its work on task \<open>w\<close>: between the test of \<open>sleep_time\<close> and its decrement, or
  between the test of \<open>wait_queue\<close> and the decrement of the counter.
\<close>

fun exposed :: "tid \<Rightarrow> tick_pc \<Rightarrow> bool" where
  "exposed w (T_Count t) = (t = w)"
| "exposed w (T_Unpark t) = (t = w)"
| "exposed w (T_Find t _) = (t = w)"
| "exposed w (T_Match t _) = (t = w)"
| "exposed w (T_Shift t _) = (t = w)"
| "exposed w (T_Move t _) = (t = w)"
| "exposed w (T_Less t) = (t = w)"
| "exposed w _ = False"

lemma where_early: "early w p \<Longrightarrow> \<not> exposed w p \<Longrightarrow> beyond w p \<or> ahead w p \<or> p = T_Check w"
  by (cases p) (auto simp: early_def beyond_def ahead_def)

lemma hand_kinv:
  assumes "kinv s" "sems s a = Some x" "waiters s (SemQ a) = [Some w]" "sole a w s"
  shows "kinv (hand a w s)"
proof -
  have "next_waiter a s = Some w" using assms(3) by (simp add: next_waiter_def)
  then obtain s' where "os_semaphore_release a s = Some s'" "kinv s'"
    by (rule sem_release_handoff [OF assms(1,2)])
  with release_sole [OF assms(4)] show ?thesis by simp
qed

lemma preempted_order:
  assumes inv: "kinv s" and x: "sems s a = Some x"
    and w: "waiters s (SemQ a) = [] \<or> waiters s (SemQ a) = [Some w]"
    and run: "tick_run n s = Some (p, s1)"
    and ok: "waiters s (SemQ a) = [Some w] \<Longrightarrow> \<not> exposed w p"
  shows "\<exists>s'. preempted_tick n a s = Some s' \<and> kinv s' \<and>
    (do { s \<leftarrow> os_semaphore_release a s; SysTick_Handler s } = Some s' \<or>
     do { s \<leftarrow> SysTick_Handler s; os_semaphore_release a s } = Some s')"
proof -
  obtain t where t: "SysTick_Handler s = Some t" "kinv t" "obj_cores t = obj_cores s"
    by (rule systick_effect [OF inv])
  have rest: "tick_rest p s1 = Some t" using tick_run_rest [OF inv run] t(1) by simp
  have give: "kinv t'" if "os_semaphore_release a t = Some t'" for t'
  proof -
    obtain y where "sems t a = Some y" using sem_core [OF t(3) [symmetric] x] by auto
    then show ?thesis using that t(2)
      by (cases "next_waiter a t") (auto elim: sem_release_handoff [OF t(2)]
          simp: sem_release_token next_waiter_def)
  qed
  from w show ?thesis
  proof
    assume none: "waiters s (SemQ a) = []"
    note f = tracked_first(2) [OF inv x none]
    then have tr: "tracked a (tc s) p s1" using tracked_run [OF _ run] by blast
    have n1: "nobody a s1" using nobody_run [OF _ _ run] f by blast
    have "tick_rest p (token a s1) = Some (token a t) \<and> nobody a t"
      using rest_token [OF rest] tr n1 by blast
    with release_nobody [OF n1] release_nobody [of a t] run t(1) give show ?thesis
      by (auto simp: preempted_tick_def)
  next
    assume one: "waiters s (SemQ a) = [Some w]"
    note f = tracked_first(1) [OF inv x one]
    then have tr: "tracked a w p s1" using tracked_run [OF _ run] by blast
    then have i: "inside p s1" "others a w s1" by (simp_all add: tracked_def)
    show ?thesis
    proof (cases "nobody a s1")
      case n1: True
      have "tick_rest p (token a s1) = Some (token a t) \<and> nobody a t"
        using rest_token [OF rest] tr n1 by blast
      with release_nobody [OF n1] release_nobody [of a t] run t(1) give show ?thesis
        by (auto simp: preempted_tick_def)
    next
      case False
      with tr have s1: "sole a w s1" "early w p" by (simp_all add: tracked_def)
      have k: "kinv (hand a w s)" using hand_kinv [OF inv x one] f by blast
      obtain u where u: "SysTick_Handler (hand a w s) = Some u" "kinv u" by (rule systick_effect [OF k])
      have disturbed: "preempted_tick n a s = tick_rest p (hand a w s1)"
        using run release_sole [OF s1(1)] by (simp add: preempted_tick_def)
      from where_early [OF s1(2) ok [OF one]]
      consider "beyond w p" | "ahead w p" | "p = T_Check w" by blast
      then show ?thesis
      proof cases
        case 1
        then have "tick_rest p (hand a w s1) = Some (hand a w t) \<and> sole a w t"
          using rest_hand [OF rest] i s1(1) by blast
        with disturbed release_sole [of a w t] t(1) give show ?thesis by auto
      next
        case 2
        then have "tick_run n (hand a w s) = Some (p, hand a w s1)" using run_hand [OF _ _ run] f by blast
        then have "tick_rest p (hand a w s1) = Some u" using tick_run_rest [OF k] u(1) by simp
        with disturbed u release_sole [of a w s] f show ?thesis by auto
      next
        case 3
        then have "tick_rest p (hand a w s1) = Some u" using hand_at_check [OF k] f run u(1) by simp
        with disturbed u release_sole [of a w s] f show ?thesis by auto
      qed
    qed
  qed
qed

subsection \<open>The exposed points\<close>

lemma exposed_sole:
  assumes "tracked a w T_Clock s" "sole a w s" "tick_run n s = Some (p, s')" "exposed w p" "w < tc s'"
  shows "sole a w s'" "early w p"
  using tracked_run [OF assms(1,3)] assms(4,5) by (cases p; auto simp: tracked_def gone_def)+

lemma sole_below: "kinv s \<Longrightarrow> waiters s (SemQ a) = [Some w] \<Longrightarrow> w < tc s"
  using waits_okD(7) [OF kinvD(1), of s "Some w" "SemQ a"] by auto

lemma tick_run_count:
  assumes "tracked a w T_Clock s"
  shows "tick_run n s = Some (p, s') \<Longrightarrow> task_count s' = task_count s"
proof (induction n arbitrary: p s')
  case (Suc n)
  then obtain p1 s1 where 1: "tick_run n s = Some (p1, s1)" "tick_point p1 s1 = Some (p, s')"
    by (auto simp: Option.bind_eq_Some_conv)
  have "inside p1 s1" using tracked_run [OF assms 1(1)] by (simp add: tracked_def)
  with inside_step [OF 1(2)] Suc.IH [OF 1(1)] show ?case by simp
qed simp

text \<open>
  Before the test of the pointers: the waiter is given the token, and the handler then overwrites
  the result of the wait. Nothing is left of the give.
\<close>

lemma pend_point:
  "tick_point p (s\<lparr>pendsv := True\<rparr>) =
     map_option (apsnd (\<lambda>s. s\<lparr>pendsv := True\<rparr>)) (tick_point p s)"
proof -
  have tcb: "get_tcb (s\<lparr>pendsv := True\<rparr>) t = get_tcb s t"
    "upd_tcb t f (s\<lparr>pendsv := True\<rparr>) = map_option (\<lambda>s. s\<lparr>pendsv := True\<rparr>) (upd_tcb t f s)" for t f
    by (simp_all add: get_tcb_def upd_tcb_def map_option_bind o_def updates_swap)
  have put: "put_wait_array q xs (s\<lparr>pendsv := True\<rparr>) = (put_wait_array q xs s)\<lparr>pendsv := True\<rparr>"
    "put_wait_count q c (s\<lparr>pendsv := True\<rparr>) = (put_wait_count q c s)\<lparr>pendsv := True\<rparr>" for q xs c
    by (cases q; simp)+
  have its: "its_queue t (s\<lparr>pendsv := True\<rparr>) = its_queue t s"
    "its_count t (s\<lparr>pendsv := True\<rparr>) = its_count t s" for t
    by (simp_all add: its_queue_def its_count_def tcb)
  show ?thesis
    by (cases p) (simp_all add: tcb put its os_yield_def map_option_bind bind_map_option o_def get_tcb_def)
qed

lemma rest_pend:
  "tick_rest p s = Some y \<Longrightarrow>
   if p = T_Done then y = s else tick_rest p (s\<lparr>pendsv := True\<rparr>) = Some y"
proof (rule tick_rest.raw_induct [where P = "\<lambda>p s y.
     if p = T_Done then y = s else tick_rest p (s\<lparr>pendsv := True\<rparr>) = Some y"])
  fix f p s y
  assume IH: "\<And>p s y. f p s = Some y \<Longrightarrow>
      if p = T_Done then y = s else tick_rest p (s\<lparr>pendsv := True\<rparr>) = Some y"
    and body: "(if p = T_Done then Some s else do { (p', s') \<leftarrow> tick_point p s; f p' s' }) = Some y"
  show "if p = T_Done then y = s else tick_rest p (s\<lparr>pendsv := True\<rparr>) = Some y"
  proof (cases "p = T_Done")
    case False
    with body obtain p' s' where step: "tick_point p s = Some (p', s')" and rest: "f p' s' = Some y"
      by (auto simp: Option.bind_eq_Some_conv)
    show ?thesis
    proof (cases "p' = T_Done")
      case True
      with step have "p = T_Yield" "s' = os_yield s"
        by (cases p; auto simp: Option.bind_eq_Some_conv split: if_split_asm)+
      then show ?thesis using IH [OF rest] True False
        by (simp add: tick_rest_simps os_yield_def)
    qed (use IH [OF rest] False step in \<open>simp add: tick_rest_simps(2) pend_point\<close>)
  qed (use body in simp)
qed assumption

lemma preempted_unpark:
  assumes inv: "kinv s" and x: "sems s a = Some x" and one: "waiters s (SemQ a) = [Some w]"
    and run: "tick_run n s = Some (T_Unpark w, s1)"
  shows "preempted_tick n a s = SysTick_Handler s"
proof -
  note f = tracked_first(1) [OF inv x one]
  have below: "w < tc s1" using tick_run_count [OF _ run] f sole_below [OF inv one] by auto
  have sole: "sole a w s1" using exposed_sole(1) [OF _ _ run _ below] f by auto
  then obtain y ts where y: "sems s1 a = Some y" "s_wait_count y = 1" "s_wait_queue y = Some w # ts"
    and w: "w < length (os_tasks s1)" "wait_queue (os_tasks s1 ! w) = Some (SemQ a)"
      "wait_count (os_tasks s1 ! w) = Some (SemQ a)" by (auto simp: sole_def)
  obtain m p0 s0 where 0: "tick_run m s = Some (p0, s0)" "tick_point p0 s0 = Some (T_Unpark w, s1)"
    by (rule run_last [OF run]) simp
  then have "p0 = T_Check w" "s0 = s1"
    by (cases p0; auto simp: Option.bind_eq_Some_conv split: if_split_asm)+
  then obtain k u where "s1 = u\<lparr>os_tasks := (os_tasks u)[w := (os_tasks u ! w)\<lparr>sleep_time := 0\<rparr>]\<rparr>"
    using run_check 0(1) by metis
  then have asleep: "sleep_time (os_tasks s1 ! w) = 0" using w(1) by simp
  define s2 where "s2 = s1\<lparr>os_tasks := (os_tasks s1)[w := (unparked (os_tasks s1 ! w))\<lparr>wait_result := OS_TIMEOUT,
      state := READY\<rparr>], sems := (sems s1)(a \<mapsto> y\<lparr>s_wait_count := 0\<rparr>)\<rparr>"
  note points = tick_rest_simps(2) [of "T_Result w"] tick_rest_simps(2) [of "T_Ready w"]
  have scan: "remove_scan w 0 (Some w # ts) 1 = Some (Some w # ts, 0)"
    by (simp add: remove_scan.simps shift_down.simps rd_def)
  have its: "its_queue w s1 = Some (SemQ a)" using w by (simp add: its_queue_def get_tcb_def)
  have "wait_queue_remove w s1 = Some (s1\<lparr>os_tasks := (os_tasks s1)[w := unparked (os_tasks s1 ! w)],
      sems := (sems s1)(a \<mapsto> y\<lparr>s_wait_count := 0\<rparr>)\<rparr>)"
    using y w scan
    by (cases s1; cases y) (simp add: wait_queue_remove_def get_tcb_def upd_tcb_def unparked_def)
  then have "tick_rest (T_Unpark w) s1 = tick_rest (T_Test (w + 1)) s2"
    using rest_unpark [of w s1] its y(1) w(1)
    by (simp add: points upd_tcb_def s2_def updates_swap)
  moreover have "tick_rest (T_Unpark w) (hand a w s1) = tick_rest (T_Test (w + 1)) (s2\<lparr>pendsv := True\<rparr>)"
  proof -
    have "(woken (os_tasks s1 ! w))\<lparr>wait_result := OS_TIMEOUT, state := READY\<rparr> =
        (unparked (os_tasks s1 ! w))\<lparr>wait_result := OS_TIMEOUT, state := READY\<rparr>"
      using asleep by (cases "os_tasks s1 ! w") (simp add: woken_def unparked_def)
    then show ?thesis
      using y(1) w(1) by (simp add: tick_rest_simps(2) [of "T_Unpark w"] points get_tcb_def upd_tcb_def
          hand_def s2_def updates_swap)
  qed
  moreover obtain t where t: "SysTick_Handler s = Some t" by (rule systick_effect [OF inv])
  then have "tick_rest (T_Unpark w) s1 = Some t" using tick_run_rest [OF inv run] by simp
  ultimately show ?thesis
    using rest_pend [of "T_Test (w + 1)" s2 t] run release_sole [OF sole] t by (simp add: preempted_tick_def)
qed

text \<open>
  From there to the decrement of the counter: the give sets the pointers of the TCB to NULL, and
  the handler reads through them.
\<close>

lemma preempted_null:
  assumes inv: "kinv s" and x: "sems s a = Some x" and one: "waiters s (SemQ a) = [Some w]"
    and run: "tick_run n s = Some (p, s1)"
    and p: "exposed w p" "p \<noteq> T_Count w" "p \<noteq> T_Unpark w"
  shows "preempted_tick n a s = None"
proof -
  note f = tracked_first(1) [OF inv x one]
  have below: "w < tc s1" using tick_run_count [OF _ run] f sole_below [OF inv one] by auto
  have sole: "sole a w s1" "early w p" using exposed_sole [OF _ _ run p(1) below] f by auto
  then have "its_queue w (hand a w s1) = None" "its_count w (hand a w s1) = None"
    by (auto simp: sole_def hand_def its_queue_def its_count_def get_tcb_def)
  then have "tick_rest p (hand a w s1) = None"
    using p by (cases p) (simp_all add: tick_rest_simps(2))
  then show ?thesis using run release_sole [OF sole(1)] by (simp add: preempted_tick_def)
qed

text \<open>Before the decrement: the waiter is ready with \<open>sleep_time\<close> 0, and the decrement wraps.\<close>

lemma preempted_count:
  assumes inv: "kinv s" and x: "sems s a = Some x" and one: "waiters s (SemQ a) = [Some w]"
    and run: "tick_run n s = Some (T_Count w, s1)"
  obtains s2 s3 where "os_semaphore_release a s1 = Some s2"
    "tick_point (T_Count w) s2 = Some (T_Test (w + 1), s3)"
    "state (os_tasks s3 ! w) = READY" "sleep_time (os_tasks s3 ! w) = -1" "\<not> kinv s3"
proof -
  note f = tracked_first(1) [OF inv x one]
  have below: "w < tc s1" using tick_run_count [OF _ run] f sole_below [OF inv one] by auto
  have sole: "sole a w s1" using exposed_sole(1) [OF _ _ run _ below] f by auto
  then have w: "w < length (os_tasks s1)" by (simp add: sole_def)
  let ?s2 = "hand a w s1"
  define s3 where "s3 = ?s2\<lparr>os_tasks := (os_tasks ?s2)[w := (os_tasks ?s2 ! w)\<lparr>sleep_time := -1\<rparr>]\<rparr>"
  have "tick_point (T_Count w) ?s2 = Some (T_Test (w + 1), s3)"
    using w by (simp add: s3_def hand_def upd_tcb_def get_tcb_def)
  moreover have t3: "state (os_tasks s3 ! w) = READY" "sleep_time (os_tasks s3 ! w) = -1"
    using w by (simp_all add: s3_def hand_def)
  moreover have "\<not> kinv s3"
  proof
    assume "kinv s3"
    then have "task_ok (os_tasks s3 ! w)"
      using waits_okD(4) [of s3 w] below by (auto simp: s3_def)
    with t3 show False by (simp add: task_ok_def)
  qed
  ultimately show ?thesis using that release_sole [OF sole] by blast
qed

end
