(* ===== verification/Preempted_Properties.thy ===== *)
theory Preempted_Properties
  imports Tick_Preempted Samples
begin

text \<open>
  What a give by the capture interrupt in the middle of \<^verbatim>\<open>SysTick_Handler\<close> does. Whether the tick
  may be taken as one step of the system depends on this.
\<close>

text \<open>Task 0 waits for the semaphore with one tick to go, task 2 runs.\<close>

definition expiring :: kernel where
  "expiring = sample [task 0x20000400 2 BLOCKED 1 (Some (SemQ (Sem_At 0))),
     task 0x20000800 1 BLOCKED 2 None, task 0x20000C00 0 RUNNING 0 None] 2
     idle_mutex (sample_sem 0 1 [0]) False"

lemma kinv_expiring: "kinv expiring"
  unfolding expiring_def
  by (rule kinv_sample [where ms = "[]" and xs = "[0]"]) (simp_all add: sample_eval)

lemma expiring_facts:
  "sems expiring (Sem_At 0) = Some (sample_sem 0 1 [0])"
  "waiters expiring (SemQ (Sem_At 0)) = [Some 0]"
  by (simp_all add: expiring_def waiters_sample sample_eval)

lemma expiring_points:
  "\<exists>s. tick_run 4 expiring = Some (T_Unpark 0, s)"
  "\<exists>s. tick_run 3 expiring = Some (T_Check 0, s)"
  by (simp_all add: expiring_def get_tcb_def upd_tcb_def)

text \<open>C17: Preempted between two statements by a give of a semaphore with at most one waiter, the
  tick returns, keeps the kernel invariant, and leaves exactly the state that one of the two orders
  leaves in which the give and the tick can follow each other; the statements of
  \<^verbatim>\<open>wait_queue_remove\<close> count. The exception is a give that hits the handler at its work on the waiter
  itself (\<open>exposed\<close>): after the test of its \<^verbatim>\<open>sleep_time\<close> and before the decrement is done, or after
  the test of its \<^verbatim>\<open>wait_queue\<close> and before the decrement of the wait counter is done.\<close>

theorem preempted_tick_is_ordered:
  assumes "kinv s" "sems s a \<noteq> None" "length (waiters s (SemQ a)) \<le> 1"
    and "tick_run n s = Some (p, s1)"
    and "\<And>w. waiters s (SemQ a) = [Some w] \<Longrightarrow> \<not> exposed w p"
  shows "\<exists>s'. preempted_tick n a s = Some s' \<and> kinv s' \<and>
    (do { s \<leftarrow> os_semaphore_release a s; SysTick_Handler s } = Some s' \<or>
     do { s \<leftarrow> SysTick_Handler s; os_semaphore_release a s } = Some s')"
proof -
  obtain x where x: "sems s a = Some x" using assms(2) by blast
  obtain w where w: "waiters s (SemQ a) = [] \<or> waiters s (SemQ a) = [Some w]"
  proof (cases "waiters s (SemQ a)")
    case (Cons q qs)
    then obtain t where "q = Some t"
      using waits_okD(7) [OF kinvD(1) [OF assms(1)], of q "SemQ a"] by auto
    with Cons assms(3) that [of t] show ?thesis by simp
  qed (use that in blast)
  show ?thesis by (rule preempted_order [OF assms(1) x w assms(4,5)])
qed

theorem preempted_tick_is_ordered_witness:
  "\<exists>s'. preempted_tick 3 (Sem_At 0) expiring = Some s' \<and> kinv s' \<and>
    (do { s \<leftarrow> os_semaphore_release (Sem_At 0) expiring; SysTick_Handler s } = Some s' \<or>
     do { s \<leftarrow> SysTick_Handler expiring; os_semaphore_release (Sem_At 0) s } = Some s')"
proof -
  obtain s1 where "tick_run 3 expiring = Some (T_Check 0, s1)" using expiring_points(2) by blast
  from preempted_tick_is_ordered [OF kinv_expiring _ _ this, of "Sem_At 0"] show ?thesis
    by (simp add: expiring_facts)
qed

text \<open>C18: A give that hits the tick before the \<^verbatim>\<open>wait_queue_remove\<close> of the only waiter is lost: the
  tick ends as if it had not been given. The waiter reports a time-out, the semaphore has no token more
  and nobody waits for it; in either order of the give and the tick the waiter reports success or the
  token is there.\<close>

theorem preempted_tick_loses_token:
  assumes "kinv s" "sems s a = Some x" "sem_max_count x \<noteq> 0" "waiters s (SemQ a) = [Some w]"
    and "sleep_time (os_tasks s ! w) = 1" "tick_run n s = Some (T_Unpark w, s1)"
  shows "preempted_tick n a s = SysTick_Handler s \<and>
    (\<exists>s'. preempted_tick n a s = Some s' \<and> wait_result (os_tasks s' ! w) = OS_TIMEOUT \<and>
      state (os_tasks s' ! w) = READY \<and> tokens s' a = 0 \<and> waiters s' (SemQ a) = []) \<and>
    (\<exists>u. do { s \<leftarrow> os_semaphore_release a s; SysTick_Handler s } = Some u \<and>
      wait_result (os_tasks u ! w) = OS_SUCCESS \<and> tokens u a = 0) \<and>
    (\<exists>u. do { s \<leftarrow> SysTick_Handler s; os_semaphore_release a s } = Some u \<and>
      wait_result (os_tasks u ! w) = OS_TIMEOUT \<and> tokens u a = 1)"
proof (intro conjI)
  have t: "w < tc s" "wait_queue (os_tasks s ! w) = Some (SemQ a)"
    using waits_okD(7,8) [OF kinvD(1) [OF assms(1)]] assms(4)
    by (metis list.set_intros(1) option.inject)+
  have len: "w < length (os_tasks s)" using waits_okD(3) [OF kinvD(1) [OF assms(1)] t(1)] .
  have "sem_ok s a x" using kinvD(2) [OF assms(1)] assms(2) by (simp add: objs_ok_def)
  then have zero: "sem_count x = 0" using assms(4) by (auto simp: sem_ok_def)
  then have none: "tokens s a = 0" using assms(2) by (simp add: tokens_def)
  show lost: "preempted_tick n a s = SysTick_Handler s"
    by (rule preempted_unpark [OF assms(1,2,4,6)])
  obtain g where g: "SysTick_Handler s = Some g" "kinv g"
    "\<forall>t<tc s. os_tasks g ! t = ticked (os_tasks s ! t)"
    "\<forall>r. waiters g r = filter (\<lambda>p. \<not> expired s (the p)) (waiters s r)" "obj_cores g = obj_cores s"
    by (rule systick_effect [OF assms(1)])
  have out: "waiters g (SemQ a) = []" using g(4) assms(4,5) by (simp add: expired_def)
  have "os_tasks g ! w = ticked (os_tasks s ! w)" using g(3) t(1) by simp
  then have late: "wait_result (os_tasks g ! w) = OS_TIMEOUT" "state (os_tasks g ! w) = READY"
    using assms(5) t(2) by (simp_all add: ticked_def)
  show "\<exists>s'. preempted_tick n a s = Some s' \<and> wait_result (os_tasks s' ! w) = OS_TIMEOUT \<and>
      state (os_tasks s' ! w) = READY \<and> tokens s' a = 0 \<and> waiters s' (SemQ a) = []"
    using lost g(1) late out same_cores(2) [OF g(5)] none by simp
  show "\<exists>u. do { s \<leftarrow> os_semaphore_release a s; SysTick_Handler s } = Some u \<and>
      wait_result (os_tasks u ! w) = OS_SUCCESS \<and> tokens u a = 0"
  proof -
    obtain g where g: "os_semaphore_release a s = Some g" "kinv g"
      "os_tasks g = (os_tasks s)[w := woken (os_tasks s ! w)]" "obj_cores g = obj_cores s"
      "task_count g = task_count s"
      by (rule sem_release_handoff [OF assms(1,2)]) (use assms(4) in \<open>simp add: next_waiter_def\<close>)
    obtain u where u: "SysTick_Handler g = Some u"
      "\<forall>t<tc g. os_tasks u ! t = ticked (os_tasks g ! t)" "obj_cores u = obj_cores g"
      by (rule systick_effect [OF g(2)])
    have "os_tasks u ! w = woken (os_tasks s ! w)" using u(2) g(3,5) t(1) len by (simp add: ticked_def)
    moreover have "tokens u a = 0" using u(3) g(4) none same_cores [of u s] by simp
    ultimately show ?thesis using g(1) u(1) by simp
  qed
  show "\<exists>u. do { s \<leftarrow> SysTick_Handler s; os_semaphore_release a s } = Some u \<and>
      wait_result (os_tasks u ! w) = OS_TIMEOUT \<and> tokens u a = 1"
  proof -
    obtain y where y: "sems g a = Some y" using sem_core [OF g(5) [symmetric] assms(2)] by blast
    then have y0: "sem_count y = 0" "sem_max_count y = sem_max_count x"
      using sem_core [OF g(5) y] assms(2) zero by auto
    have rel: "os_semaphore_release a g = Some (set_tokens a 1 g)"
      using sem_release_token(1) [OF g(2) y out] y0 assms(3) by (simp add: word_gt_0)
    have "tokens (set_tokens a 1 g) a = 1" using y by (simp add: tokens_def set_tokens_sems)
    then show ?thesis using g(1) rel late(1) by simp
  qed
qed

theorem preempted_tick_loses_token_witness:
  "(\<exists>s'. preempted_tick 4 (Sem_At 0) expiring = Some s' \<and>
     wait_result (os_tasks s' ! 0) = OS_TIMEOUT \<and> tokens s' (Sem_At 0) = 0) \<and>
   (\<exists>u. do { s \<leftarrow> os_semaphore_release (Sem_At 0) expiring; SysTick_Handler s } = Some u \<and>
     wait_result (os_tasks u ! 0) = OS_SUCCESS)"
proof -
  obtain s1 where "tick_run 4 expiring = Some (T_Unpark 0, s1)" using expiring_points(1) by blast
  moreover have "sem_max_count (sample_sem 0 1 [0]) \<noteq> 0" "sleep_time (os_tasks expiring ! 0) = 1"
    by (simp_all add: expiring_def sample_sem_def)
  ultimately show ?thesis
    using preempted_tick_loses_token [OF kinv_expiring expiring_facts(1) _ expiring_facts(2)] by blast
qed

end
