(* ===== verification/Spec2Isabelle.thy ===== *)
theory Spec2Isabelle
  imports System_Properties Sync_Properties Sched_Properties Queue_Properties
    Driver_Properties Bus_Properties Firmware_Properties Bench_Properties Host_Tests
    Preempted_Properties
begin

text \<open>
  SentinelRTOS, a preemptive kernel for an STM32F411 with an application that sweeps a servo
  and measures distances: a verification development.

  \<^bold>\<open>The program.\<close> The kernel (\<^verbatim>\<open>Kernel/\<close>, \<^verbatim>\<open>Inc/\<close>) schedules up to six tasks by priority, with
  round robin among equals, mutexes with priority inheritance, counting semaphores and message
  queues. A blocked task sits in the wait array of the object it waits for and is made ready by
  a release or by the tick. The tick and the capture interrupt of the ranger run between any two
  instructions of a task outside its critical sections; a switch is requested through PendSV and
  happens once interrupts allow it. The application (\<^verbatim>\<open>Tasks/tasks.c\<close>) is a sweep task that moves
  the servo and sends its angle to a queue, a radar task that reads the ranger and logs angle and
  distance over the UART under a mutex, and an idle task. The drivers (\<^verbatim>\<open>Drivers/\<close>) work on
  memory-mapped registers. \<^verbatim>\<open>Reset_Handler\<close> prepares memory and calls \<^verbatim>\<open>main\<close>, which runs a
  self-test and benchmarks before it launches the kernel.

  \<^bold>\<open>Conventions.\<close> Integers keep their width (\<open>u8\<close>, \<open>u16\<close>, \<open>u32\<close>) and wrap. An operation that
  would run into undefined behaviour of C, or that spins for ever, has the value \<^term>\<open>None\<close>;
  safety and termination are the statements that it is \<^term>\<open>Some\<close>. A pointer to a task is its
  index, a pointer to a mutex or semaphore an address of type \<open>maddr\<close> or \<open>saddr\<close>; NULL is
  \<^term>\<open>None\<close>. Stacks and queue buffers lie in the word memory \<open>mem\<close> of the kernel state.

  \<^bold>\<open>Theories and code.\<close>
  \<^item> Prelude: machine types, array access with bounds, the first-maximum scan.
  \<^item> Kernel_Types: the TCB, the objects and the globals of \<^verbatim>\<open>os_kernel.h\<close>, \<^verbatim>\<open>os_task.h\<close>,
    \<^verbatim>\<open>os_queue.h\<close> as records, the state \<open>kernel\<close>, critical sections, the PendSV request.
  \<^item> Wait_Queue, Kernel_Inv, Wait_Effects: the wait-array functions of \<^verbatim>\<open>os_kernel.c\<close>; the
    invariant \<open>kinv\<close> (arrays, wait pointers and BLOCKED states agree, nothing overflows, locks and
    counts are consistent); what parking, waking and removing do to it.
  \<^item> Scheduler, Tick, Task_Create, Mutex, Semaphore: \<^verbatim>\<open>os_scheduler\<close>; \<^verbatim>\<open>SysTick_Handler\<close> and
    \<^verbatim>\<open>os_delay\<close>; \<^verbatim>\<open>os_kernel_init\<close> and \<^verbatim>\<open>os_task_create\<close>; the two objects. An acquire that blocks
    returns \<open>Parked\<close>, and its result is read by \<open>os_resume_result\<close> when the task runs again.
  \<^item> Msg_Queue, Ring_Queue, Fifo_Contract: \<^verbatim>\<open>os_queue.c\<close> as steps on a program counter \<open>q_pc\<close>; the
    ring as a list; the contract \<open>lossy_fifo\<close>, interpreted on the model.
  \<^item> Context_Switch: \<^verbatim>\<open>os_kernel_asm.s\<close> on a register file and word memory, with exception entry
    and return, and \<^verbatim>\<open>os_kernel_launch\<close>.
  \<^item> Kernel_System, Wait_Service: events and the step relation of the running kernel, its
    reachable states and \<open>sys_inv\<close>; the contract \<open>wait_service\<close> of the order in which waiters are
    served, interpreted on semaphores and on mutexes. Who was served is read off the states before
    and after a release (\<open>granted\<close>: READY, with OS_SUCCESS, in no queue), and for a mutex with it who
    holds it.
  \<^item> Machine_Frame, Send_Outcomes: what no kernel call changes (\<open>machine\<close>); the outcomes of
    \<^verbatim>\<open>os_queue_send\<close> when other tasks are at the same queue.
  \<^item> Device, Gpio, Uart, Servo, Ultrasonic, Adc, Spi, I2c: the drivers as functions on the list of
    register accesses made so far (\<open>history\<close>). What a register reads as after a history is the
    parameter \<open>hardware\<close>; the constants of the CMSIS headers are the parameter \<open>cmsis\<close>. The
    hypotheses on hardware are \<open>plain\<close> (a register reads as last written) and \<open>responsive\<close> (a flag
    is set sooner or later).
  \<^item> Tasks, Boot, Self_Test, Microbench, Ping_Pong, Startup: the tasks as step functions between
    their calls; \<^verbatim>\<open>main\<close>; \<^verbatim>\<open>os_tests.c\<close>; \<^verbatim>\<open>microbench.c\<close>; the vector table and \<^verbatim>\<open>Reset_Handler\<close>.
  \<^item> Host_Tests: the unit tests \<^verbatim>\<open>Test/test_kernel.c\<close> as programs over the kernel model, and that
    they pass from every start.
  \<^item> Firmware, Firmware_Steps, Firmware_Inv: the composition. A state of the \<open>firmware\<close> is the board
    with the points of the radar and the sweep task; an event is a step of the running task, the
    tick, the capture interrupt or the context switch, in any order. While a task prints, a step
    is one call of \<^verbatim>\<open>io_putchar\<close> (\<open>turn\<close>), and undisturbed these steps are the print
    (\<open>radar_print_turns\<close>, \<open>sweep_print_turns\<close>).
    Kernel_Objects (no event touches which objects exist), Seats (where a task stands to a mutex:
    away, waiting, holding) and Priorities say what a kernel event does to a task. The locale
    \<open>mutex_user\<close> (Mutex_Users) is the discipline of a task at a mutex, interpreted for both tasks at
    the mutexes of the UART and of the queue; \<open>lock_client\<close> extends it by the printing.
  \<^item> Queue_Account, Shared_Queue, Firmware_Priorities: the angle queue between its two tasks, step by
    step, as a balance of tokens, messages and what is in transit (\<open>account\<close>); who outranks whom at
    a mutex (\<open>prio_ok\<close>). Both are invariants of the firmware beside \<open>fw_ok\<close>.
  \<^item> Sem_Places, Rally, Bench_Boot: the build with \<^verbatim>\<open>SENTINEL_BENCH\<close>. A \<open>rally\<close> is the board with the
    points of the two ping-pong tasks; \<open>ball\<close> says, at each pair of points, who holds the one token
    of the two semaphores, and \<open>rally_left\<close> how many steps remain. \<open>main_bench\<close> is \<^verbatim>\<open>main\<close> in that
    build. What the timed loops need of the kernel around them is the locale \<open>bench_ground\<close>
    (Microbench), interpreted for both builds.
  \<^item> Tick_Preempted: \<^verbatim>\<open>SysTick_Handler\<close> and the \<^verbatim>\<open>wait_queue_remove\<close> it calls statement by
    statement (\<open>tick_point\<close>), with a give by the capture interrupt between two statements
    (\<open>preempted_tick\<close>). What the give does to the state, the wake of the one waiter (\<open>hand\<close>) or the
    count (\<open>token\<close>), commutes with each statement on its way to the beginning or the end of the
    tick, unless the handler is at its work on that waiter (\<open>exposed\<close>).
  \<^item> Samples, Hardware_Samples: the concrete kernels and hardware of the witnesses.
  \<^item> System_, Sync_, Sched_, Queue_, Driver_, Bus_, Boot_, Firmware_, Bench_ and Preempted_Properties:
    the properties.

  \<^bold>\<open>What is shown.\<close> In every state the kernel can reach, no call runs into undefined behaviour, the
  invariant holds, a mutex has one holder that keeps it until it releases it, exactly the current
  task runs, and a switch picks a runnable task of highest priority (System_Properties). Each
  operation does on each of its branches what the interface promises: waiters are served by
  priority and then by arrival, a time-out ends a wait at exactly its tick, a call restores PRIMASK
  (Sync_Properties, Sched_Properties). A context switch gives every register back. A queue is a
  FIFO that drops its oldest entries (Queue_Properties). A printed number reads back, a pin's
  configuration touches that pin only, the sweep follows its reference wave under any
  interference, two captures of the ranger give the distance, reset sets up memory
  (Driver_Properties). An I2C transfer ends whatever the bus does, and success means the whole
  transfer (Bus_Properties). The boot reaches a kernel that satisfies the system invariant
  (Boot_Properties), so that the first group applies to the firmware as it starts. From there on
  the firmware as a whole never gets stuck, what it sends over the UART is whole log lines that
  never interleave, the angle queue balances in the middle of its calls too, and no task waits for
  a mutex whose holder is outranked (Firmware_Properties). The benchmark build plays exactly its
  hundred rounds and comes to an end (Bench_Properties). The kernel passes its own unit tests from
  every start (Host_Tests). A send to a queue that others use too has one of four outcomes, each
  given exactly (Queue_Properties). A give by the capture interrupt in the middle of the tick leaves
  the state of one before or after it, except at the exposed points: before \<^verbatim>\<open>wait_queue_remove\<close> the
  token is lost (Preempted_Properties, \<open>preempted_unpark\<close>), inside it the handler goes on to read
  through NULL (\<open>preempted_null\<close>), before the decrement of the sleep time that wraps
  (\<open>preempted_count\<close>).

  \<^bold>\<open>Bounds and fuel.\<close> There is no fuel. A queue call has a strictly decreasing rank, every wait of
  the I2C driver its budget of 100000 polls, so these are total functions; a wait without a budget
  (UART, SPI, ADC) is a \<open>partial_function\<close> whose end is proved from \<open>responsive\<close>.

  \<^bold>\<open>Not modelled.\<close>
  \<^item> Preemption inside a critical section, which PRIMASK excludes, and inside a handler: in the
    system model a kernel call and the tick are one step each. The tick handler has no critical
    section of its own, and on the target the capture interrupt, which has a higher priority, can
    preempt it. Tick_Preempted treats that for one give in a tick and interrupts between the
    statements of the handler and of \<^verbatim>\<open>wait_queue_remove\<close>, for a semaphore with at most one waiter;
    between the load and the store of one statement it says nothing.
  \<^item> The stack of the handlers (MSP), the FPU and faults.
  \<^item> What the self-test prints, which has no effect on its outcome.
  \<^item> The CMSIS headers, which are not part of the repository: their constants are a parameter.
\<close>

end
